(* ===== verification/Lfs_Prelude.thy ===== *)
theory Lfs_Prelude
  imports Main "HOL-Library.Word" "HOL-Library.Monad_Syntax"
begin

text \<open>
  Shared vocabulary of the development: the machine types of the C sources, the conversions
  between C integer types, byte strings, and generic facts on lists and words that the component
  theories use.

  \<^item> \<open>byte\<close> is \<open>unsigned char\<close>; a buffer is a \<open>byte list\<close>; a C string is the byte list before its
    terminating NUL.
  \<^item> \<open>u32\<close>, \<open>u64\<close> are \<open>uint32_t\<close>, \<open>uint64_t\<close>; \<open>s16\<close>, \<open>s32\<close>, \<open>s64\<close> are the bit patterns of
    \<open>int16_t\<close>, \<open>int\<close> and \<open>int64_t\<close>, read with \<open>sint\<close>.
  \<^item> \<open>LFS_OK\<close> and \<open>LFS_ERROR\<close> are the return codes of \<open>common_define.h\<close>.
\<close>

unbundle bit_operations_syntax

type_synonym byte = "8 word"
type_synonym cstr = "byte list"
type_synonym u32 = "32 word"
type_synonym u64 = "64 word"
type_synonym s16 = "16 word"
type_synonym s32 = "32 word"
type_synonym s64 = "64 word"

named_theorems codec_simps \<open>unfolding of the byte codecs\<close>
named_theorems mem_simps \<open>reading and writing of the explicit store\<close>
named_theorems chain_simps \<open>linked chains in the explicit store\<close>

abbreviation (input) LFS_OK :: int where "LFS_OK \<equiv> 0"
abbreviation (input) LFS_ERROR :: int where "LFS_ERROR \<equiv> -1"

subsection \<open>Conversions between C integer types\<close>

text \<open>Conversion of a mathematical integer to \<open>int\<close>, \<open>int64_t\<close> (two's complement truncation, as
  the compilers of the target platform do it) and to \<open>uint32_t\<close>.\<close>

definition to_s32 :: "int \<Rightarrow> int" where
  "to_s32 i = signed_take_bit 31 i"

definition to_s64 :: "int \<Rightarrow> int" where
  "to_s64 i = signed_take_bit 63 i"

definition in_s32 :: "int \<Rightarrow> bool" where
  "in_s32 i \<longleftrightarrow> - (2 ^ 31) \<le> i \<and> i < 2 ^ 31"

definition in_s64 :: "int \<Rightarrow> bool" where
  "in_s64 i \<longleftrightarrow> - (2 ^ 63) \<le> i \<and> i < 2 ^ 63"

lemma to_s32_id [simp]: "in_s32 i \<Longrightarrow> to_s32 i = i"
  by (simp add: to_s32_def in_s32_def signed_take_bit_int_eq_self_iff)

lemma to_s64_id [simp]: "in_s64 i \<Longrightarrow> to_s64 i = i"
  by (simp add: to_s64_def in_s64_def signed_take_bit_int_eq_self_iff)

lemma in_s32_to_s32 [simp]: "in_s32 (to_s32 i)"
  unfolding to_s32_def in_s32_def
  using signed_take_bit_int_greater_eq_minus_exp [of 31 i] signed_take_bit_int_less_exp [of 31 i]
  by simp

lemma in_s64_to_s64 [simp]: "in_s64 (to_s64 i)"
  unfolding to_s64_def in_s64_def
  using signed_take_bit_int_greater_eq_minus_exp [of 63 i] signed_take_bit_int_less_exp [of 63 i]
  by simp

lemma in_s32_in_s64: "in_s32 i \<Longrightarrow> in_s64 i"
  by (simp add: in_s32_def in_s64_def)

lemma in_s64_sint [simp]: "in_s64 (sint (w :: s64))"
  using sint_lt [of w] sint_ge [of w] by (simp add: in_s64_def)

subsection \<open>C strings\<close>

text \<open>A string literal of the sources as a byte list.\<close>

definition byte_of_char :: "char \<Rightarrow> byte" where
  "byte_of_char c = of_nat (of_char c)"

definition asc :: "string \<Rightarrow> cstr" where
  "asc s = map byte_of_char s"

lemma asc_Nil [simp]: "asc [] = []"
  by (simp add: asc_def)

lemma asc_Cons [simp]: "asc (c # s) = byte_of_char c # asc s"
  by (simp add: asc_def)

lemma byte_of_char_Char [simp]:
  "byte_of_char (Char b0 b1 b2 b3 b4 b5 b6 b7) =
     of_bool b0 + 2 * (of_bool b1 + 2 * (of_bool b2 + 2 * (of_bool b3 + 2 * (of_bool b4
       + 2 * (of_bool b5 + 2 * (of_bool b6 + 2 * of_bool b7))))))"
  by (simp add: byte_of_char_def)

text \<open>A C string has no NUL inside.\<close>

definition is_cstr :: "cstr \<Rightarrow> bool" where
  "is_cstr s \<longleftrightarrow> 0 \<notin> set s"

text \<open>\<open>strlen\<close> on a buffer: the bytes before the first NUL (all of them when there is none: the
  callers of the model only pass buffers with a terminator).\<close>

definition cstr_of :: "byte list \<Rightarrow> cstr" where
  "cstr_of b = takeWhile (\<lambda>c. c \<noteq> 0) b"

lemma is_cstr_cstr_of [simp]: "is_cstr (cstr_of b)"
  unfolding is_cstr_def cstr_of_def by (auto dest: set_takeWhileD)

lemma cstr_of_append_NUL [simp]: "is_cstr s \<Longrightarrow> cstr_of (s @ 0 # r) = s"
  unfolding is_cstr_def cstr_of_def by (induction s) auto

lemma cstr_of_is_cstr [simp]: "is_cstr s \<Longrightarrow> cstr_of s = s"
  unfolding is_cstr_def cstr_of_def by (induction s) auto

lemma is_cstr_simps [simp]:
  "is_cstr []" "is_cstr (a # s) \<longleftrightarrow> a \<noteq> 0 \<and> is_cstr s"
  "is_cstr (s @ t) \<longleftrightarrow> is_cstr s \<and> is_cstr t"
  by (auto simp: is_cstr_def)

subsection \<open>Generic list facts\<close>

lemma takeWhile_neq_append:
  "c \<notin> set xs \<Longrightarrow> takeWhile (\<lambda>x. x \<noteq> c) (xs @ c # ys) = xs"
  by (induction xs) auto

lemma dropWhile_neq_append:
  "c \<notin> set xs \<Longrightarrow> dropWhile (\<lambda>x. x \<noteq> c) (xs @ c # ys) = c # ys"
  by (induction xs) auto

lemma take_drop_slice_append:
  "length p = n \<Longrightarrow> length x = k \<Longrightarrow> take k (drop n (p @ x @ r)) = x"
  by simp

subsection \<open>Generic word facts\<close>

lemma bit_0xFF: "bit (0xFF :: 'a::len word) n \<longleftrightarrow> n < 8 \<and> n < LENGTH('a)"
proof -
  have eq: "(0xFF :: 'a word) = mask 8" by (simp add: mask_eq_exp_minus_1)
  show ?thesis unfolding eq by (auto simp only: bit_mask_iff possible_bit_word)
qed

text \<open>The bits of the masks the sources use; the simplifier reads a numeral bit by bit as an
  integer.\<close>

lemma bit_mask_int:
  "bit (0x3F :: int) n \<longleftrightarrow> n < 6" "bit (0xFF :: int) n \<longleftrightarrow> n < 8"
  "bit (0xFFFFFF :: int) n \<longleftrightarrow> n < 24" "bit (- 256 :: int) n \<longleftrightarrow> 8 \<le> n"
proof -
  have eq: "(0x3F :: int) = mask 6" "(0xFF :: int) = mask 8" "(0xFFFFFF :: int) = mask 24"
    "(- 256 :: int) = NOT (mask 8)"
    by (simp_all add: mask_eq_exp_minus_1)
  show "bit (0x3F :: int) n \<longleftrightarrow> n < 6" "bit (0xFF :: int) n \<longleftrightarrow> n < 8"
    "bit (0xFFFFFF :: int) n \<longleftrightarrow> n < 24" "bit (- 256 :: int) n \<longleftrightarrow> 8 \<le> n"
    unfolding eq by (auto simp only: bit_mask_iff bit_not_int_iff possible_bit_int)
qed

lemma unat_and_le: "unat ((a :: 'a::len word) AND b) \<le> unat b"
proof -
  have "a AND b \<le> b" by (simp add: word_le_def unsigned_and_eq)
  then show ?thesis by (simp add: word_le_nat_alt)
qed

text \<open>Reduction of a hash to a bucket index: \<open>h & (size - 1)\<close>.\<close>

lemma unat_and_minus_1_less: "0 < unat (n :: 'a::len word) \<Longrightarrow> unat (h AND (n - 1)) < unat n"
proof -
  assume "0 < unat n"
  then have "unat (n - 1) = unat n - 1" by (simp add: unat_minus_one unat_gt_0)
  then show ?thesis using unat_and_le [of h "n - 1"] \<open>0 < unat n\<close> by linarith
qed

lemma unat_double: "unat x < 2 ^ 31 \<Longrightarrow> unat (2 * x :: u32) = 2 * unat x"
  using unat_mult_lem [of 2 x] by simp

end
