(* ===== verification/Crc32.thy ===== *)
theory Crc32
  imports Lfs_Prelude
begin

text \<open>
  \<open>src/common/crc32.c\<close>: the table-driven CRC-32 of buffers and files. The table loop is shown to
  compute the bitwise CRC with the reflected polynomial \<open>0xEDB88320\<close>, the checksum of a file read
  in blocks is the checksum of its contents, and a change confined to four consecutive bytes is
  always detected.
\<close>

subsection \<open>The code\<close>

definition CRC32_BUFF_SIZE :: nat where
  "CRC32_BUFF_SIZE = 16 * 1024"

definition crc32_table :: "u32 list" where
  "crc32_table = [
    0x00000000, 0x77073096, 0xEE0E612C, 0x990951BA, 0x076DC419, 0x706AF48F, 0xE963A535, 0x9E6495A3,
    0x0EDB8832, 0x79DCB8A4, 0xE0D5E91E, 0x97D2D988, 0x09B64C2B, 0x7EB17CBD, 0xE7B82D07, 0x90BF1D91,
    0x1DB71064, 0x6AB020F2, 0xF3B97148, 0x84BE41DE, 0x1ADAD47D, 0x6DDDE4EB, 0xF4D4B551, 0x83D385C7,
    0x136C9856, 0x646BA8C0, 0xFD62F97A, 0x8A65C9EC, 0x14015C4F, 0x63066CD9, 0xFA0F3D63, 0x8D080DF5,
    0x3B6E20C8, 0x4C69105E, 0xD56041E4, 0xA2677172, 0x3C03E4D1, 0x4B04D447, 0xD20D85FD, 0xA50AB56B,
    0x35B5A8FA, 0x42B2986C, 0xDBBBC9D6, 0xACBCF940, 0x32D86CE3, 0x45DF5C75, 0xDCD60DCF, 0xABD13D59,
    0x26D930AC, 0x51DE003A, 0xC8D75180, 0xBFD06116, 0x21B4F4B5, 0x56B3C423, 0xCFBA9599, 0xB8BDA50F,
    0x2802B89E, 0x5F058808, 0xC60CD9B2, 0xB10BE924, 0x2F6F7C87, 0x58684C11, 0xC1611DAB, 0xB6662D3D,
    0x76DC4190, 0x01DB7106, 0x98D220BC, 0xEFD5102A, 0x71B18589, 0x06B6B51F, 0x9FBFE4A5, 0xE8B8D433,
    0x7807C9A2, 0x0F00F934, 0x9609A88E, 0xE10E9818, 0x7F6A0DBB, 0x086D3D2D, 0x91646C97, 0xE6635C01,
    0x6B6B51F4, 0x1C6C6162, 0x856530D8, 0xF262004E, 0x6C0695ED, 0x1B01A57B, 0x8208F4C1, 0xF50FC457,
    0x65B0D9C6, 0x12B7E950, 0x8BBEB8EA, 0xFCB9887C, 0x62DD1DDF, 0x15DA2D49, 0x8CD37CF3, 0xFBD44C65,
    0x4DB26158, 0x3AB551CE, 0xA3BC0074, 0xD4BB30E2, 0x4ADFA541, 0x3DD895D7, 0xA4D1C46D, 0xD3D6F4FB,
    0x4369E96A, 0x346ED9FC, 0xAD678846, 0xDA60B8D0, 0x44042D73, 0x33031DE5, 0xAA0A4C5F, 0xDD0D7CC9,
    0x5005713C, 0x270241AA, 0xBE0B1010, 0xC90C2086, 0x5768B525, 0x206F85B3, 0xB966D409, 0xCE61E49F,
    0x5EDEF90E, 0x29D9C998, 0xB0D09822, 0xC7D7A8B4, 0x59B33D17, 0x2EB40D81, 0xB7BD5C3B, 0xC0BA6CAD,
    0xEDB88320, 0x9ABFB3B6, 0x03B6E20C, 0x74B1D29A, 0xEAD54739, 0x9DD277AF, 0x04DB2615, 0x73DC1683,
    0xE3630B12, 0x94643B84, 0x0D6D6A3E, 0x7A6A5AA8, 0xE40ECF0B, 0x9309FF9D, 0x0A00AE27, 0x7D079EB1,
    0xF00F9344, 0x8708A3D2, 0x1E01F268, 0x6906C2FE, 0xF762575D, 0x806567CB, 0x196C3671, 0x6E6B06E7,
    0xFED41B76, 0x89D32BE0, 0x10DA7A5A, 0x67DD4ACC, 0xF9B9DF6F, 0x8EBEEFF9, 0x17B7BE43, 0x60B08ED5,
    0xD6D6A3E8, 0xA1D1937E, 0x38D8C2C4, 0x4FDFF252, 0xD1BB67F1, 0xA6BC5767, 0x3FB506DD, 0x48B2364B,
    0xD80D2BDA, 0xAF0A1B4C, 0x36034AF6, 0x41047A60, 0xDF60EFC3, 0xA867DF55, 0x316E8EEF, 0x4669BE79,
    0xCB61B38C, 0xBC66831A, 0x256FD2A0, 0x5268E236, 0xCC0C7795, 0xBB0B4703, 0x220216B9, 0x5505262F,
    0xC5BA3BBE, 0xB2BD0B28, 0x2BB45A92, 0x5CB36A04, 0xC2D7FFA7, 0xB5D0CF31, 0x2CD99E8B, 0x5BDEAE1D,
    0x9B64C2B0, 0xEC63F226, 0x756AA39C, 0x026D930A, 0x9C0906A9, 0xEB0E363F, 0x72076785, 0x05005713,
    0x95BF4A82, 0xE2B87A14, 0x7BB12BAE, 0x0CB61B38, 0x92D28E9B, 0xE5D5BE0D, 0x7CDCEFB7, 0x0BDBDF21,
    0x86D3D2D4, 0xF1D4E242, 0x68DDB3F8, 0x1FDA836E, 0x81BE16CD, 0xF6B9265B, 0x6FB077E1, 0x18B74777,
    0x88085AE6, 0xFF0F6A70, 0x66063BCA, 0x11010B5C, 0x8F659EFF, 0xF862AE69, 0x616BFFD3, 0x166CCF45,
    0xA00AE278, 0xD70DD2EE, 0x4E048354, 0x3903B3C2, 0xA7672661, 0xD06016F7, 0x4969474D, 0x3E6E77DB,
    0xAED16A4A, 0xD9D65ADC, 0x40DF0B66, 0x37D83BF0, 0xA9BCAE53, 0xDEBB9EC5, 0x47B2CF7F, 0x30B5FFE9,
    0xBDBDF21C, 0xCABAC28A, 0x53B39330, 0x24B4A3A6, 0xBAD03605, 0xCDD70693, 0x54DE5729, 0x23D967BF,
    0xB3667A2E, 0xC4614AB8, 0x5D681B02, 0x2A6F2B94, 0xB40BBE37, 0xC30C8EA1, 0x5A05DF1B, 0x2D02EF8D]"

text \<open>One iteration of the loop; \<open>crc\<close> is an \<open>unsigned long\<close> of 64 bits.\<close>

definition crc32_update :: "u64 \<Rightarrow> byte \<Rightarrow> u64" where
  "crc32_update crc b =
     (drop_bit 8 crc AND 0x00FFFFFF) XOR
     ucast (crc32_table ! unat ((crc XOR ucast b) AND 0x000000FF))"

definition get_default_crc32_value :: "u32 \<Rightarrow> byte list \<Rightarrow> u64" where
  "get_default_crc32_value deft buf =
     foldl crc32_update (ucast (deft XOR 0xFFFFFFFF)) buf XOR 0xFFFFFFFF"

definition get_crc32_value :: "byte list \<Rightarrow> u64" where
  "get_crc32_value buf = get_default_crc32_value 0 buf"

text \<open>The read loop of \<open>get_file_crc32_value\<close> on what is left of the file; the checksum so far is
  passed on as an \<open>unsigned int\<close>.\<close>

function file_crc32_loop :: "u64 \<Rightarrow> byte list \<Rightarrow> u64" where
  "file_crc32_loop crc rest =
     (if rest = [] then crc
      else file_crc32_loop (get_default_crc32_value (ucast crc) (take CRC32_BUFF_SIZE rest))
             (drop CRC32_BUFF_SIZE rest))"
  by pat_completeness auto
termination by (relation "measure (length \<circ> snd)") (auto simp: CRC32_BUFF_SIZE_def)

declare file_crc32_loop.simps [simp del]

text \<open>\<open>None\<close> is a file that \<open>fopen\<close> cannot open.\<close>

definition get_file_crc32_value :: "byte list option \<Rightarrow> u64" where
  "get_file_crc32_value fp = (case fp of None \<Rightarrow> 0 | Some content \<Rightarrow> file_crc32_loop 0 content)"

subsection \<open>The bitwise reference\<close>

definition crc_bit :: "u32 \<Rightarrow> u32" where
  "crc_bit c = (if bit c 0 then drop_bit 1 c XOR 0xEDB88320 else drop_bit 1 c)"

definition crc_byte :: "u32 \<Rightarrow> byte \<Rightarrow> u32" where
  "crc_byte c b = (crc_bit ^^ 8) (c XOR ucast b)"

definition crc_ref :: "u32 \<Rightarrow> byte list \<Rightarrow> u32" where
  "crc_ref deft buf = NOT (foldl crc_byte (NOT deft) buf)"

subsection \<open>Linearity of the reference\<close>

lemma xor_cancel: "p XOR (p XOR x) = (x :: 'a::len word)"
  by (simp flip: xor.assoc)

lemma crc_bit_xor: "crc_bit (a XOR b) = crc_bit a XOR crc_bit b"
  by (cases "bit a 0"; cases "bit b 0")
    (simp_all add: crc_bit_def bit_xor_iff drop_bit_xor xor_cancel ac_simps)

lemma crc_bits_xor: "(crc_bit ^^ n) (a XOR b) = (crc_bit ^^ n) a XOR (crc_bit ^^ n) b"
  by (induction n) (simp_all add: crc_bit_xor)

lemma crc_bits_push:
  assumes "\<And>i. i < n \<Longrightarrow> \<not> bit c i"
  shows "(crc_bit ^^ n) c = drop_bit n c"
  using assms
proof (induction n)
  case (Suc n)
  then have "(crc_bit ^^ n) c = drop_bit n c" by simp
  moreover have "\<not> bit (drop_bit n c) 0" using Suc.prems [of n] by (simp add: bit_drop_bit_eq)
  ultimately show ?case by (simp add: crc_bit_def [of "drop_bit n c"])
qed simp

text \<open>The polynomial has its top bit set, so a step can be undone.\<close>

lemma bit_31_poly: "bit (0xEDB88320 :: u32) 31"
  by (simp add: bit_numeral_rec)

lemma bit_crc_bit_31: "bit (crc_bit c) 31 \<longleftrightarrow> bit c 0"
  using bit_31_poly bit_imp_le_length [of c 32] by (auto simp: crc_bit_def bit_xor_iff bit_drop_bit_eq)

lemma drop_bit_1_eqD: "drop_bit 1 a = drop_bit 1 b \<Longrightarrow> bit a 0 = bit b 0 \<Longrightarrow> a = (b :: u32)"
proof (rule bit_word_eqI)
  fix n assume *: "drop_bit 1 a = drop_bit 1 b" "bit a 0 = bit b 0"
  show "bit a n = bit b n"
  proof (cases n)
    case (Suc k)
    have "bit (drop_bit 1 a) k = bit (drop_bit 1 b) k" using *(1) by simp
    then show ?thesis using Suc by (simp add: bit_drop_bit_eq)
  qed (use *(2) in simp)
qed

lemma crc_bit_inj: "crc_bit a = crc_bit b \<Longrightarrow> a = b"
proof -
  assume eq: "crc_bit a = crc_bit b"
  then have 0: "bit a 0 = bit b 0" using bit_crc_bit_31 [of a] bit_crc_bit_31 [of b] by simp
  have x: "u = v" if "u XOR w = v XOR w" for u v w :: u32
  proof -
    have "(u XOR w) XOR w = (v XOR w) XOR w" using that by simp
    then show ?thesis by (simp add: xor.assoc)
  qed
  have "drop_bit 1 a = drop_bit 1 b"
    using eq 0 x [of "drop_bit 1 a" "0xEDB88320" "drop_bit 1 b"]
    by (cases "bit a 0") (simp_all add: crc_bit_def)
  then show ?thesis using 0 by (rule drop_bit_1_eqD)
qed

lemma crc_bits_inj: "(crc_bit ^^ n) a = (crc_bit ^^ n) b \<Longrightarrow> a = b"
  by (induction n) (auto dest: crc_bit_inj)

subsection \<open>The table\<close>

lemma length_crc32_table: "length crc32_table = 256"
  by (simp add: crc32_table_def)

lemma of_nat_add_xor:
  assumes "i < 2 ^ k"
  shows "(of_nat (2 ^ k + i) :: u32) = of_nat (2 ^ k) XOR of_nat i"
proof -
  have "\<not> bit i k" using assms by (simp add: bit_iff_odd)
  then have "(2 ^ k) AND i = 0" by (intro bit_eqI) (auto simp: bit_and_iff bit_exp_iff)
  then have "2 ^ k + i = (2 ^ k) XOR i" by (rule disjunctive_add_eq_xor)
  then show ?thesis by (simp only: of_nat_xor_eq)
qed

text \<open>The table is closed under doubling: if its first \<open>2 ^ k\<close> entries are those of a linear map,
  so are the first \<open>2 ^ (k + 1)\<close>.\<close>

lemma table_double:
  assumes ok: "\<And>i. i < 2 ^ k \<Longrightarrow> T ! i = (crc_bit ^^ 8) (of_nat i)"
    and dbl: "take (2 * 2 ^ k) T = take (2 ^ k) T @ map (\<lambda>x. a XOR x) (take (2 ^ k) T)"
    and a: "a = (crc_bit ^^ 8) (of_nat (2 ^ k))"
    and len: "2 * 2 ^ k \<le> length T" and i: "i < 2 * 2 ^ k"
  shows "T ! i = (crc_bit ^^ 8) (of_nat i)"
proof (cases "i < 2 ^ k")
  case False
  define j where "j = i - 2 ^ k"
  have j: "j < 2 ^ k" "i = 2 ^ k + j" using False i by (auto simp: j_def)
  have "T ! i = take (2 * 2 ^ k) T ! i" using i by simp
  also have "\<dots> = a XOR T ! j" unfolding dbl using j len by (simp add: nth_append min_def)
  also have "\<dots> = (crc_bit ^^ 8) (of_nat i)"
    unfolding j(2) of_nat_add_xor [OF j(1)] crc_bits_xor using ok [OF j(1)] a by simp
  finally show ?thesis .
qed (use ok in simp)

lemma less_8_cases: "k < 8 \<Longrightarrow> k \<in> {0, 1, 2, 3, 4, 5, 6, 7 :: nat}"
  by auto

lemma table_basis:
  assumes "k < 8" shows "crc32_table ! (2 ^ k) = (crc_bit ^^ 8) (of_nat (2 ^ k))"
proof -
  have "(crc_bit ^^ 8) 1 = 0x77073096" "(crc_bit ^^ 8) 2 = 0xEE0E612C"
    "(crc_bit ^^ 8) 4 = 0x076DC419" "(crc_bit ^^ 8) 8 = 0x0EDB8832"
    "(crc_bit ^^ 8) 16 = 0x1DB71064" "(crc_bit ^^ 8) 32 = 0x3B6E20C8"
    "(crc_bit ^^ 8) 64 = 0x76DC4190" "(crc_bit ^^ 8) 128 = 0xEDB88320" by code_simp+
  then show ?thesis
    using less_8_cases [OF assms] by (elim insertE emptyE) (simp_all add: crc32_table_def)
qed

lemma table_prefix:
  assumes "k < 8"
  shows "take (2 * 2 ^ k) crc32_table =
    take (2 ^ k) crc32_table @ map (\<lambda>x. crc32_table ! (2 ^ k) XOR x) (take (2 ^ k) crc32_table)"
  using less_8_cases [OF assms] by (elim insertE emptyE) (simp_all add: crc32_table_def)

lemma crc32_table_pow:
  "k \<le> 8 \<Longrightarrow> i < 2 ^ k \<Longrightarrow> crc32_table ! i = (crc_bit ^^ 8) (of_nat i)"
proof (induction k arbitrary: i)
  case 0
  then show ?case by (simp add: crc_bits_push) (simp add: crc32_table_def)
next
  case (Suc k)
  have "2 * 2 ^ k \<le> length crc32_table"
    using Suc.prems(1) power_increasing [of "Suc k" 8 "2 :: nat"] by (simp add: length_crc32_table)
  then show ?case
    using Suc table_double [of k crc32_table "crc32_table ! (2 ^ k)" i]
      table_prefix [of k] table_basis [of k] by simp
qed

lemma crc32_table_nth: "i < 256 \<Longrightarrow> crc32_table ! i = (crc_bit ^^ 8) (of_nat i)"
  using crc32_table_pow [of 8 i] by simp

subsection \<open>The loop computes the reference\<close>

lemma low_byte_split: "((c :: u32) AND - 256) XOR (c AND 0xFF) = c"
  by (rule bit_word_eqI) (auto simp: bit_xor_iff bit_and_iff bit_mask_int)

lemma unat_low_byte: "unat ((c :: u32) AND 0xFF) < 256"
proof -
  have "c AND 0xFF = take_bit 8 c"
    by (rule bit_word_eqI) (auto simp: bit_and_iff bit_mask_int bit_take_bit_iff)
  then show ?thesis using take_bit_nat_less_exp [of 8 "unat c"] by (simp add: unsigned_take_bit_eq)
qed

lemma crc_bits_8_split: "(crc_bit ^^ 8) c = drop_bit 8 c XOR crc32_table ! unat (c AND 0xFF)"
proof -
  have "(crc_bit ^^ 8) (c AND - 256) = drop_bit 8 (c AND - 256)"
    by (rule crc_bits_push) (simp add: bit_and_iff bit_mask_int)
  also have "\<dots> = drop_bit 8 c"
    by (rule bit_word_eqI)
      (auto simp: bit_drop_bit_eq bit_and_iff bit_mask_int simp del: drop_bit_and
        dest: bit_imp_le_length)
  finally have "(crc_bit ^^ 8) (c AND - 256) = drop_bit 8 c" .
  moreover have "(crc_bit ^^ 8) (c AND 0xFF) = crc32_table ! unat (c AND 0xFF)"
    using unat_low_byte [of c] by (simp add: crc32_table_nth)
  ultimately show ?thesis
    using crc_bits_xor [of 8 "c AND - 256" "c AND 0xFF"] by (simp only: low_byte_split)
qed

lemma crc32_update_ucast: "crc32_update (ucast c) b = ucast (crc_byte c b)"
proof -
  have 1: "(ucast c XOR ucast b) AND (0xFF :: u64) = ucast ((c XOR ucast b) AND 0xFF)"
    by (rule bit_word_eqI) (auto simp: bit_simps bit_mask_int)
  have 2: "drop_bit 8 (ucast c) AND (0x00FFFFFF :: u64) = ucast (drop_bit 8 (c XOR ucast b))"
    by (rule bit_word_eqI) (auto simp: bit_simps bit_mask_int dest: bit_imp_le_length)
  have "unat (ucast ((c XOR ucast b) AND 0xFF) :: u64) = unat ((c XOR ucast b) AND 0xFF)"
    using unat_low_byte [of "c XOR ucast b"]
    by (simp add: unsigned_ucast_eq take_bit_nat_eq_self)
  then show ?thesis
    unfolding crc32_update_def crc_byte_def 1 2 crc_bits_8_split by (simp add: unsigned_xor_eq)
qed

lemma foldl_crc32_update: "foldl crc32_update (ucast c) buf = ucast (foldl crc_byte c buf)"
  by (induction buf arbitrary: c) (simp_all add: crc32_update_ucast)

lemma xor_ones_32: "(c :: u32) XOR 0xFFFFFFFF = NOT c"
proof -
  have "(0xFFFFFFFF :: u32) = - 1" by simp
  then show ?thesis by (simp only: bit.xor_one_right)
qed

lemma ucast_not_32: "(ucast (c :: u32) :: u64) XOR 0xFFFFFFFF = ucast (NOT c)"
proof -
  have "(0xFFFFFFFF :: u64) = ucast (0xFFFFFFFF :: u32)" by simp
  then have "ucast c XOR (0xFFFFFFFF :: u64) = ucast (c XOR 0xFFFFFFFF)"
    by (simp only: unsigned_xor_eq)
  then show ?thesis by (simp only: xor_ones_32)
qed

lemma get_default_crc32_value_ref: "get_default_crc32_value deft buf = ucast (crc_ref deft buf)"
  by (simp only: get_default_crc32_value_def crc_ref_def foldl_crc32_update xor_ones_32 ucast_not_32)

lemma crc_ref_append: "crc_ref (crc_ref d a) b = crc_ref d (a @ b)"
  by (simp add: crc_ref_def)

lemma ucast_ucast_crc: "(ucast (ucast (c :: u32) :: u64) :: u32) = c"
  by (rule bit_word_eqI) (simp add: bit_simps)

lemma file_crc32_loop_ref: "file_crc32_loop (ucast c) rest = ucast (crc_ref c rest)"
proof (induction "length rest" arbitrary: c rest rule: less_induct)
  case less
  show ?case
  proof (cases "rest = []")
    case False
    then have "length (drop CRC32_BUFF_SIZE rest) < length rest" by (simp add: CRC32_BUFF_SIZE_def)
    from less [OF this] show ?thesis
      using False by (subst file_crc32_loop.simps)
        (simp add: get_default_crc32_value_ref ucast_ucast_crc crc_ref_append)
  qed (simp add: file_crc32_loop.simps crc_ref_def)
qed

subsection \<open>Detection of short bursts\<close>

lemma xor_right_inj: "a XOR c = b XOR c \<Longrightarrow> a = (b :: u32)"
  by (metis xor_cancel xor.commute)

lemma foldl_crc_byte_inj: "foldl crc_byte a buf = foldl crc_byte b buf \<Longrightarrow> a = b"
proof (induction buf arbitrary: a b)
  case (Cons x buf)
  then have "crc_byte a x = crc_byte b x" by (metis foldl_Cons)
  then show ?case unfolding crc_byte_def by (rule crc_bits_inj [THEN xor_right_inj])
qed simp

primrec le_word :: "nat \<Rightarrow> byte list \<Rightarrow> u32" where
  "le_word k [] = 0"
| "le_word k (b # bs) = push_bit (8 * k) (ucast b) XOR le_word (Suc k) bs"

lemma crc_bits_push_byte:
  assumes "k < 4"
  shows "(crc_bit ^^ (8 * k)) (push_bit (8 * k) (ucast (b :: byte))) = ucast b"
proof -
  have "(crc_bit ^^ (8 * k)) (push_bit (8 * k) (ucast b)) = drop_bit (8 * k) (push_bit (8 * k) (ucast b))"
    by (rule crc_bits_push) (simp add: bit_push_bit_iff)
  also have "\<dots> = ucast b"
    using assms by (intro bit_word_eqI) (auto simp: bit_simps dest: bit_imp_le_length)
  finally show ?thesis .
qed

lemma foldl_crc_byte_word:
  "k + length bs \<le> 4 \<Longrightarrow>
   foldl crc_byte ((crc_bit ^^ (8 * k)) z) bs = (crc_bit ^^ (8 * (k + length bs))) (z XOR le_word k bs)"
proof (induction bs arbitrary: k z)
  case (Cons b bs)
  have "crc_byte ((crc_bit ^^ (8 * k)) z) b
      = (crc_bit ^^ 8) ((crc_bit ^^ (8 * k)) z XOR (crc_bit ^^ (8 * k)) (push_bit (8 * k) (ucast b)))"
    using Cons.prems by (simp add: crc_byte_def crc_bits_push_byte)
  also have "\<dots> = (crc_bit ^^ (8 * Suc k)) (z XOR push_bit (8 * k) (ucast b))"
    by (simp only: crc_bits_xor [symmetric] funpow_add comp_apply mult_Suc_right)
  finally have "crc_byte ((crc_bit ^^ (8 * k)) z) b = (crc_bit ^^ (8 * Suc k)) (z XOR push_bit (8 * k) (ucast b))" .
  then show ?case
    using Cons.IH [of "Suc k" "z XOR push_bit (8 * k) (ucast b)"] Cons.prems
    by (simp add: xor.assoc)
qed simp

lemma bit_le_word_low: "i < 8 * k \<Longrightarrow> \<not> bit (le_word k bs) i"
  by (induction bs arbitrary: k) (simp_all add: bit_xor_iff bit_push_bit_iff)

lemma bit_le_word_hd:
  "j < 8 \<Longrightarrow> k < 4 \<Longrightarrow> bit (le_word k (b # bs)) (8 * k + j) \<longleftrightarrow> bit b j"
  using bit_le_word_low [of "8 * k + j" "Suc k" bs] by (simp add: bit_xor_iff bit_push_bit_iff bit_unsigned_iff)

lemma le_word_inj:
  "length x = length y \<Longrightarrow> k + length x \<le> 4 \<Longrightarrow> le_word k x = le_word k y \<Longrightarrow> x = y"
proof (induction x y arbitrary: k rule: list_induct2)
  case (Cons a x b y)
  have "a = b"
  proof (rule bit_word_eqI)
    fix j assume "j < LENGTH(8)"
    then show "bit a j = bit b j"
      using bit_le_word_hd [of j k a x] bit_le_word_hd [of j k b y] Cons.prems by simp
  qed
  have "le_word (Suc k) x = le_word (Suc k) y"
    using Cons.prems(2) \<open>a = b\<close> by (rule_tac c = "push_bit (8 * k) (ucast b)" in xor_right_inj)
      (simp add: xor.commute)
  then have "x = y" using Cons.prems(1) by (intro Cons.IH [of "Suc k"]) simp_all
  with \<open>a = b\<close> show ?case by simp
qed simp

lemma crc_ref_burst:
  assumes "length x = length y" and "length x \<le> 4" and "crc_ref d (p @ x @ s) = crc_ref d (p @ y @ s)"
  shows "x = y"
proof -
  have "foldl crc_byte (NOT d) (p @ x @ s) = foldl crc_byte (NOT d) (p @ y @ s)"
    using arg_cong [OF assms(3), of "\<lambda>w. NOT w"] by (simp add: crc_ref_def)
  then have "foldl crc_byte (foldl crc_byte (NOT d) p) x = foldl crc_byte (foldl crc_byte (NOT d) p) y"
    by (rule_tac buf = s in foldl_crc_byte_inj) simp
  then have "(crc_bit ^^ (8 * length x)) (foldl crc_byte (NOT d) p XOR le_word 0 x)
      = (crc_bit ^^ (8 * length x)) (foldl crc_byte (NOT d) p XOR le_word 0 y)"
    using foldl_crc_byte_word [of 0 x] foldl_crc_byte_word [of 0 y] assms(1,2) by simp
  then have "le_word 0 x = le_word 0 y" by (metis crc_bits_inj xor_cancel)
  then show ?thesis using assms(1,2) le_word_inj [of x y 0] by simp
qed

subsection \<open>Properties\<close>

text \<open>C37: The table-driven loop computes the bitwise CRC-32 with polynomial \<open>0xEDB88320\<close> for every
  buffer and starting value, checksumming a buffer in two parts gives the checksum of the whole,
  and the checksum of a file read in blocks of \<open>CRC32_BUFF_SIZE\<close> bytes is the checksum of its
  contents (0 for a file that cannot be opened).\<close>

theorem crc32_is_bitwise_crc:
  "get_default_crc32_value d buf = ucast (crc_ref d buf) \<and>
   get_default_crc32_value (ucast (get_crc32_value a)) b = get_crc32_value (a @ b) \<and>
   get_file_crc32_value (Some content) = get_crc32_value content \<and>
   get_file_crc32_value None = 0"
proof -
  have "file_crc32_loop 0 content = ucast (crc_ref 0 content)"
    using file_crc32_loop_ref [of 0 content] by simp
  then show ?thesis
    by (simp add: get_crc32_value_def get_default_crc32_value_ref ucast_ucast_crc crc_ref_append
        get_file_crc32_value_def)
qed

text \<open>C38: Two files of the same length that differ only within four consecutive bytes have different
  checksums.\<close>

theorem crc32_detects_bursts:
  assumes "length x = length y" and "length x \<le> 4" and "x \<noteq> y"
  shows "get_file_crc32_value (Some (p @ x @ s)) \<noteq> get_file_crc32_value (Some (p @ y @ s))"
proof -
  have *: "get_file_crc32_value (Some f) = ucast (crc_ref 0 f)" for f
    using file_crc32_loop_ref [of 0 f] by (simp add: get_file_crc32_value_def)
  have "crc_ref 0 (p @ x @ s) \<noteq> crc_ref 0 (p @ y @ s)" using crc_ref_burst assms by blast
  then show ?thesis unfolding * by (metis ucast_ucast_crc)
qed

theorem crc32_detects_bursts_witness:
  "get_file_crc32_value (Some ([7] @ [1, 2, 3, 4] @ [9])) \<noteq>
   get_file_crc32_value (Some ([7] @ [1, 0, 3, 5] @ [9]))"
  by (rule crc32_detects_bursts) simp_all

end
