(* ===== verification/Base64.thy ===== *)
theory Base64
  imports Lfs_Prelude "HOL-Library.Signed_Division"
begin

text \<open>
  \<open>src/common/base64.c\<close>: the configurable base64 coder. The context structure is modelled by the
  fields that the code reads and writes. The lemmas show that decoding inverts encoding for every
  alphabet without clashes, with and without padding, and give the length of the encoding.
\<close>

subsection \<open>The context\<close>

record base64_context_st =
  line_length :: int
  line_separator :: cstr
  line_sep_len :: int
  valueToChar :: "byte list"
  charToValue :: "int list"
  pad_ch :: byte

abbreviation (input) BASE64_IGNORE :: int where "BASE64_IGNORE \<equiv> -1"
abbreviation (input) BASE64_PAD :: int where "BASE64_PAD \<equiv> -2"

definition base64_set_line_length :: "base64_context_st \<Rightarrow> int \<Rightarrow> base64_context_st" where
  "base64_set_line_length ctx len = ctx\<lparr>line_length := (len sdiv 4) * 4\<rparr>"

text \<open>\<open>sz\<close> is \<open>sizeof (context->line_separator)\<close>: \<open>snprintf\<close> cuts the text but returns its full
  length.\<close>

definition base64_set_line_separator :: "nat \<Rightarrow> base64_context_st \<Rightarrow> cstr \<Rightarrow> base64_context_st" where
  "base64_set_line_separator sz ctx pLineSeparator =
     ctx\<lparr>line_separator := take (sz - 1) pLineSeparator,
             line_sep_len := int (length pLineSeparator)\<rparr>"

definition base64_alphabet :: "byte \<Rightarrow> byte \<Rightarrow> byte list" where
  "base64_alphabet chPlus chSplash =
     map (\<lambda>i. 65 + of_nat i) [0..<26] @ map (\<lambda>i. 97 + of_nat i) [0..<26] @
     map (\<lambda>i. 48 + of_nat i) [0..<10] @ [chPlus, chSplash]"

definition base64_char_table :: "byte list \<Rightarrow> byte \<Rightarrow> int list" where
  "base64_char_table vtc chPad =
     (fold (\<lambda>i t. t[unat (vtc ! i) := int i]) [0..<64] (replicate 256 BASE64_IGNORE))
       [unat chPad := BASE64_PAD]"

definition base64_init_ex :: "int \<Rightarrow> byte \<Rightarrow> byte \<Rightarrow> byte \<Rightarrow> base64_context_st" where
  "base64_init_ex nLineLength chPlus chSplash chPad =
     (let vtc = base64_alphabet chPlus chSplash in
      \<lparr>line_length = nLineLength, line_separator = [10], line_sep_len = 1,
       valueToChar = vtc, charToValue = base64_char_table vtc chPad, pad_ch = chPad\<rparr>)"

definition base64_get_encode_length :: "base64_context_st \<Rightarrow> int \<Rightarrow> int" where
  "base64_get_encode_length ctx nSrcLen =
     (let outputLength = ((nSrcLen + 2) sdiv 3) * 4 in
      if line_length ctx \<noteq> 0 then
        let lines = (outputLength + line_length ctx - 1) sdiv line_length ctx - 1 in
        if lines > 0 then outputLength + lines * line_sep_len ctx else outputLength
      else outputLength)"

subsection \<open>Encoding\<close>

definition encode_triple :: "base64_context_st \<Rightarrow> byte \<Rightarrow> byte \<Rightarrow> byte \<Rightarrow> byte list" where
  "encode_triple ctx r0 r1 r2 =
     (let combined = push_bit 16 (ucast r0) OR push_bit 8 (ucast r1) OR (ucast r2 :: u32);
          c3 = combined AND 0x3F;
          c2 = drop_bit 6 combined AND 0x3F;
          c1 = drop_bit 6 (drop_bit 6 combined) AND 0x3F;
          c0 = drop_bit 6 (drop_bit 6 (drop_bit 6 combined)) AND 0x3F
      in map (\<lambda>c. valueToChar ctx ! unat c) [c0, c1, c2, c3])"

text \<open>The inner loop over a source of whole triples, starting at line position \<open>linePos\<close>.\<close>

fun encode_loop :: "base64_context_st \<Rightarrow> int \<Rightarrow> byte list \<Rightarrow> byte list" where
  "encode_loop ctx linePos (r0 # r1 # r2 # raw) =
     (let linePos = linePos + 4;
          wrap = linePos > line_length ctx;
          sep = (if wrap \<and> line_length ctx \<noteq> 0
                 then take (nat (line_sep_len ctx)) (line_separator ctx) else [])
      in sep @ encode_triple ctx r0 r1 r2 @ encode_loop ctx (if wrap then 4 else linePos) raw)"
| "encode_loop ctx linePos _ = []"

text \<open>The bytes of \<open>dest\<close> before \<open>*dest_len\<close>. The outer loop runs the inner one on the whole triples
  of \<open>src\<close> and, when bytes are left over, on \<open>szPad\<close>; the tail is then overwritten by padding or
  cut.\<close>

definition base64_encode_ex :: "base64_context_st \<Rightarrow> byte list \<Rightarrow> bool \<Rightarrow> byte list" where
  "base64_encode_ex ctx src bPad =
     (if src = [] then []
      else
        let len0 = (length src div 3) * 3;
            leftover = length src - len0;
            szPad = (if leftover = 0 then [] else drop len0 src @ replicate (3 - leftover) 0);
            out = encode_loop ctx 0 (take len0 src @ szPad)
        in if leftover = 0 then out
           else if bPad then take (length out - (3 - leftover)) out @ replicate (3 - leftover) (pad_ch ctx)
           else take (length out - (3 - leftover)) out)"

subsection \<open>Decoding\<close>

text \<open>State of the decoding loop.\<close>

record b64_state =
  b64_cycle :: nat
  b64_combined :: u32
  b64_dummies :: int
  b64_out :: "byte list"

definition b64_value :: "int \<Rightarrow> b64_state \<Rightarrow> b64_state" where
  "b64_value v s =
     (if b64_cycle s = 0 then s\<lparr>b64_combined := of_int v, b64_cycle := 1\<rparr>
      else
        let combined = push_bit 6 (b64_combined s) OR of_int v in
        if b64_cycle s = 1 then s\<lparr>b64_combined := combined, b64_cycle := 2\<rparr>
        else if b64_cycle s = 2 then s\<lparr>b64_combined := combined, b64_cycle := 3\<rparr>
        else s\<lparr>b64_combined := combined, b64_cycle := 0,
               b64_out := b64_out s @ [ucast (drop_bit 16 combined),
                 ucast (drop_bit 8 (combined AND 0xFF00)), ucast (combined AND 0xFF)]\<rparr>)"

definition b64_step :: "base64_context_st \<Rightarrow> byte \<Rightarrow> b64_state \<Rightarrow> b64_state" where
  "b64_step ctx c s =
     (let v = charToValue ctx ! unat c in
      if v = BASE64_IGNORE then s
      else if v = BASE64_PAD then b64_value 0 (s\<lparr>b64_dummies := b64_dummies s + 1\<rparr>)
      else b64_value v s)"

definition b64_init :: b64_state where
  "b64_init = \<lparr>b64_cycle = 0, b64_combined = 0, b64_dummies = 0, b64_out = []\<rparr>"

text \<open>The result is the decoded bytes (empty for a truncated input); \<open>None\<close> is the case in which
  \<open>*dest_len\<close> gets negative and the terminator is written before \<open>dest\<close>.\<close>

definition base64_decode :: "base64_context_st \<Rightarrow> byte list \<Rightarrow> byte list option" where
  "base64_decode ctx src =
     (let s = fold (b64_step ctx) src b64_init in
      if b64_cycle s \<noteq> 0 then Some []
      else
        let dest_len = int (length (b64_out s)) - b64_dummies s in
        if dest_len < 0 then None else Some (take (nat dest_len) (b64_out s)))"

text \<open>\<open>malloc_ok\<close> is the outcome of the allocation for inputs larger than \<open>tmpBuff\<close>.\<close>

definition base64_decode_auto :: "bool \<Rightarrow> base64_context_st \<Rightarrow> byte list \<Rightarrow> byte list option" where
  "base64_decode_auto malloc_ok ctx src =
     (let nRemain = length src mod 4 in
      if nRemain = 0 then base64_decode ctx src
      else
        let nPadLen = 4 - nRemain;
            nNewLen = length src + nPadLen
        in if nNewLen > 256 \<and> \<not> malloc_ok then Some []
           else base64_decode ctx (src @ replicate nPadLen (pad_ch ctx)))"

subsection \<open>Decoding inverts encoding\<close>

definition ctx_ok :: "base64_context_st \<Rightarrow> bool" where
  "ctx_ok ctx \<longleftrightarrow>
     (\<forall>i < 64. charToValue ctx ! unat (valueToChar ctx ! i) = int i) \<and>
     charToValue ctx ! unat (pad_ch ctx) = BASE64_PAD \<and>
     (\<forall>c \<in> set (line_separator ctx). charToValue ctx ! unat c = BASE64_IGNORE)"

lemma unat_sextet: "unat ((w :: u32) AND 0x3F) < 64"
proof -
  have "(0x3F :: u32) = mask 6" by (simp add: mask_eq_exp_minus_1)
  then have "w AND 0x3F = take_bit 6 w" by (simp only: take_bit_eq_mask)
  then show ?thesis using take_bit_nat_less_exp [of 6 "unat w"] by (simp add: unsigned_take_bit_eq)
qed

lemma b64_step_value:
  assumes "ctx_ok ctx" and "i < 64"
  shows "b64_step ctx (valueToChar ctx ! i) s = b64_value (int i) s"
  using assms by (simp add: ctx_ok_def b64_step_def)

lemma b64_step_pad:
  "ctx_ok ctx \<Longrightarrow>
   b64_step ctx (pad_ch ctx) s = b64_value 0 (s\<lparr>b64_dummies := b64_dummies s + 1\<rparr>)"
  by (simp add: ctx_ok_def b64_step_def)

lemma fold_step_ignored:
  "\<forall>c \<in> set cs. charToValue ctx ! unat c = BASE64_IGNORE \<Longrightarrow> fold (b64_step ctx) cs s = s"
  by (induction cs arbitrary: s) (simp_all add: b64_step_def)

text \<open>The word assembled from four sextets, and the bytes it is cut into.\<close>

definition sextets :: "byte \<Rightarrow> byte \<Rightarrow> byte \<Rightarrow> u32 list" where
  "sextets r0 r1 r2 =
     (let combined = push_bit 16 (ucast r0) OR push_bit 8 (ucast r1) OR (ucast r2 :: u32) in
      [drop_bit 18 combined AND 0x3F, drop_bit 12 combined AND 0x3F, drop_bit 6 combined AND 0x3F,
       combined AND 0x3F])"

lemma encode_triple_sextets:
  "encode_triple ctx r0 r1 r2 = map (\<lambda>c. valueToChar ctx ! unat c) (sextets r0 r1 r2)"
  by (simp add: encode_triple_def sextets_def Let_def drop_bit_drop_bit)

lemma length_encode_triple [simp]: "length (encode_triple ctx r0 r1 r2) = 4"
  by (simp add: encode_triple_def Let_def)

lemma bit_byte_iff: "bit (b :: byte) n \<longleftrightarrow> n < 8 \<and> bit b n"
  using bit_imp_le_length [of b n] by auto

lemma join_sextets:
  assumes "\<And>n. 24 \<le> n \<Longrightarrow> \<not> bit w n"
  shows "push_bit 6 (push_bit 6 (push_bit 6 (drop_bit 18 w AND 0x3F) OR (drop_bit 12 w AND 0x3F))
    OR (drop_bit 6 w AND 0x3F)) OR (w AND 0x3F) = (w :: u32)"
    (is "?l = w")
proof (rule bit_word_eqI)
  fix n assume n: "n < LENGTH(32)"
  have "n < 6 \<or> 6 \<le> n \<and> n < 12 \<or> 12 \<le> n \<and> n < 18 \<or> 18 \<le> n \<and> n < 24 \<or> 24 \<le> n" by auto
  then show "bit ?l n = bit w n"
    using n assms [of n]
    by (elim disjE conjE)
      (auto simp: bit_or_iff bit_and_iff bit_push_bit_iff bit_drop_bit_eq bit_mask_int
        simp del: push_bit_and drop_bit_and push_bit_or drop_bit_or)
qed

definition triple_word :: "byte \<Rightarrow> byte \<Rightarrow> byte \<Rightarrow> u32" where
  "triple_word r0 r1 r2 = push_bit 16 (ucast r0) OR push_bit 8 (ucast r1) OR ucast r2"

lemma bit_triple_word:
  "bit (triple_word r0 r1 r2) n \<longleftrightarrow>
     16 \<le> n \<and> n < 24 \<and> bit r0 (n - 16) \<or> 8 \<le> n \<and> n < 16 \<and> bit r1 (n - 8) \<or> n < 8 \<and> bit r2 n"
proof -
  have "\<not> bit (b :: byte) k" if "8 \<le> k" for b k using that bit_byte_iff [of b k] by auto
  from this [of "n - 16" r0] this [of "n - 8" r1] this [of n r2] show ?thesis
    by (cases "n < 8"; cases "n < 16"; cases "n < 24"; cases "n < 32")
      (auto simp: triple_word_def bit_or_iff bit_push_bit_iff bit_unsigned_iff)
qed

lemma bit_0xFF00: "bit (0xFF00 :: int) n \<longleftrightarrow> 8 \<le> n \<and> n < 16"
proof -
  have eq: "(0xFF00 :: int) = push_bit 8 (mask 8)" by (simp add: mask_eq_exp_minus_1 push_bit_eq_mult)
  show ?thesis unfolding eq by (auto simp only: bit_push_bit_iff bit_mask_iff possible_bit_int)
qed

lemma triple_word_bytes:
  "ucast (drop_bit 16 (triple_word r0 r1 r2)) = r0"
  "ucast (drop_bit 8 (triple_word r0 r1 r2 AND 0xFF00)) = r1"
  "ucast (triple_word r0 r1 r2 AND 0xFF) = r2"
  by (rule bit_word_eqI, simp add: bit_unsigned_iff bit_drop_bit_eq bit_and_iff bit_triple_word
      bit_0xFF00 bit_mask_int del: drop_bit_and)+

lemma encode_triple_map:
  "encode_triple ctx r0 r1 r2 =
     map (\<lambda>k. valueToChar ctx ! unat (drop_bit k (triple_word r0 r1 r2) AND 0x3F)) [18, 12, 6, 0]"
  by (simp add: encode_triple_def triple_word_def Let_def)

lemma fold_encode_triple:
  assumes ok: "ctx_ok ctx" and "b64_cycle s = 0"
  shows "fold (b64_step ctx) (encode_triple ctx r0 r1 r2) s =
    s\<lparr>b64_combined := triple_word r0 r1 r2, b64_out := b64_out s @ [r0, r1, r2]\<rparr>"
proof -
  let ?w = "triple_word r0 r1 r2"
  have v: "b64_step ctx (valueToChar ctx ! unat (x AND 0x3F)) t
      = b64_value (uint (x AND 0x3F)) t" for x :: u32 and t
    using b64_step_value [OF ok unat_sextet [of x]] by simp
  have j: "push_bit 6 (push_bit 6 (push_bit 6 (drop_bit 18 ?w AND 0x3F) OR (drop_bit 12 ?w AND 0x3F))
    OR (drop_bit 6 ?w AND 0x3F)) OR (drop_bit 0 ?w AND 0x3F) = ?w"
    using join_sextets [of ?w] by (simp only: bit_triple_word drop_bit_0 id_apply) simp
  show ?thesis
    unfolding encode_triple_map list.map fold_simps v
    using assms(2) j triple_word_bytes [of r0 r1 r2]
    by (simp only: b64_value_def of_int_uint Let_def) simp
qed

lemma b64_value_dummies:
  "b64_value v (s\<lparr>b64_dummies := d\<rparr>) = (b64_value v s)\<lparr>b64_dummies := d\<rparr>"
  by (simp add: b64_value_def Let_def)

lemma b64_value_keeps_dummies [simp]: "b64_dummies (b64_value v s) = b64_dummies s"
  by (simp add: b64_value_def Let_def)

lemma encode_triple_dummies:
  assumes "ctx_ok ctx"
  shows "b64_dummies (fold (b64_step ctx) (take k (encode_triple ctx r0 r1 r2)) s) = b64_dummies s"
proof -
  have v: "b64_step ctx (valueToChar ctx ! unat (x AND 0x3F)) t
      = b64_value (uint (x AND 0x3F)) t" for x :: u32 and t
    using b64_step_value [OF assms unat_sextet [of x]] by simp
  have "b64_dummies (fold (b64_step ctx)
      (map (\<lambda>k. valueToChar ctx ! unat (drop_bit k (triple_word r0 r1 r2) AND 0x3F)) ks) s)
      = b64_dummies s" for ks
    by (induction ks arbitrary: s) (simp_all only: list.map fold_simps v b64_value_keeps_dummies)
  then show ?thesis by (simp only: encode_triple_map take_map)
qed

lemma b64_step_zero:
  assumes "ctx_ok ctx"
  shows "b64_step ctx (pad_ch ctx) s =
    (b64_step ctx (valueToChar ctx ! 0) s)\<lparr>b64_dummies := b64_dummies s + 1\<rparr>"
  using b64_step_value [OF assms, of 0] by (simp add: b64_step_pad [OF assms] b64_value_dummies)

text \<open>Padding characters stand for zero sextets and are counted.\<close>

lemma fold_pads:
  assumes "ctx_ok ctx"
  shows "fold (b64_step ctx) (replicate k (pad_ch ctx)) s =
    (fold (b64_step ctx) (replicate k (valueToChar ctx ! 0)) s)
      \<lparr>b64_dummies := b64_dummies s + int k\<rparr>"
proof (induction k arbitrary: s)
  case (Suc k)
  have c: "fold (b64_step ctx) (replicate k (valueToChar ctx ! 0)) (t\<lparr>b64_dummies := d\<rparr>)
    = (fold (b64_step ctx) (replicate k (valueToChar ctx ! 0)) t)\<lparr>b64_dummies := d\<rparr>" for t d
    by (induction k arbitrary: t) (simp_all add: b64_step_value [OF assms, of 0, simplified] b64_value_dummies
        del: fold_replicate)
  have "b64_dummies (b64_step ctx (valueToChar ctx ! 0) s) = b64_dummies s"
    using b64_step_value [OF assms, of 0] by simp
  then show ?case 
    by (simp add: Suc.IH b64_step_zero [OF assms] c algebra_simps del: fold_replicate)
qed simp

lemma sextet_zero:
  "drop_bit 0 (triple_word r0 r1 0) AND 0x3F = 0"
  "drop_bit 6 (triple_word r0 0 0) AND 0x3F = 0" "drop_bit 0 (triple_word r0 0 0) AND 0x3F = 0"
  by (rule bit_word_eqI, auto simp: bit_drop_bit_eq bit_and_iff bit_triple_word bit_mask_int
      simp del: drop_bit_and)+

lemma encode_triple_tail:
  "k \<in> {1, 2} \<Longrightarrow> rest = replicate k 0 \<Longrightarrow> length xs + k = 3 \<Longrightarrow> xs @ rest = [r0, r1, r2] \<Longrightarrow>
   encode_triple ctx r0 r1 r2 =
     take (4 - k) (encode_triple ctx r0 r1 r2) @ replicate k (valueToChar ctx ! 0)"
proof -
  assume a: "k \<in> {1, 2}" "rest = replicate k 0" "length xs + k = 3" "xs @ rest = [r0, r1, r2]"
  then have "r2 = 0" "k = 2 \<longrightarrow> r1 = 0"
    by (auto simp: append_eq_Cons_conv Cons_eq_append_conv numeral_2_eq_2)
  then show ?thesis
    using a(1) sextet_zero unfolding encode_triple_map
    by (auto simp: numeral_2_eq_2 simp del: drop_bit_0)
qed

lemma fold_separator:
  "ctx_ok ctx \<Longrightarrow> fold (b64_step ctx) (take k (line_separator ctx)) s = s"
  by (rule fold_step_ignored) (auto simp: ctx_ok_def dest: in_set_takeD)

lemma fold_encode_loop:
  "ctx_ok ctx \<Longrightarrow> b64_cycle s = 0 \<Longrightarrow> length raw mod 3 = 0 \<Longrightarrow>
   \<exists>w. fold (b64_step ctx) (encode_loop ctx linePos raw) s =
     s\<lparr>b64_combined := w, b64_out := b64_out s @ raw\<rparr>"
proof (induction ctx linePos raw arbitrary: s rule: encode_loop.induct)
  case (1 ctx linePos r0 r1 r2 raw)
  let ?s = "s\<lparr>b64_combined := triple_word r0 r1 r2, b64_out := b64_out s @ [r0, r1, r2]\<rparr>"
  obtain w where "fold (b64_step ctx) (encode_loop ctx
      (if linePos + 4 > line_length ctx then 4 else linePos + 4) raw) ?s
    = ?s\<lparr>b64_combined := w, b64_out := b64_out ?s @ raw\<rparr>"
    using "1.IH" [OF refl refl refl, of ?s] "1.prems" by auto
  then show ?case
    using "1.prems"
    by (intro exI [of _ w], cases "line_length ctx < linePos + 4")
      (simp_all add: Let_def fold_separator fold_encode_triple)
qed (rule_tac x = "b64_combined s" in exI, simp)+

lemma encode_loop_snoc:
  assumes "ctx_ok ctx"
  shows "length xs mod 3 = 0 \<Longrightarrow>
    \<exists>P. encode_loop ctx linePos (xs @ [r0, r1, r2]) = P @ encode_triple ctx r0 r1 r2 \<and>
      (\<forall>s. b64_cycle s = 0 \<longrightarrow>
        (\<exists>w. fold (b64_step ctx) P s = s\<lparr>b64_combined := w, b64_out := b64_out s @ xs\<rparr>))"
  using assms
proof (induction ctx linePos xs rule: encode_loop.induct)
  case (1 ctx linePos a b c raw)
  let ?wrap = "line_length ctx < linePos + 4"
  let ?sep = "if ?wrap \<and> line_length ctx \<noteq> 0
    then take (nat (line_sep_len ctx)) (line_separator ctx) else []"
  obtain P where P: "encode_loop ctx (if ?wrap then 4 else linePos + 4) (raw @ [r0, r1, r2])
      = P @ encode_triple ctx r0 r1 r2"
    and f: "\<And>s. b64_cycle s = 0 \<Longrightarrow>
      \<exists>w. fold (b64_step ctx) P s = s\<lparr>b64_combined := w, b64_out := b64_out s @ raw\<rparr>"
    using "1.IH" [OF refl refl refl] "1.prems" by auto
  have "encode_loop ctx linePos ((a # b # c # raw) @ [r0, r1, r2])
      = (?sep @ encode_triple ctx a b c @ P) @ encode_triple ctx r0 r1 r2"
    using P by (simp add: Let_def)
  moreover have "\<exists>w. fold (b64_step ctx) (?sep @ encode_triple ctx a b c @ P) s =
      s\<lparr>b64_combined := w, b64_out := b64_out s @ a # b # c # raw\<rparr>" if "b64_cycle s = 0" for s
    using f [of "s\<lparr>b64_combined := triple_word a b c, b64_out := b64_out s @ [a, b, c]\<rparr>"] that
      "1.prems" by (auto simp: fold_separator fold_encode_triple)
  ultimately show ?case by blast
next
  fix ctx linePos
  assume ok: "ctx_ok ctx"
  let ?sep = "if line_length ctx < linePos + 4 \<and> line_length ctx \<noteq> 0
    then take (nat (line_sep_len ctx)) (line_separator ctx) else []"
  have "\<exists>w. fold (b64_step ctx) ?sep s = s\<lparr>b64_combined := w, b64_out := b64_out s @ []\<rparr>" for s
    using ok by (intro exI [of _ "b64_combined s"]) (simp add: fold_separator)
  moreover have "encode_loop ctx linePos ([] @ [r0, r1, r2]) = ?sep @ encode_triple ctx r0 r1 r2"
    by (simp add: Let_def)
  ultimately show "\<exists>P. encode_loop ctx linePos ([] @ [r0, r1, r2]) = P @ encode_triple ctx r0 r1 r2 \<and>
      (\<forall>s. b64_cycle s = 0 \<longrightarrow>
        (\<exists>w. fold (b64_step ctx) P s = s\<lparr>b64_combined := w, b64_out := b64_out s @ []\<rparr>))"
    by blast
qed simp_all

text \<open>The encoding before the tail is cut or padded.\<close>

lemma decode_tail:
  assumes ok: "ctx_ok ctx" and "length xs mod 3 = 0" and k: "k \<in> {1, 2}"
    and ys: "length ys + k = 3" "ys @ replicate k 0 = [r0, r1, r2]"
  defines "out \<equiv> encode_loop ctx 0 (xs @ [r0, r1, r2])"
  shows "base64_decode ctx (take (length out - k) out @ replicate k (pad_ch ctx)) = Some (xs @ ys)"
proof -
  obtain P where P: "out = P @ encode_triple ctx r0 r1 r2"
    and f: "\<And>s. b64_cycle s = 0 \<Longrightarrow>
      \<exists>w. fold (b64_step ctx) P s = s\<lparr>b64_combined := w, b64_out := b64_out s @ xs\<rparr>"
    using encode_loop_snoc [OF ok assms(2), of 0 r0 r1 r2] out_def by blast
  let ?T = "encode_triple ctx r0 r1 r2"
  obtain w where w: "fold (b64_step ctx) P b64_init = b64_init\<lparr>b64_combined := w, b64_out := xs\<rparr>"
    using f [of b64_init] by (auto simp: b64_init_def)
  let ?s = "b64_init\<lparr>b64_combined := w, b64_out := xs\<rparr>"
  have T: "?T = take (4 - k) ?T @ replicate k (valueToChar ctx ! 0)"
    by (rule encode_triple_tail [OF k refl ys])
  have "fold (b64_step ctx) (take (4 - k) ?T @ replicate k (pad_ch ctx)) ?s
      = (fold (b64_step ctx) ?T ?s)\<lparr>b64_dummies := int k\<rparr>"
  proof -
    have d: "b64_dummies (fold (b64_step ctx) (take (4 - k) ?T) ?s) = 0"
      using encode_triple_dummies [OF ok, of "4 - k" r0 r1 r2 ?s] by (simp add: b64_init_def)
    show ?thesis
      by (subst (2) T) (simp only: fold_append comp_apply fold_pads [OF ok] d add_0)
  qed
  also have "fold (b64_step ctx) ?T ?s
      = ?s\<lparr>b64_combined := triple_word r0 r1 r2, b64_out := xs @ [r0, r1, r2]\<rparr>"
    using fold_encode_triple [OF ok, of ?s] by (simp add: b64_init_def)
  finally have "fold (b64_step ctx) (take (length out - k) out @ replicate k (pad_ch ctx)) b64_init
      = ?s\<lparr>b64_combined := triple_word r0 r1 r2, b64_out := xs @ ys @ replicate k 0, b64_dummies := int k\<rparr>"
    using k w ys(2) by (auto simp: P)
  then show ?thesis
    using ys(1) by (simp add: base64_decode_def Let_def b64_init_def)
qed

lemma length_3_list: "length xs = 3 \<Longrightarrow> \<exists>a b c. xs = [a, b, c]"
  by (auto simp: length_Suc_conv numeral_3_eq_3)

lemma encode_whole: "length src mod 3 = 0 \<Longrightarrow> base64_encode_ex ctx src bPad = encode_loop ctx 0 src"
proof -
  assume "length src mod 3 = 0"
  then have "length src div 3 * 3 = length src" by auto
  then show ?thesis by (simp add: base64_encode_ex_def Let_def)
qed

lemma encode_cases:
  assumes "src \<noteq> []"
  obtains (whole) "length src mod 3 = 0" "base64_encode_ex ctx src bPad = encode_loop ctx 0 src"
  | (tail) xs ys k r0 r1 r2 out where "src = xs @ ys" "length xs mod 3 = 0" "k \<in> {1, 2}"
      "length ys + k = 3" "ys @ replicate k 0 = [r0, r1, r2]"
      "out = encode_loop ctx 0 (xs @ [r0, r1, r2])"
      "base64_encode_ex ctx src bPad =
         take (length out - k) out @ (if bPad then replicate k (pad_ch ctx) else [])"
proof -
  define l0 where "l0 = length src div 3 * 3"
  have l0: "length src - l0 = length src mod 3" "l0 \<le> length src" "l0 mod 3 = 0"
    by (simp_all add: l0_def minus_div_mult_eq_mod)
  show thesis
  proof (cases "length src mod 3 = 0")
    case True
    show thesis using True by (rule whole) (rule encode_whole [OF True])
  next
    case False
    define k where "k = 3 - length src mod 3"
    have k: "k \<in> {1, 2}" "length (drop l0 src) + k = 3" "3 - (length src - l0) = k"
      using False l0 by (auto simp: k_def)
    then have "length (drop l0 src @ replicate k 0) = 3" by simp
    then obtain r0 r1 r2 where r: "drop l0 src @ replicate k 0 = [r0, r1, r2]"
      using length_3_list by blast
    have lo: "length src - l0 \<noteq> 0" using False l0 by simp
    let ?out = "encode_loop ctx 0 (take l0 src @ [r0, r1, r2])"
    have enc: "base64_encode_ex ctx src bPad
        = take (length ?out - k) ?out @ (if bPad then replicate k (pad_ch ctx) else [])"
      unfolding base64_encode_ex_def Let_def l0_def [symmetric]
      by (simp only: assms lo if_False k(3) r) simp
    show thesis
      by (rule tail [OF _ _ k(1,2) r refl enc]) (simp_all add: l0)
  qed
qed

lemma decode_encode:
  assumes ok: "ctx_ok ctx"
  shows "base64_decode ctx (base64_encode_ex ctx src True) = Some src"
proof (cases "src = []")
  case True
  then show ?thesis by (simp add: base64_encode_ex_def base64_decode_def b64_init_def)
next
  case False
  then show ?thesis
  proof (cases rule: encode_cases [where bPad = True and ctx = ctx])
    case whole
    then obtain w where "fold (b64_step ctx) (encode_loop ctx 0 src) b64_init =
      b64_init\<lparr>b64_combined := w, b64_out := src\<rparr>"
      using fold_encode_loop [OF ok, of b64_init src 0] by (auto simp: b64_init_def)
    with whole show ?thesis by (simp add: base64_decode_def b64_init_def)
  next
    case (tail xs ys k r0 r1 r2 out)
    then show ?thesis using decode_tail [OF ok tail(2,3,4,5)] by simp
  qed
qed

lemma length_encode_loop_0:
  "line_length ctx = 0 \<Longrightarrow> length raw mod 3 = 0 \<Longrightarrow>
   length (encode_loop ctx linePos raw) = 4 * (length raw div 3)"
  by (induction ctx linePos raw rule: encode_loop.induct) (auto simp: Let_def)

lemma decode_auto_encode:
  assumes ok: "ctx_ok ctx" and "line_length ctx = 0"
  shows "base64_decode_auto True ctx (base64_encode_ex ctx src False) = Some src"
proof (cases "src = []")
  case True
  then show ?thesis by (simp add: base64_encode_ex_def base64_decode_auto_def base64_decode_def b64_init_def)
next
  case False
  then show ?thesis
  proof (cases rule: encode_cases [where bPad = False and ctx = ctx])
    case whole
    then show ?thesis
      using decode_encode [OF ok, of src] assms(2) encode_whole [of src ctx True]
      by (simp add: base64_decode_auto_def length_encode_loop_0)
  next
    case (tail xs ys k r0 r1 r2 out)
    have "length out = 4 * Suc (length xs div 3)"
      using tail(2) length_encode_loop_0 [OF assms(2), of "xs @ [r0, r1, r2]" 0]
      unfolding tail(6) by (simp add: div_add_self1)
    moreover have "(4 * Suc m - k) mod 4 = 4 - k" for m
      using tail(3) by (auto simp: mod_Suc)
    ultimately have "length (take (length out - k) out) mod 4 = 4 - k" using tail(3) by auto
    then show ?thesis
      using decode_tail [OF ok tail(2,3,4,5)] tail(1,3) unfolding tail(7) tail(6)
      by (auto simp: base64_decode_auto_def Let_def)
  qed
qed

subsection \<open>The alphabet of an initialised context\<close>

lemma length_base64_alphabet [simp]: "length (base64_alphabet p q) = 64"
  by (simp add: base64_alphabet_def)

lemma length_fold_update: "length (fold (\<lambda>i t. t[f i := g i]) is t) = length t"
  by (induction "is" arbitrary: t) simp_all

lemma fold_update_other:
  "j \<notin> f ` set is \<Longrightarrow> fold (\<lambda>i t. t[f i := g i]) is t ! j = t ! j"
  by (induction "is" arbitrary: t) auto

lemma fold_update_nth:
  "i \<in> set is \<Longrightarrow> distinct (map f is) \<Longrightarrow> f i < length t \<Longrightarrow>
   fold (\<lambda>i t. t[f i := g i]) is t ! f i = g i"
proof (induction "is" arbitrary: t)
  case (Cons a "is")
  show ?case
  proof (cases "i \<in> set is")
    case False
    with Cons.prems have "i = a" "f i \<notin> f ` set is" by auto
    then show ?thesis using Cons.prems by (simp add: fold_update_other)
  qed (use Cons in simp)
qed simp

lemma unat_byte_less: "unat (b :: byte) < 256"
  using unsigned_less [of b] by simp

lemma base64_char_table_nth:
  assumes "distinct vtc" and "length vtc = 64" and "c \<notin> set vtc"
  shows "i < 64 \<Longrightarrow> base64_char_table vtc c ! unat (vtc ! i) = int i"
    and "base64_char_table vtc c ! unat c = - 2"
    and "b \<notin> set vtc \<Longrightarrow> b \<noteq> c \<Longrightarrow> base64_char_table vtc c ! unat b = - 1"
proof -
  define N where "N = (64 :: nat)"
  define E where "E = replicate 256 (- 1 :: int)"
  define T where "T = fold (\<lambda>i t. t[unat (vtc ! i) := int i]) [0..<N] E"
  have T: "base64_char_table vtc c = T[unat c := - 2]" by (simp only: base64_char_table_def T_def N_def E_def)
  have E: "length E = 256" "unat x < 256" "E ! unat x = - 1" for x :: byte
    by (simp_all add: E_def unat_byte_less)
  have "map (\<lambda>i. vtc ! i) [0..<N] = vtc" using assms(2) map_nth [of vtc] by (simp add: N_def)
  then have m: "map (\<lambda>i. unat (vtc ! i)) [0..<N] = map unat vtc"
    using map_map [of unat "\<lambda>i. vtc ! i" "[0..<N]"] by (simp add: comp_def)
  have d: "distinct (map (\<lambda>i. unat (vtc ! i)) [0..<N])"
    unfolding m using assms(1) by (simp add: distinct_map inj_on_def word_unat_eq_iff)
  have img: "(\<lambda>i. unat (vtc ! i)) ` set [0..<N] = unat ` set vtc"
    using arg_cong [OF m, of set] by (simp only: set_map)
  have v: "T ! unat (vtc ! i) = int i" if "i < N" for i
    unfolding T_def using that d E by (intro fold_update_nth) simp_all
  have o: "T ! unat x = - 1" if "x \<notin> set vtc" for x
  proof -
    have "unat x \<notin> unat ` set vtc" using that by (auto simp: word_unat_eq_iff [symmetric])
    then show ?thesis unfolding T_def by (subst fold_update_other) (simp_all only: img E(3) not_False_eq_True)
  qed
  have len: "length T = 256" by (simp add: T_def length_fold_update E)
  show "base64_char_table vtc c ! unat c = - 2" unfolding T using len E(2) by simp
  show "i < 64 \<Longrightarrow> base64_char_table vtc c ! unat (vtc ! i) = int i"
  proof -
    assume "i < 64"
    then have "vtc ! i \<noteq> c" using assms(2,3) nth_mem [of i vtc] by auto
    then have "unat c \<noteq> unat (vtc ! i)" by (simp add: word_unat_eq_iff [symmetric])
    then show ?thesis unfolding T using v [of i] \<open>i < 64\<close> by (simp add: N_def)
  qed
  show "b \<notin> set vtc \<Longrightarrow> b \<noteq> c \<Longrightarrow> base64_char_table vtc c ! unat b = - 1"
  proof -
    assume "b \<notin> set vtc" "b \<noteq> c"
    then have "unat c \<noteq> unat b" by (simp add: word_unat_eq_iff [symmetric])
    then show ?thesis unfolding T using o [OF \<open>b \<notin> set vtc\<close>] by simp
  qed
qed

definition is_alnum :: "byte \<Rightarrow> bool" where
  "is_alnum c \<longleftrightarrow> 65 \<le> c \<and> c \<le> 90 \<or> 97 \<le> c \<and> c \<le> 122 \<or> 48 \<le> c \<and> c \<le> 57"

lemma unat_char_range:
  assumes "n + k \<le> 256" and "i < k"
  shows "unat (of_nat n + of_nat i :: byte) = n + i"
proof -
  have "(of_nat n + of_nat i :: byte) = of_nat (n + i)" by simp
  then show ?thesis using assms by (simp only: unsigned_of_nat) (simp add: take_bit_nat_eq_self)
qed

lemma char_range:
  assumes "n + k \<le> 256"
  shows "distinct (map (\<lambda>i. of_nat n + of_nat i :: byte) [0..<k])"
    and "x \<in> set (map (\<lambda>i. of_nat n + of_nat i :: byte) [0..<k]) \<Longrightarrow> n \<le> unat x \<and> unat x < n + k"
proof -
  show "distinct (map (\<lambda>i. of_nat n + of_nat i :: byte) [0..<k])"
    unfolding distinct_map using unat_char_range [OF assms]
    by (auto intro!: inj_onI) (metis add_left_cancel)
  show "n \<le> unat x \<and> unat x < n + k" if "x \<in> set (map (\<lambda>i. of_nat n + of_nat i :: byte) [0..<k])"
    using that unat_char_range [OF assms] by auto
qed

lemmas alphabet_ranges = char_range [of 65 26, simplified of_nat_numeral] char_range [of 97 26, simplified of_nat_numeral]
  char_range [of 48 10, simplified of_nat_numeral]

lemma alphabet_distinct:
  assumes "distinct [p, q, c, 10]" and "\<not> is_alnum p" "\<not> is_alnum q" "\<not> is_alnum c"
  shows "distinct (base64_alphabet p q @ [c, 10])"
proof -
  define U where "U = map (\<lambda>i. 65 + of_nat i :: byte) [0..<26]"
  define L where "L = map (\<lambda>i. 97 + of_nat i :: byte) [0..<26]"
  define D where "D = map (\<lambda>i. 48 + of_nat i :: byte) [0..<10]"
  have d: "distinct U" "distinct L" "distinct D"
    unfolding U_def L_def D_def by (rule alphabet_ranges; simp)+
  have U: "65 \<le> unat x \<and> unat x < 91" if "x \<in> set U" for x
    using alphabet_ranges(2) [of x] that unfolding U_def by simp
  have L: "97 \<le> unat x \<and> unat x < 123" if "x \<in> set L" for x
    using alphabet_ranges(4) [of x] that unfolding L_def by simp
  have D: "48 \<le> unat x \<and> unat x < 58" if "x \<in> set D" for x
    using alphabet_ranges(6) [of x] that unfolding D_def by simp
  have "x \<notin> set U \<and> x \<notin> set L \<and> x \<notin> set D" if "\<not> is_alnum x" for x
    using that U [of x] L [of x] D [of x] by (auto simp: is_alnum_def word_le_nat_alt)
  moreover have "\<not> is_alnum 10" by (simp add: is_alnum_def)
  moreover have "set U \<inter> set L = {}" "set U \<inter> set D = {}" "set L \<inter> set D = {}"
    using U L D by force+
  ultimately show ?thesis
    unfolding base64_alphabet_def U_def [symmetric] L_def [symmetric] D_def [symmetric]
    using assms d by auto
qed

lemma base64_init_ctx_ok:
  assumes "distinct (base64_alphabet p q @ [c, 10])"
  shows "ctx_ok (base64_init_ex n p q c)"
proof -
  define A where "A = base64_alphabet p q"
  have A: "distinct A" "length A = 64" "c \<notin> set A" "10 \<notin> set A" "10 \<noteq> c" using assms by (auto simp: A_def)
  note t = base64_char_table_nth [OF A(1-3)]
  show ?thesis
    unfolding ctx_ok_def base64_init_ex_def Let_def A_def [symmetric]
    using t(1,2) t(3) [OF A(4,5)] by simp
qed

subsection \<open>Length of the encoding\<close>

text \<open>The number of separators in an encoding of \<open>g\<close> groups with \<open>m\<close> groups to a line, after \<open>j\<close>
  groups on the current one.\<close>

lemma length_encode_loop:
  assumes "0 < m"
  shows "line_length ctx = 4 * int m \<Longrightarrow> length raw mod 3 = 0 \<Longrightarrow>
    linePos = 4 * int j \<Longrightarrow> j \<le> m \<Longrightarrow> line_sep_len ctx = int (length (line_separator ctx)) \<Longrightarrow>
    length (encode_loop ctx linePos raw) = 4 * (length raw div 3) +
      (if raw = [] then 0 else (j + length raw div 3 - 1) div m * length (line_separator ctx))"
proof (induction ctx linePos raw arbitrary: j rule: encode_loop.induct)
  case (1 ctx linePos r0 r1 r2 raw)
  let ?g = "length raw div 3" and ?l = "length (line_separator ctx)"
  have l3: "length (r0 # r1 # r2 # raw) = length raw + 3" by simp
  have g: "length (r0 # r1 # r2 # raw) div 3 = Suc ?g" unfolding l3 by simp
  have raw1: "length raw mod 3 = 0" using "1.prems"(2) unfolding l3 by simp
  then have "length raw < 3 \<longleftrightarrow> raw = []" by (auto simp: mod_less)
  then have raw: "length raw mod 3 = 0" "raw = [] \<longleftrightarrow> ?g = 0" using raw1 by auto
  show ?case
  proof (cases "j = m")
    case True
    have "length (encode_loop ctx 4 raw) = 4 * ?g + (if raw = [] then 0 else ?g div m * ?l)"
      using "1.IH" [OF refl refl refl, of 1] "1.prems" assms True raw by simp
    moreover have "(m + ?g) div m = Suc (?g div m)"
      using assms div_add_self1 [of m ?g] by linarith
    ultimately show ?thesis
      unfolding g using "1.prems" True assms raw(2) by (simp add: Let_def)
  next
    case False
    then have "j < m" using "1.prems" by simp
    then have "length (encode_loop ctx (linePos + 4) raw)
        = 4 * ?g + (if raw = [] then 0 else (j + ?g) div m * ?l)"
      using "1.IH" [OF refl refl refl, of "Suc j"] "1.prems" raw by simp
    then show ?thesis
      unfolding g using "1.prems" \<open>j < m\<close> raw(2) by (simp add: Let_def)
  qed
qed (simp_all)

lemma length_encode_ex:
  assumes "src \<noteq> []"
  shows "\<exists>raw. length raw = 3 * ((length src + 2) div 3) \<and>
    length (base64_encode_ex ctx src True) = length (encode_loop ctx 0 raw)"
  using assms
proof (cases rule: encode_cases [where bPad = True and ctx = ctx])
  case whole
  then have "length src = 3 * ((length src + 2) div 3)" by auto
  then show ?thesis using whole by (intro exI [of _ src]) simp
next
  case (tail xs ys k r0 r1 r2 out)
  have "k \<le> length out"
  proof -
    have "4 \<le> length (encode_loop ctx lp (xs @ [r0, r1, r2]))" if "length xs mod 3 = 0" for lp
      using that by (induction ctx lp xs rule: encode_loop.induct) (auto simp: Let_def)
    from this [of 0] show ?thesis using tail(2,3) unfolding tail(6) by auto
  qed
  moreover have "length (xs @ [r0, r1, r2]) = 3 * ((length src + 2) div 3)"
    using tail(1-4) by auto
  ultimately show ?thesis using tail(6,7) by (intro exI [of _ "xs @ [r0, r1, r2]"]) simp
qed

lemma sdiv_int_nat: "int a sdiv int b = int (a div b)"
  by (cases "a = 0"; cases "b = 0") (simp_all add: signed_divide_int_def zdiv_int)

lemma lines_eq: "0 < m \<Longrightarrow> (4 * Suc g + 4 * m - 1) div (4 * m) = Suc (g div m)" for g m :: nat
proof -
  assume m: "0 < m"
  have "4 * Suc g + 4 * m - 1 = 4 * m + (4 * g + 3)" by simp
  moreover have "(4 * m + (4 * g + 3)) div (4 * m) = Suc ((4 * g + 3) div (4 * m))"
    using m div_add_self1 [of "4 * m" "4 * g + 3"] by simp
  moreover have "(4 * g + 3) div (4 * m) = g div m" by (simp add: div_mult2_eq)
  ultimately show ?thesis by (simp only:)
qed

lemma length_base64_encode_ex:
  assumes "line_length ctx = 4 * int m" and "line_sep_len ctx = int (length (line_separator ctx))"
  shows "int (length (base64_encode_ex ctx src True)) = base64_get_encode_length ctx (int (length src))"
proof (cases "src = []")
  case True
  then show ?thesis
    using assms by (cases "m = 0")
      (simp_all add: base64_encode_ex_def base64_get_encode_length_def signed_divide_int_def Let_def)
next
  case False
  then obtain g where g: "(length src + 2) div 3 = Suc g"
    by (cases "(length src + 2) div 3") (auto simp: div_eq_0_iff)
  obtain raw where raw: "length raw = 3 * Suc g"
    "length (base64_encode_ex ctx src True) = length (encode_loop ctx 0 raw)"
    using length_encode_ex [OF False, of ctx] unfolding g by blast
  have out: "((int (length src) + 2) sdiv 3) * 4 = int (4 * Suc g)"
  proof -
    have "(int (length src) + 2) sdiv 3 = int ((length src + 2) div 3)"
      using sdiv_int_nat [of "length src + 2" 3] by (simp add: add.commute)
    then show ?thesis using g by simp
  qed
  show ?thesis
  proof (cases "m = 0")
    case True
    then show ?thesis
      using assms raw out length_encode_loop_0 [of ctx raw 0]
      by (simp add: base64_get_encode_length_def Let_def)
  next
    case m: False
    have "(int (4 * Suc g) + line_length ctx - 1) sdiv line_length ctx = int (Suc (g div m))"
    proof -
      have "int (4 * Suc g) + line_length ctx - 1 = int (4 * Suc g + 4 * m - 1)" "line_length ctx = int (4 * m)"
        using assms(1) by simp_all
      then show ?thesis using m by (simp only: sdiv_int_nat lines_eq)
    qed
    moreover have "length (encode_loop ctx 0 raw) = 4 * Suc g + g div m * length (line_separator ctx)"
      using length_encode_loop [of m ctx raw 0 0] m assms raw(1) by auto
    ultimately show ?thesis
      using assms m raw(2) unfolding base64_get_encode_length_def out Let_def by simp
  qed
qed

subsection \<open>Properties\<close>

text \<open>C39: For a context initialised with two extra characters and a padding character that are
  distinct, not alphanumeric and not the newline (the data server uses \<open>-\<close>, \<open>_\<close> and \<open>.\<close>), decoding inverts padded
  encoding for every input and line length, and, without line breaks, the decoder that restores
  missing padding inverts unpadded encoding.\<close>

theorem base64_round_trip:
  assumes "distinct [chPlus, chSplash, chPad, 10]"
    and "\<not> is_alnum chPlus" "\<not> is_alnum chSplash" "\<not> is_alnum chPad"
    and "ctx = base64_init_ex nLineLength chPlus chSplash chPad"
  shows "base64_decode ctx (base64_encode_ex ctx src True) = Some src \<and>
    (nLineLength = 0 \<longrightarrow> base64_decode_auto True ctx (base64_encode_ex ctx src False) = Some src)"
proof -
  have "ctx_ok ctx" using base64_init_ctx_ok [OF alphabet_distinct [OF assms(1-4)]] assms(5) by simp
  moreover have "line_length ctx = nLineLength" by (simp add: assms(5) base64_init_ex_def Let_def)
  ultimately show ?thesis using decode_encode decode_auto_encode by simp
qed

theorem base64_round_trip_witness:
  "base64_decode (base64_init_ex 0 45 95 46) (base64_encode_ex (base64_init_ex 0 45 95 46) [1, 2, 3, 4] True)
     = Some [1, 2, 3, 4] \<and>
   base64_decode_auto True (base64_init_ex 0 45 95 46)
     (base64_encode_ex (base64_init_ex 0 45 95 46) [1, 2, 3, 4] False) = Some [1, 2, 3, 4]"
proof -
  have *: "distinct [45, 95, 46, 10 :: byte]" "\<not> is_alnum 45" "\<not> is_alnum 95" "\<not> is_alnum 46"
    by (simp_all add: is_alnum_def)
  from base64_round_trip [OF * refl, of 0 "[1, 2, 3, 4]"] show ?thesis by blast
qed

text \<open>C40: When the line length is a multiple of four (zero included) the predicted length of a padded
  encoding, line separators included, is the exact number of bytes written.\<close>

theorem base64_encode_length_exact:
  assumes "line_length ctx = 4 * int m" and "line_sep_len ctx = int (length (line_separator ctx))"
  shows "int (length (base64_encode_ex ctx src True)) = base64_get_encode_length ctx (int (length src))"
  using assms by (rule length_base64_encode_ex)

theorem base64_encode_length_exact_witness:
  "int (length (base64_encode_ex (base64_init_ex 8 45 95 46) [1, 2, 3, 4, 5, 6, 7, 8, 9, 10] True)) =
     base64_get_encode_length (base64_init_ex 8 45 95 46) 10"
  using base64_encode_length_exact [of "base64_init_ex 8 45 95 46" 2 "[1, 2, 3, 4, 5, 6, 7, 8, 9, 10]"]
  by (simp add: base64_init_ex_def Let_def)

end
