(* ===== verification/C_Stdlib.thy ===== *)
theory C_Stdlib
  imports Lfs_Prelude
begin

text \<open>
  The functions of the C standard library that the sources call on strings, as they behave on the
  target platform: \<open>strchr\<close>, \<open>isspace\<close>, \<open>strtol\<close>/\<open>atol\<close>/\<open>atoi\<close> and the conversions \<open>%u\<close>, \<open>%d\<close>,
  \<open>%ld\<close>, \<open>%02x\<close>, \<open>%02X\<close>, \<open>%03d\<close> of \<open>sprintf\<close>. The lemmas show that reading back a printed
  number gives the number, which the text files of both servers rely on.
\<close>

subsection \<open>Searching\<close>

definition strchr :: "cstr \<Rightarrow> byte \<Rightarrow> nat option" where
  "strchr s c = (if c \<in> set s then Some (length (takeWhile (\<lambda>x. x \<noteq> c) s)) else None)"

lemma strchr_append [simp]: "c \<notin> set s \<Longrightarrow> strchr (s @ c # t) c = Some (length s)"
  by (simp add: strchr_def takeWhile_neq_append)

lemma strchr_None_iff: "strchr s c = None \<longleftrightarrow> c \<notin> set s"
  by (simp add: strchr_def)

lemma strchr_SomeD:
  assumes "strchr s c = Some i"
  shows "i < length s" "s ! i = c" "c \<notin> set (take i s)" "s = take i s @ c # drop (Suc i) s"
proof -
  from assms have c: "c \<in> set s" and i: "i = length (takeWhile (\<lambda>x. x \<noteq> c) s)"
    by (auto simp: strchr_def split: if_splits)
  from c obtain xs ys where s: "s = xs @ c # ys" and "c \<notin> set xs"
    by (meson split_list_first)
  then have "i = length xs" using i by (simp add: takeWhile_neq_append)
  with s \<open>c \<notin> set xs\<close> show "i < length s" "s ! i = c" "c \<notin> set (take i s)"
    "s = take i s @ c # drop (Suc i) s" by auto
qed

subsection \<open>Printing numbers\<close>

fun dec_of_nat :: "nat \<Rightarrow> cstr" where
  "dec_of_nat n =
     (if n < 10 then [of_nat (48 + n)] else dec_of_nat (n div 10) @ [of_nat (48 + n mod 10)])"

declare dec_of_nat.simps [simp del]

text \<open>\<open>%d\<close>, \<open>%ld\<close> (and \<open>%u\<close> on non-negative values).\<close>

definition fmt_d :: "int \<Rightarrow> cstr" where
  "fmt_d i = (if i < 0 then 45 # dec_of_nat (nat (- i)) else dec_of_nat (nat i))"

definition hex_digit :: "byte \<Rightarrow> nat \<Rightarrow> byte" where
  "hex_digit a n = (if n < 10 then of_nat (48 + n) else a + of_nat (n - 10))"

fun hex_of_nat :: "byte \<Rightarrow> nat \<Rightarrow> cstr" where
  "hex_of_nat a n =
     (if n < 16 then [hex_digit a n] else hex_of_nat a (n div 16) @ [hex_digit a (n mod 16)])"

declare hex_of_nat.simps [simp del]

text \<open>\<open>%0kx\<close>: padding with zeros on the left up to width \<open>k\<close>.\<close>

definition pad0 :: "nat \<Rightarrow> cstr \<Rightarrow> cstr" where
  "pad0 k s = replicate (k - length s) 48 @ s"

definition fmt_02x :: "nat \<Rightarrow> cstr" where
  "fmt_02x n = pad0 2 (hex_of_nat 97 n)"

definition fmt_02X :: "nat \<Rightarrow> cstr" where
  "fmt_02X n = pad0 2 (hex_of_nat 65 n)"

text \<open>\<open>%03d\<close>: the sign counts for the width.\<close>

definition fmt_03d :: "int \<Rightarrow> cstr" where
  "fmt_03d i = (if i < 0 then 45 # pad0 2 (dec_of_nat (nat (- i))) else pad0 3 (dec_of_nat (nat i)))"

subsection \<open>Reading numbers\<close>

definition isspace :: "byte \<Rightarrow> bool" where
  "isspace c \<longleftrightarrow> c = 32 \<or> (9 \<le> c \<and> c \<le> 13)"

definition is_dec :: "byte \<Rightarrow> bool" where
  "is_dec c \<longleftrightarrow> 48 \<le> c \<and> c \<le> 57"

fun dec_val :: "int \<Rightarrow> cstr \<Rightarrow> int" where
  "dec_val acc [] = acc"
| "dec_val acc (c # s) = (if is_dec c then dec_val (10 * acc + uint (c - 48)) s else acc)"

definition clamp_s64 :: "int \<Rightarrow> int" where
  "clamp_s64 i = max (- (2 ^ 63)) (min (2 ^ 63 - 1) i)"

text \<open>\<open>strtol (s, NULL, 10)\<close>, saturating at the bounds of \<open>long\<close>; \<open>atoi\<close> is its conversion to
  \<open>int\<close>.\<close>

definition atol :: "cstr \<Rightarrow> int" where
  "atol s =
     (case dropWhile isspace s of
        [] \<Rightarrow> 0
      | c # t \<Rightarrow> clamp_s64 (if c = 45 then - dec_val 0 t else if c = 43 then dec_val 0 t
                           else dec_val 0 (c # t)))"

definition atoi :: "cstr \<Rightarrow> int" where
  "atoi s = to_s32 (atol s)"

definition hex_digit_val :: "byte \<Rightarrow> nat option" where
  "hex_digit_val c =
     (if 48 \<le> c \<and> c \<le> 57 then Some (unat (c - 48))
      else if 97 \<le> c \<and> c \<le> 102 then Some (unat (c - 97) + 10)
      else if 65 \<le> c \<and> c \<le> 70 then Some (unat (c - 65) + 10)
      else None)"

fun hex_val :: "int \<Rightarrow> cstr \<Rightarrow> int" where
  "hex_val acc [] = acc"
| "hex_val acc (c # s) =
     (case hex_digit_val c of None \<Rightarrow> acc | Some d \<Rightarrow> hex_val (16 * acc + int d) s)"

text \<open>\<open>strtol (s, NULL, 16)\<close>: white space, a sign, an optional \<open>0x\<close> before a hexadecimal digit.\<close>

definition skip_0x :: "cstr \<Rightarrow> cstr" where
  "skip_0x s =
     (case s of
        z # x # d # t \<Rightarrow>
          if z = 48 \<and> (x = 120 \<or> x = 88) \<and> hex_digit_val d \<noteq> None then d # t else s
      | _ \<Rightarrow> s)"

definition strtol16 :: "cstr \<Rightarrow> int" where
  "strtol16 s =
     (case dropWhile isspace s of
        [] \<Rightarrow> 0
      | c # t \<Rightarrow> clamp_s64 (if c = 45 then - hex_val 0 (skip_0x t)
                           else if c = 43 then hex_val 0 (skip_0x t)
                           else hex_val 0 (skip_0x (c # t))))"

subsection \<open>Reading back what was printed\<close>

definition no_dec_head :: "cstr \<Rightarrow> bool" where
  "no_dec_head s \<longleftrightarrow> (case s of [] \<Rightarrow> True | c # _ \<Rightarrow> \<not> is_dec c)"

lemma no_dec_head_simps [simp]: "no_dec_head []" "no_dec_head (c # s) \<longleftrightarrow> \<not> is_dec c"
  by (simp_all add: no_dec_head_def)

lemma uint_dec_digit: "d < 10 \<Longrightarrow> uint ((of_nat (48 + d) :: byte) - 48) = int d"
  by (simp add: unsigned_of_nat take_bit_nat_eq_self)

lemma is_dec_digit: "d < 10 \<Longrightarrow> is_dec (of_nat (48 + d))"
proof -
  assume "d < 10"
  then have "unat (of_nat (48 + d) :: byte) = 48 + d"
    by (simp add: unsigned_of_nat take_bit_nat_eq_self del: of_nat_add)
  then show ?thesis using \<open>d < 10\<close> by (simp add: is_dec_def word_le_nat_alt del: of_nat_add)
qed

lemma dec_val_stop: "no_dec_head s \<Longrightarrow> dec_val acc s = acc"
  by (cases s) auto

lemma dec_val_dec_of_nat:
  "dec_val acc (dec_of_nat n @ s) = dec_val (acc * 10 ^ length (dec_of_nat n) + int n) s"
proof (induction n arbitrary: acc s rule: dec_of_nat.induct)
  case (1 n)
  show ?case
  proof (cases "n < 10")
    case True
    then show ?thesis
      using is_dec_digit [OF True] uint_dec_digit [OF True]
      by (simp add: dec_of_nat.simps [of n] algebra_simps del: of_nat_add)
  next
    case False
    have d: "n mod 10 < 10" by simp
    have "int n = 10 * int (n div 10) + int (n mod 10)" by presburger
    then show ?thesis
      using False "1.IH" [OF False] is_dec_digit [OF d] uint_dec_digit [OF d]
      by (simp add: dec_of_nat.simps [of n] algebra_simps del: of_nat_add)
  qed
qed

lemma dec_of_nat_not_Nil [simp]: "dec_of_nat n \<noteq> []"
  by (subst dec_of_nat.simps) simp

lemma set_dec_of_nat: "c \<in> set (dec_of_nat n) \<Longrightarrow> is_dec c"
proof (induction n rule: dec_of_nat.induct)
  case (1 n)
  then show ?case
    using is_dec_digit [of n] is_dec_digit [of "n mod 10"]
    by (auto simp: dec_of_nat.simps [of n] simp del: of_nat_add split: if_splits)
qed

lemma is_dec_not_space: "is_dec c \<Longrightarrow> \<not> isspace c" "is_dec c \<Longrightarrow> c \<noteq> 45" "is_dec c \<Longrightarrow> c \<noteq> 43"
  by (auto simp: is_dec_def isspace_def word_le_nat_alt)

lemma atol_dec_of_nat:
  assumes "no_dec_head s" and "int n < 2 ^ 63"
  shows "atol (dec_of_nat n @ s) = int n"
proof -
  obtain c t where ct: "dec_of_nat n = c # t" by (cases "dec_of_nat n") auto
  then have "is_dec c" using set_dec_of_nat [of c n] by simp
  moreover have "dec_val 0 (c # t @ s) = int n"
    using dec_val_dec_of_nat [of 0 n s] dec_val_stop [OF assms(1)] by (simp add: ct)
  ultimately show ?thesis
    using assms(2) by (simp add: atol_def ct is_dec_not_space clamp_s64_def)
qed

lemma atol_fmt_d_append:
  assumes "no_dec_head s" and "in_s64 i"
  shows "atol (fmt_d i @ s) = i"
proof (cases "i < 0")
  case True
  have "dec_val 0 (dec_of_nat (nat (- i)) @ s) = - i"
    using True dec_val_dec_of_nat [of 0 "nat (- i)" s] dec_val_stop [OF assms(1)] by simp
  then show ?thesis
    using True assms(2) by (simp add: fmt_d_def atol_def isspace_def clamp_s64_def in_s64_def)
next
  case False
  then show ?thesis
    using assms atol_dec_of_nat [of s "nat i"] by (simp add: fmt_d_def in_s64_def)
qed

lemmas atol_fmt_d = atol_fmt_d_append [where s = "[]", simplified]

lemma atoi_fmt_d_append: "no_dec_head s \<Longrightarrow> in_s32 i \<Longrightarrow> atoi (fmt_d i @ s) = i"
  by (simp add: atoi_def atol_fmt_d_append in_s32_in_s64)

lemmas atoi_fmt_d = atoi_fmt_d_append [where s = "[]", simplified]

lemma set_fmt_d: "c \<in> set (fmt_d i) \<Longrightarrow> is_dec c \<or> c = 45"
  using set_dec_of_nat by (auto simp: fmt_d_def split: if_splits)

lemma fmt_d_not_Nil [simp]: "fmt_d i \<noteq> []"
  by (simp add: fmt_d_def)

lemma notin_set_fmt_d [simp]: "\<not> is_dec c \<Longrightarrow> c \<noteq> 45 \<Longrightarrow> c \<notin> set (fmt_d i)"
  using set_fmt_d by blast

lemma is_cstr_fmt_d [simp]: "is_cstr (fmt_d i)"
proof -
  have "\<not> is_dec 0" "(0 :: byte) \<noteq> 45" by (simp_all add: is_dec_def)
  then show ?thesis unfolding is_cstr_def by (rule notin_set_fmt_d)
qed

end
