(* ===== verification/Shared_Func.thy ===== *)
theory Shared_Func
  imports C_Stdlib
begin

text \<open>
  The buffer codecs and string helpers of \<open>src/common/shared_func.c\<close>: big-endian integer codecs
  (\<open>int16_t2buff\<close> .. \<open>buff2long\<close>), hexadecimal codecs, trimming, splitting and case conversion.
  The lemmas show the round trips of every codec pair and that splitting inverts joining.
\<close>

subsection \<open>Integer codecs\<close>

definition int16_t2buff :: "s16 \<Rightarrow> byte list" where
  "int16_t2buff n = [ucast (signed_drop_bit 8 n AND 0xFF), ucast (n AND 0xFF)]"

definition buff2int16_t :: "byte list \<Rightarrow> s16" where
  "buff2int16_t b = (push_bit 8 (ucast (b ! 0))) OR ucast (b ! 1)"

definition int2buff :: "s32 \<Rightarrow> byte list" where
  "int2buff n =
     [ucast (signed_drop_bit 24 n AND 0xFF), ucast (signed_drop_bit 16 n AND 0xFF),
      ucast (signed_drop_bit 8 n AND 0xFF), ucast (n AND 0xFF)]"

definition buff2int :: "byte list \<Rightarrow> s32" where
  "buff2int b =
     push_bit 24 (ucast (b ! 0)) OR push_bit 16 (ucast (b ! 1)) OR
     push_bit 8 (ucast (b ! 2)) OR ucast (b ! 3)"

definition long2buff :: "s64 \<Rightarrow> byte list" where
  "long2buff n =
     [ucast (signed_drop_bit 56 n AND 0xFF), ucast (signed_drop_bit 48 n AND 0xFF),
      ucast (signed_drop_bit 40 n AND 0xFF), ucast (signed_drop_bit 32 n AND 0xFF),
      ucast (signed_drop_bit 24 n AND 0xFF), ucast (signed_drop_bit 16 n AND 0xFF),
      ucast (signed_drop_bit 8 n AND 0xFF), ucast (n AND 0xFF)]"

definition buff2long :: "byte list \<Rightarrow> s64" where
  "buff2long b =
     push_bit 56 (ucast (b ! 0)) OR push_bit 48 (ucast (b ! 1)) OR
     push_bit 40 (ucast (b ! 2)) OR push_bit 32 (ucast (b ! 3)) OR
     push_bit 24 (ucast (b ! 4)) OR push_bit 16 (ucast (b ! 5)) OR
     push_bit 8 (ucast (b ! 6)) OR ucast (b ! 7)"

lemmas codec_defs [codec_simps] =
  int16_t2buff_def buff2int16_t_def int2buff_def buff2int_def long2buff_def buff2long_def

lemma low_byte_ucast [codec_simps]: "ucast (w AND 0xFF) = (ucast (w :: 'a::len word) :: byte)"
proof (rule bit_word_eqI)
  fix n assume n: "n < LENGTH(8)"
  have "bit (ucast (w AND 0xFF) :: byte) n \<longleftrightarrow> bit w n \<and> n < 8 \<and> n < LENGTH('a)"
    using n by (simp only: bit_unsigned_iff bit_and_iff bit_0xFF possible_bit_word) auto
  also have "\<dots> \<longleftrightarrow> bit w n"
    using n bit_imp_le_length [of w n] by auto
  also have "\<dots> \<longleftrightarrow> bit (ucast w :: byte) n"
    using n by (simp add: bit_unsigned_iff)
  finally show "bit (ucast (w AND 0xFF) :: byte) n = bit (ucast w :: byte) n" .
qed

text \<open>Byte \<open>k\<close> of a word, shifted back: the shape both word codecs are made of.\<close>

lemma bit_push_byte [codec_simps]:
  fixes n :: "'a::len word"
  assumes "i < LENGTH('a)" and "k + 8 \<le> LENGTH('a)"
  shows "bit (push_bit k (ucast (ucast (signed_drop_bit k n) :: byte) :: 'a word)) i \<longleftrightarrow>
    k \<le> i \<and> i < k + 8 \<and> bit n i"
  using assms by (auto simp: bit_simps)

lemma bit_low_byte [codec_simps]:
  fixes n :: "'a::len word"
  assumes "i < LENGTH('a)" and "8 \<le> LENGTH('a)"
  shows "bit (ucast (ucast n :: byte) :: 'a word) i \<longleftrightarrow> i < 8 \<and> bit n i"
  using assms by (auto simp: bit_simps)

lemma buff2int16_t_int16_t2buff: "buff2int16_t (int16_t2buff n) = n"
  by (rule bit_word_eqI) (auto simp: codec_simps bit_or_iff)

lemma buff2int_int2buff: "buff2int (int2buff n) = n"
  by (rule bit_word_eqI) (auto simp: codec_simps bit_or_iff)

lemma buff2long_long2buff: "buff2long (long2buff n) = n"
  by (rule bit_word_eqI) (auto simp: codec_simps bit_or_iff)

text \<open>The other direction: a byte of the word assembled from a buffer.\<close>

lemma bit_byte_beyond: "8 \<le> n \<Longrightarrow> \<not> bit (b :: byte) n"
  using bit_imp_le_length [of b n] by auto

lemma bit_byte_of_word: "n < 8 \<Longrightarrow> bit (ucast (w :: 'a::len word) :: byte) n \<longleftrightarrow> bit w n"
  by (simp add: bit_unsigned_iff)

lemma bit_signed_drop:
  assumes "n + k < LENGTH('a)"
  shows "bit (signed_drop_bit k (w :: 'a::len word)) n \<longleftrightarrow> bit w (n + k)"
  using assms by (auto simp: bit_simps min_def algebra_simps)

lemma bit_push_ucast_byte:
  assumes "n < LENGTH('a)"
  shows "bit (push_bit k (ucast (b :: byte)) :: 'a::len word) n \<longleftrightarrow> k \<le> n \<and> n < k + 8 \<and> bit b (n - k)"
proof (cases "8 \<le> n - k")
  case True
  then have "\<not> bit b (n - k)" by (rule bit_byte_beyond)
  then show ?thesis by (simp add: bit_simps)
next
  case False
  then show ?thesis using assms by (auto simp: bit_simps)
qed

lemma bit_ucast_byte:
  "n < LENGTH('a) \<Longrightarrow> bit (ucast (b :: byte) :: 'a::len word) n \<longleftrightarrow> n < 8 \<and> bit b n"
  using bit_push_ucast_byte [of n 0 b] by simp

lemmas codec_bits = bit_byte_of_word bit_signed_drop bit_push_ucast_byte bit_ucast_byte bit_or_iff

lemma int16_t2buff_buff2int16_t: "int16_t2buff (buff2int16_t [b0, b1]) = [b0, b1]"
  by (simp add: codec_defs low_byte_ucast)
    (intro conjI bit_word_eqI; auto simp: codec_bits)

lemma int2buff_buff2int: "int2buff (buff2int [b0, b1, b2, b3]) = [b0, b1, b2, b3]"
  by (simp add: codec_defs low_byte_ucast)
    (intro conjI bit_word_eqI; auto simp: codec_bits)

lemma long2buff_buff2long:
  "long2buff (buff2long [b0, b1, b2, b3, b4, b5, b6, b7]) = [b0, b1, b2, b3, b4, b5, b6, b7]"
  by (simp add: codec_defs low_byte_ucast)
    (intro conjI bit_word_eqI; auto simp: codec_bits)

subsection \<open>Hexadecimal codecs\<close>

definition nibble2ascii :: "byte \<Rightarrow> byte" where
  "nibble2ascii n = (if n < 10 then n + 0x30 else if n < 16 then n - 10 + 0x41 else n)"

definition ascii2nibble :: "byte \<Rightarrow> byte option" where
  "ascii2nibble c =
     (if c \<le> 0x46 \<and> c \<ge> 0x41 then Some (c - 0x41 + 10)
      else if c \<le> 0x66 \<and> c \<ge> 0x61 then Some (c - 0x61 + 10)
      else if c \<ge> 0x30 \<and> c \<le> 0x39 then Some (c - 0x30)
      else None)"

primrec hex2ascii :: "byte list \<Rightarrow> byte list" where
  "hex2ascii [] = []"
| "hex2ascii (b # bs) =
     nibble2ascii (drop_bit 4 (b AND 0xF0)) # nibble2ascii (b AND 0x0F) # hex2ascii bs"

fun ascii2hex_loop :: "byte list \<Rightarrow> byte list option" where
  "ascii2hex_loop (x # y # r) =
     (case ascii2nibble x of
        None \<Rightarrow> None
      | Some hi \<Rightarrow>
          (case ascii2nibble y of
             None \<Rightarrow> None
           | Some lo \<Rightarrow> map_option (\<lambda>t. (push_bit 4 hi OR lo) # t) (ascii2hex_loop r)))"
| "ascii2hex_loop _ = Some []"

text \<open>The result \<open>None\<close> is the return code \<open>-1\<close>; otherwise \<open>*nDestLen\<close> is the length of the
  result.\<close>

definition ascii2hex :: "byte list \<Rightarrow> byte list option" where
  "ascii2hex s = (if length s mod 2 \<noteq> 0 then None else ascii2hex_loop s)"

definition bin2hex :: "byte list \<Rightarrow> cstr" where
  "bin2hex s = concat (map (\<lambda>b. fmt_02x (unat b)) s)"

text \<open>The bytes stored in \<open>szBinBuff\<close>; \<open>*nDestLen\<close> is their number, half the length of the string.\<close>

fun hex2bin :: "cstr \<Rightarrow> byte list" where
  "hex2bin (x # y # r) = of_int (strtol16 [x, y]) # hex2bin r"
| "hex2bin _ = []"

lemma nibble_cases:
  assumes "(n :: byte) < 16"
  shows "n \<in> {0, 1, 2, 3, 4, 5, 6, 7, 8, 9, 10, 11, 12, 13, 14, 15}"
proof -
  have "unat n < 16" using assms by (simp add: word_less_nat_alt)
  moreover have "k \<in> {0, 1, 2, 3, 4, 5, 6, 7, 8, 9, 10, 11, 12, 13, 14, 15}" if "k < 16" for k :: nat
    using that by (simp add: less_Suc_eq numeral_eq_Suc)
  ultimately have "unat n \<in> {0, 1, 2, 3, 4, 5, 6, 7, 8, 9, 10, 11, 12, 13, 14, 15}" by blast
  then have "of_nat (unat n) \<in> (of_nat ` {0, 1, 2, 3, 4, 5, 6, 7, 8, 9, 10, 11, 12, 13, 14, 15} :: byte set)"
    by (rule imageI)
  then show ?thesis by simp
qed

lemma ascii2nibble_nibble2ascii:
  assumes "n < 16" shows "ascii2nibble (nibble2ascii n) = Some n"
  using nibble_cases [OF assms]
  by (elim insertE emptyE) (simp_all add: nibble2ascii_def ascii2nibble_def)

lemma take_bit_4_less: "take_bit 4 (w :: byte) < 16"
  using take_bit_nat_less_exp [of 4 "unat w"] by (simp add: word_less_nat_alt unsigned_take_bit_eq)

lemma high_nibble_less: "drop_bit 4 ((b :: byte) AND 0xF0) < 16"
proof -
  have "drop_bit 4 (b AND 0xF0) = drop_bit 4 b AND 0xF" by (simp add: drop_bit_and)
  also have "\<dots> = take_bit 4 (drop_bit 4 b)" by (simp add: take_bit_eq_mask mask_numeral)
  also have "\<dots> < 16" by (rule take_bit_4_less)
  finally show ?thesis .
qed

lemma low_nibble_less: "(b :: byte) AND 0x0F < 16"
proof -
  have "b AND 0x0F = take_bit 4 b" by (simp add: take_bit_eq_mask mask_numeral)
  also have "\<dots> < 16" by (rule take_bit_4_less)
  finally show ?thesis .
qed

lemma join_nibbles: "(push_bit 4 (drop_bit 4 (b :: byte)) AND 0xF0) OR (b AND 0x0F) = b"
proof -
  have 1: "(0x0F :: byte) = mask 4" by (simp add: mask_eq_exp_minus_1)
  have 2: "(0xF0 :: byte) = NOT (mask 4)" by (simp add: mask_eq_exp_minus_1)
  show ?thesis unfolding 1 2
    by (rule bit_word_eqI)
      (auto simp: bit_and_iff bit_or_iff bit_push_bit_iff bit_drop_bit_eq bit_not_iff bit_mask_iff)
qed

lemma ascii2hex_loop_hex2ascii: "ascii2hex_loop (hex2ascii bs) = Some bs"
  by (induction bs)
    (simp_all add: ascii2nibble_nibble2ascii high_nibble_less low_nibble_less join_nibbles)

lemma length_hex2ascii [simp]: "length (hex2ascii bs) = 2 * length bs"
  by (induction bs) simp_all

lemma ascii2hex_hex2ascii: "ascii2hex (hex2ascii bs) = Some bs"
  by (simp add: ascii2hex_def ascii2hex_loop_hex2ascii)

lemma ascii2nibble_None_iff: "ascii2nibble c = None \<longleftrightarrow> hex_digit_val c = None"
  by (simp add: ascii2nibble_def hex_digit_val_def conj_commute)

lemma ascii2hex_loop_None_iff:
  "even (length s) \<Longrightarrow>
   ascii2hex_loop s = None \<longleftrightarrow> \<not> list_all (\<lambda>c. hex_digit_val c \<noteq> None) s"
  by (induction s rule: ascii2hex_loop.induct)
    (auto split: option.split simp flip: ascii2nibble_None_iff)

lemma ascii2hex_None_iff:
  "ascii2hex s = None \<longleftrightarrow> odd (length s) \<or> \<not> list_all (\<lambda>c. hex_digit_val c \<noteq> None) s"
  by (simp only: ascii2hex_def ascii2hex_loop_None_iff odd_iff_mod_2_eq_one flip: not_mod_2_eq_0_eq_1)
    (auto simp: ascii2hex_loop_None_iff even_iff_mod_2_eq_zero)

lemma hex_digit_val_hex_digit:
  assumes "n < 16" shows "hex_digit_val (hex_digit 97 n) = Some n"
proof -
  have "n \<in> {0, 1, 2, 3, 4, 5, 6, 7, 8, 9, 10, 11, 12, 13, 14, 15}"
    using assms by (simp add: less_Suc_eq numeral_eq_Suc)
  then show ?thesis
    by (elim insertE emptyE) (simp_all add: hex_digit_val_def hex_digit_def)
qed

lemma hex_digit_not_special:
  assumes "n < 16"
  shows "\<not> isspace (hex_digit 97 n)" "hex_digit 97 n \<noteq> 45" "hex_digit 97 n \<noteq> 43"
proof -
  have "n \<in> {0, 1, 2, 3, 4, 5, 6, 7, 8, 9, 10, 11, 12, 13, 14, 15}"
    using assms by (simp add: less_Suc_eq numeral_eq_Suc)
  then show "\<not> isspace (hex_digit 97 n)" "hex_digit 97 n \<noteq> 45" "hex_digit 97 n \<noteq> 43"
    by (elim insertE emptyE; simp add: hex_digit_def isspace_def)+
qed

lemma fmt_02x_byte:
  assumes "n < 256"
  shows "fmt_02x n = [hex_digit 97 (n div 16), hex_digit 97 (n mod 16)]"
proof (cases "n < 16")
  case True
  then show ?thesis by (simp add: fmt_02x_def pad0_def hex_of_nat.simps [of _ n] hex_digit_def)
next
  case False
  moreover have "n div 16 < 16" using assms by simp
  ultimately show ?thesis
    by (simp add: fmt_02x_def pad0_def hex_of_nat.simps [of _ n] hex_of_nat.simps [of _ "n div 16"])
qed

lemma strtol16_two_digits:
  assumes "h < 16" and "l < 16"
  shows "strtol16 [hex_digit 97 h, hex_digit 97 l] = 16 * int h + int l"
  using assms
  by (simp add: strtol16_def hex_digit_not_special skip_0x_def hex_digit_val_hex_digit clamp_s64_def)

lemma hex2bin_bin2hex: "hex2bin (bin2hex bs) = bs"
proof (induction bs)
  case (Cons b bs)
  have b: "unat b < 256" using unsigned_less [of b] by simp
  then have "unat b div 16 < 16" by simp
  then have "strtol16 [hex_digit 97 (unat b div 16), hex_digit 97 (unat b mod 16)]
      = int (16 * (unat b div 16) + unat b mod 16)"
    by (simp only: strtol16_two_digits mod_less_divisor zero_less_numeral of_nat_add of_nat_mult
        of_nat_numeral)
  then have "strtol16 [hex_digit 97 (unat b div 16), hex_digit 97 (unat b mod 16)] = int (unat b)"
    by (simp only: mult_div_mod_eq)
  then show ?case
    using Cons b by (simp add: bin2hex_def fmt_02x_byte)
qed (simp add: bin2hex_def)

subsection \<open>Splitting and trimming\<close>

definition get_split_str_count :: "cstr \<Rightarrow> byte \<Rightarrow> nat" where
  "get_split_str_count str seperator = 1 + length (filter (\<lambda>c. c = seperator) str)"

text \<open>The loop of \<open>splitStr\<close> with room for \<open>k\<close> more columns after the current one.\<close>

primrec splitStr_loop :: "byte \<Rightarrow> nat \<Rightarrow> cstr \<Rightarrow> cstr list" where
  "splitStr_loop seperator 0 p = [p]"
| "splitStr_loop seperator (Suc k) p =
     (case strchr p seperator of
        None \<Rightarrow> [p]
      | Some i \<Rightarrow> take i p # splitStr_loop seperator k (drop (Suc i) p))"

text \<open>The strings the entries of \<open>pCols\<close> point to; the return value is their number.\<close>

definition splitStr :: "cstr \<Rightarrow> byte \<Rightarrow> int \<Rightarrow> cstr list" where
  "splitStr src seperator nMaxCols =
     (if nMaxCols \<le> 0 then [] else splitStr_loop seperator (nat (nMaxCols - 1)) src)"

fun join_cols :: "byte \<Rightarrow> cstr list \<Rightarrow> cstr" where
  "join_cols seperator [] = []"
| "join_cols seperator [x] = x"
| "join_cols seperator (x # y # xs) = x @ seperator # join_cols seperator (y # xs)"

lemma splitStr_loop_not_Nil [simp]: "splitStr_loop c k p \<noteq> []"
  by (cases k) (auto split: option.splits)

lemma join_cols_Cons: "xs \<noteq> [] \<Longrightarrow> join_cols c (x # xs) = x @ c # join_cols c xs"
  by (cases xs) auto

lemma join_splitStr_loop: "join_cols c (splitStr_loop c k p) = p"
proof (induction k arbitrary: p)
  case (Suc k)
  show ?case
    using Suc strchr_SomeD(4) [of p c, symmetric] by (auto simp: join_cols_Cons split: option.splits)
qed simp

lemma splitStr_loop_join:
  "cols \<noteq> [] \<Longrightarrow> length cols \<le> Suc k \<Longrightarrow> (\<forall>x \<in> set cols. c \<notin> set x) \<Longrightarrow>
   splitStr_loop c k (join_cols c cols) = cols"
proof (induction c cols arbitrary: k rule: join_cols.induct)
  case (2 c x)
  then have "strchr x c = None" by (simp add: strchr_def)
  then show ?case by (cases k) simp_all
next
  case (3 c x y xs)
  then obtain k' where "k = Suc k'" by (cases k) auto
  with 3 show ?case by simp
qed simp

lemma length_splitStr_loop:
  "length (splitStr_loop c k p) = min (Suc k) (get_split_str_count p c)"
proof (induction k arbitrary: p)
  case 0
  then show ?case by (simp add: get_split_str_count_def)
next
  case (Suc k)
  show ?case
  proof (cases "strchr p c")
    case None
    then have "filter (\<lambda>x. x = c) p = []" by (auto simp: strchr_None_iff filter_empty_conv)
    with None show ?thesis by (simp add: get_split_str_count_def)
  next
    case (Some i)
    have "filter (\<lambda>x. x = c) (take i p) = []"
      using strchr_SomeD(3) [OF Some] by (auto simp: filter_empty_conv)
    then have "get_split_str_count p c = Suc (get_split_str_count (drop (Suc i) p) c)"
      using arg_cong [OF strchr_SomeD(4) [OF Some], of "\<lambda>s. get_split_str_count s c"]
      by (simp only: get_split_str_count_def filter_append) simp
    with Some Suc.IH [of "drop (Suc i) p"] show ?thesis by simp
  qed
qed

text \<open>The characters that \<open>trim_left\<close> and \<open>trim_right\<close> remove.\<close>

definition is_trim :: "byte \<Rightarrow> bool" where
  "is_trim c \<longleftrightarrow> c = 32 \<or> c = 10 \<or> c = 13 \<or> c = 9"

text \<open>The contents of \<open>pStr\<close> after the call. \<open>malloc_ok\<close> is the outcome of the allocation of the
  temporary copy: when it fails the string is left as it is.\<close>

definition trim_left :: "bool \<Rightarrow> cstr \<Rightarrow> cstr" where
  "trim_left malloc_ok pStr =
     (let p = dropWhile is_trim pStr in
      if p = pStr then pStr else if \<not> malloc_ok then pStr else p)"

definition trim_right :: "cstr \<Rightarrow> cstr" where
  "trim_right pStr = rev (dropWhile is_trim (rev pStr))"

definition trim :: "bool \<Rightarrow> cstr \<Rightarrow> cstr" where
  "trim malloc_ok pStr = trim_left malloc_ok (trim_right pStr)"

definition chopPath :: "cstr \<Rightarrow> cstr" where
  "chopPath filePath =
     (if filePath = [] then filePath
      else if last filePath = 47 then butlast filePath else filePath)"

definition toLowercase :: "cstr \<Rightarrow> cstr" where
  "toLowercase src = map (\<lambda>c. if 65 \<le> c \<and> c \<le> 90 then c + 32 else c) src"

definition toUppercase :: "cstr \<Rightarrow> cstr" where
  "toUppercase src = map (\<lambda>c. if 97 \<le> c \<and> c \<le> 122 then c - 32 else c) src"

fun getCharLen :: "cstr \<Rightarrow> nat" where
  "getCharLen [] = 0"
| "getCharLen (c # s) =
     (if c > 127 then (case s of [] \<Rightarrow> 1 | _ # t \<Rightarrow> Suc (getCharLen t)) else Suc (getCharLen s))"

text \<open>\<open>strtok_r\<close>: \<open>s\<close> is the first argument (\<open>None\<close> is \<open>NULL\<close>), \<open>save\<close> the text that
  \<open>*save_ptr\<close> points to; the result is the token and the new value of \<open>*save_ptr\<close>.\<close>

definition strtok_r :: "cstr option \<Rightarrow> byte list \<Rightarrow> cstr \<Rightarrow> cstr option \<times> cstr" where
  "strtok_r s delim save =
     (let s' = dropWhile (\<lambda>c. c \<in> set delim) (case s of None \<Rightarrow> save | Some t \<Rightarrow> t) in
      if s' = [] then (None, s')
      else
        let token = takeWhile (\<lambda>c. c \<notin> set delim) s' in
        (case dropWhile (\<lambda>c. c \<notin> set delim) s' of
           [] \<Rightarrow> (Some token, [])
         | _ # rest \<Rightarrow> (Some token, rest)))"

lemma trim_right_append_trim: "\<forall>c \<in> set w. is_trim c \<Longrightarrow> trim_right (s @ w) = trim_right s"
  by (simp add: trim_right_def dropWhile_append3 dropWhile_append)

lemma trim_right_id: "s = [] \<or> \<not> is_trim (last s) \<Longrightarrow> trim_right s = s"
  by (cases s rule: rev_cases) (auto simp: trim_right_def)

lemma trim_right_decomp:
  "\<exists>w. s = trim_right s @ w \<and> (\<forall>c \<in> set w. is_trim c) \<and>
       (trim_right s = [] \<or> \<not> is_trim (last (trim_right s)))"
proof -
  let ?w = "rev (takeWhile is_trim (rev s))"
  have "s = rev (takeWhile is_trim (rev s) @ dropWhile is_trim (rev s))" by simp
  then have "s = trim_right s @ ?w" by (simp only: rev_append trim_right_def)
  moreover have "\<forall>c \<in> set ?w. is_trim c" by (auto dest: set_takeWhileD)
  moreover have "trim_right s = [] \<or> \<not> is_trim (last (trim_right s))"
    using hd_dropWhile [of is_trim "rev s"] by (auto simp: trim_right_def last_rev)
  ultimately show ?thesis by blast
qed

lemma trim_left_True: "trim_left True s = dropWhile is_trim s"
  by (simp add: trim_left_def Let_def)

lemma last_dropWhile: "dropWhile P s \<noteq> [] \<Longrightarrow> last (dropWhile P s) = last s"
  by (induction s) auto

lemma trim_decomp:
  "\<exists>l r. s = l @ trim True s @ r \<and> (\<forall>c \<in> set (l @ r). is_trim c) \<and>
     (trim True s = [] \<or> \<not> is_trim (hd (trim True s)) \<and> \<not> is_trim (last (trim True s)))"
proof -
  let ?t = "trim_right s"
  obtain r where r: "s = ?t @ r" "\<forall>c \<in> set r. is_trim c"
    "?t = [] \<or> \<not> is_trim (last ?t)" using trim_right_decomp [of s] by blast
  let ?l = "takeWhile is_trim ?t"
  have tr: "trim True s = dropWhile is_trim ?t" by (simp add: trim_def trim_left_True)
  have "?t = ?l @ trim True s" by (simp add: tr)
  then have "?t @ r = ?l @ trim True s @ r" by (metis append.assoc)
  then have "s = ?l @ trim True s @ r" using r(1) by (rule trans [rotated])
  moreover have "\<forall>c \<in> set (?l @ r). is_trim c" using r(2) by (auto dest: set_takeWhileD)
  moreover have "trim True s = [] \<or> \<not> is_trim (hd (trim True s)) \<and> \<not> is_trim (last (trim True s))"
    unfolding tr using r(3) hd_dropWhile [of is_trim ?t] last_dropWhile [of is_trim ?t]
    by (metis dropWhile.simps(1))
  ultimately show ?thesis by blast
qed

lemma strtok_r_eqs:
  assumes "strtok_r s delim save = (Some t, save')"
  defines "i \<equiv> dropWhile (\<lambda>c. c \<in> set delim) (case s of None \<Rightarrow> save | Some u \<Rightarrow> u)"
  shows "i \<noteq> []" "t = takeWhile (\<lambda>c. c \<notin> set delim) i"
    "save' = tl (dropWhile (\<lambda>c. c \<notin> set delim) i)"
proof -
  have eq: "(if i = [] then (None, i)
      else case dropWhile (\<lambda>c. c \<notin> set delim) i of
             [] \<Rightarrow> (Some (takeWhile (\<lambda>c. c \<notin> set delim) i), [])
           | _ # rest \<Rightarrow> (Some (takeWhile (\<lambda>c. c \<notin> set delim) i), rest)) = (Some t, save')"
    using assms(1) by (simp only: strtok_r_def Let_def i_def)
  then show "i \<noteq> []" by (auto split: if_splits)
  with eq show "t = takeWhile (\<lambda>c. c \<notin> set delim) i"
    "save' = tl (dropWhile (\<lambda>c. c \<notin> set delim) i)"
    by (cases "dropWhile (\<lambda>c. c \<notin> set delim) i";
        simp only: if_False list.case list.sel prod.inject option.inject)+
qed

lemma strtok_r_token:
  assumes "strtok_r s delim save = (Some t, save')"
  shows "t \<noteq> []" "set t \<inter> set delim = {}"
proof -
  let ?s = "dropWhile (\<lambda>c. c \<in> set delim) (case s of None \<Rightarrow> save | Some u \<Rightarrow> u)"
  note * = strtok_r_eqs [OF assms]
  have "hd ?s \<notin> set delim" using hd_dropWhile [OF *(1)] .
  then show "t \<noteq> []" using * by (cases ?s) auto
  show "set t \<inter> set delim = {}" unfolding *(2) by (auto dest: set_takeWhileD)
qed

lemma strtok_r_shrinks:
  assumes "strtok_r s delim save = (Some t, save')"
  shows "length save' < length (case s of None \<Rightarrow> save | Some u \<Rightarrow> u)"
proof -
  let ?i = "case s of None \<Rightarrow> save | Some u \<Rightarrow> u"
  let ?s = "dropWhile (\<lambda>c. c \<in> set delim) ?i"
  note * = strtok_r_eqs [OF assms]
  have "length save' < length ?s"
    using length_dropWhile_le [of "\<lambda>c. c \<notin> set delim" ?s] *(1) [folded length_greater_0_conv]
    unfolding *(3) length_tl by arith
  also have "\<dots> \<le> length ?i" by (rule length_dropWhile_le)
  finally show ?thesis .
qed

subsection \<open>Properties\<close>

text \<open>C31: The 2, 4 and 8 byte big-endian codecs are mutually inverse in both directions: every
  integer survives encoding and decoding, and every buffer of the right size is the encoding of the
  integer it decodes to.\<close>

theorem integer_codecs_inverse:
  "buff2int16_t (int16_t2buff i) = i \<and> int16_t2buff (buff2int16_t [b0, b1]) = [b0, b1] \<and>
   buff2int (int2buff j) = j \<and> int2buff (buff2int [b0, b1, b2, b3]) = [b0, b1, b2, b3] \<and>
   buff2long (long2buff k) = k \<and>
   long2buff (buff2long [b0, b1, b2, b3, b4, b5, b6, b7]) = [b0, b1, b2, b3, b4, b5, b6, b7]"
  by (simp add: buff2int16_t_int16_t2buff buff2int_int2buff buff2long_long2buff
      int16_t2buff_buff2int16_t int2buff_buff2int long2buff_buff2long)

text \<open>Both hexadecimal encoders are undone by their decoders on every buffer, and the upper
  case decoder accepts exactly the strings of even length whose characters are hexadecimal
  digits.\<close>

theorem hex_codecs_inverse:
  "ascii2hex (hex2ascii bs) = Some bs \<and> hex2bin (bin2hex bs) = bs \<and>
   (ascii2hex s \<noteq> None) = (even (length s) \<and> list_all (\<lambda>c. hex_digit_val c \<noteq> None) s)"
  by (simp only: ascii2hex_hex2ascii hex2bin_bin2hex ascii2hex_None_iff simp_thms de_Morgan_disj)

text \<open>Splitting a string into at most \<open>n\<close> columns loses nothing (joining the columns gives the
  string back), gives as many columns as there are separators plus one, capped by \<open>n\<close>, and
  recovers the columns that were joined when none of them contains the separator.\<close>

theorem splitStr_correct:
  assumes "0 < n"
  shows "join_cols c (splitStr s c n) = s \<and>
    length (splitStr s c n) = min (nat n) (get_split_str_count s c) \<and>
    (cols \<noteq> [] \<and> length cols \<le> nat n \<and> (\<forall>x \<in> set cols. c \<notin> set x) \<longrightarrow>
      splitStr (join_cols c cols) c n = cols)"
  using assms
  by (auto simp: splitStr_def join_splitStr_loop length_splitStr_loop splitStr_loop_join)

theorem splitStr_correct_witness:
  "join_cols 32 (splitStr (asc ''put a b'') 32 2) = asc ''put a b'' \<and>
   splitStr (asc ''put a b'') 32 2 = [asc ''put'', asc ''a b''] \<and>
   splitStr (join_cols 32 [asc ''x'', [], asc ''yz'']) 32 3 = [asc ''x'', [], asc ''yz'']"
proof (intro conjI)
  have "[asc ''x'', [], asc ''yz''] \<noteq> [] \<and> length [asc ''x'', [], asc ''yz''] \<le> nat 3 \<and>
    (\<forall>x \<in> set [asc ''x'', [], asc ''yz'']. 32 \<notin> set x)" by code_simp
  then show "splitStr (join_cols 32 [asc ''x'', [], asc ''yz'']) 32 3 = [asc ''x'', [], asc ''yz'']"
    using splitStr_correct [of 3 32 "[]" "[asc ''x'', [], asc ''yz'']"] by simp
  show "join_cols 32 (splitStr (asc ''put a b'') 32 2) = asc ''put a b''"
    using splitStr_correct [of 2 32 "asc ''put a b''"] by simp
qed code_simp

end
