(* ===== verification/Heap.thy ===== *)
theory Heap
  imports Lfs_Prelude
begin

text \<open>
  An explicit store for the linked structures of the sources: a partial map from addresses to
  nodes (address 0 is \<open>NULL\<close>), an allocation pointer that never reuses an address, and an oracle
  that decides which calls of \<open>malloc\<close> fail. Reading an address that is not allocated gives \<open>None\<close>,
  the mark of undefined behaviour. \<open>chain\<close> states that a singly linked list starts at an address;
  \<open>walk\<close> is the search loop that every list of the sources uses.
\<close>

record 'a heap =
  cells :: "nat \<rightharpoonup> 'a"
  brk :: nat
  oom :: "nat \<Rightarrow> bool"
  nalloc :: nat

abbreviation (input) NULL :: nat where "NULL \<equiv> 0"

subsection \<open>Allocation\<close>

definition malloc :: "'a \<Rightarrow> 'a heap \<Rightarrow> nat \<times> 'a heap" where
  "malloc v h =
     (if oom h (nalloc h) then (NULL, h\<lparr>nalloc := Suc (nalloc h)\<rparr>)
      else (brk h, h\<lparr>cells := (cells h)(brk h \<mapsto> v), brk := Suc (brk h), nalloc := Suc (nalloc h)\<rparr>))"

text \<open>Allocation of a block that the model keeps inside a node or a table.\<close>

definition reserve :: "'a heap \<Rightarrow> bool \<times> 'a heap" where
  "reserve h = (\<not> oom h (nalloc h), h\<lparr>nalloc := Suc (nalloc h)\<rparr>)"

definition mfree :: "nat \<Rightarrow> 'a heap \<Rightarrow> 'a heap" where
  "mfree p h = h\<lparr>cells := (cells h)(p := None)\<rparr>"

definition store :: "nat \<Rightarrow> 'a \<Rightarrow> 'a heap \<Rightarrow> 'a heap" where
  "store p v h = h\<lparr>cells := (cells h)(p \<mapsto> v)\<rparr>"

definition heap_ok :: "'a heap \<Rightarrow> bool" where
  "heap_ok h \<longleftrightarrow> 0 < brk h \<and> (\<forall>p \<in> dom (cells h). 0 < p \<and> p < brk h)"

definition heap_init :: "(nat \<Rightarrow> bool) \<Rightarrow> 'a heap" where
  "heap_init f = \<lparr>cells = Map.empty, brk = 1, oom = f, nalloc = 0\<rparr>"

lemma heap_ok_init [simp]: "heap_ok (heap_init f)"
  by (simp add: heap_ok_def heap_init_def)

lemma heap_ok_malloc [intro]: "heap_ok h \<Longrightarrow> malloc v h = (p, h') \<Longrightarrow> heap_ok h'"
  by (auto simp: heap_ok_def malloc_def less_Suc_eq split: if_splits)

lemma heap_ok_reserve [intro]: "heap_ok h \<Longrightarrow> reserve h = (b, h') \<Longrightarrow> heap_ok h'"
  by (auto simp: heap_ok_def reserve_def)

lemma heap_ok_mfree [intro]: "heap_ok h \<Longrightarrow> heap_ok (mfree p h)"
  by (auto simp: heap_ok_def mfree_def)

lemma heap_ok_store [intro]: "heap_ok h \<Longrightarrow> p \<in> dom (cells h) \<Longrightarrow> heap_ok (store p v h)"
  by (auto simp: heap_ok_def store_def)

lemma malloc_fresh:
  assumes "heap_ok h" and "malloc v h = (p, h')" and "p \<noteq> NULL"
  shows "cells h p = None" "cells h' = (cells h)(p \<mapsto> v)"
proof -
  have p: "p = brk h" "cells h' = (cells h)(brk h \<mapsto> v)"
    using assms(2,3) by (auto simp: malloc_def split: if_splits)
  show "cells h p = None"
  proof (rule ccontr)
    assume "cells h p \<noteq> None"
    then have "p \<in> dom (cells h)" by auto
    then have "p < brk h" using assms(1) unfolding heap_ok_def by blast
    then show False using p(1) by simp
  qed
  show "cells h' = (cells h)(p \<mapsto> v)" using p by simp
qed

lemma malloc_NULL:
  assumes "heap_ok h" and "malloc v h = (NULL, h')" shows "cells h' = cells h"
  using assms by (auto simp: malloc_def heap_ok_def split: if_splits)

lemma cells_simps [mem_simps]:
  "cells (mfree p h) = (cells h)(p := None)"
  "cells (store p v h) = (cells h)(p \<mapsto> v)"
  by (auto simp: mfree_def store_def)

lemma reserve_keeps:
  "reserve h = (b, h') \<Longrightarrow> cells h' = cells h" "reserve h = (b, h') \<Longrightarrow> oom h' = oom h"
  by (auto simp: reserve_def)

lemma malloc_keeps_oom: "malloc v h = (p, h') \<Longrightarrow> oom h' = oom h"
  by (auto simp: malloc_def split: if_splits)

lemma heap_ok_NULL: "heap_ok h \<Longrightarrow> cells h NULL = None"
  by (fastforce simp: heap_ok_def)

subsection \<open>Singly linked chains\<close>

fun chain :: "('a \<Rightarrow> nat) \<Rightarrow> (nat \<rightharpoonup> 'a) \<Rightarrow> nat \<Rightarrow> nat list \<Rightarrow> bool" where
  "chain nxt c p [] \<longleftrightarrow> p = NULL"
| "chain nxt c p (x # xs) \<longleftrightarrow>
     p = x \<and> x \<noteq> NULL \<and> (case c x of None \<Rightarrow> False | Some n \<Rightarrow> chain nxt c (nxt n) xs)"

lemma chain_NULL [simp]: "chain nxt c NULL xs \<longleftrightarrow> xs = []"
  by (cases xs) auto

lemma chain_in_dom: "chain nxt c p xs \<Longrightarrow> x \<in> set xs \<Longrightarrow> \<exists>n. c x = Some n"
  by (induction xs arbitrary: p) (auto split: option.splits)

lemma chain_neq_NULL: "chain nxt c p xs \<Longrightarrow> NULL \<notin> set xs"
  by (induction xs arbitrary: p) (auto split: option.splits)

lemma chain_unique: "chain nxt c p xs \<Longrightarrow> chain nxt c p ys \<Longrightarrow> xs = ys"
proof (induction xs arbitrary: p ys)
  case (Cons x xs)
  then show ?case by (cases ys) (auto split: option.splits)
qed simp

lemma chain_append:
  "chain nxt c p (xs @ y # ys) \<Longrightarrow> chain nxt c y (y # ys)"
proof (induction xs arbitrary: p)
  case (Cons x xs)
  then obtain n where "chain nxt c (nxt n) (xs @ y # ys)" by (auto split: option.splits)
  then show ?case by (rule Cons.IH)
qed simp

lemma chain_distinct: "chain nxt c p xs \<Longrightarrow> distinct xs"
proof (induction xs arbitrary: p)
  case (Cons x xs)
  have "x \<notin> set xs"
  proof
    assume "x \<in> set xs"
    then obtain us vs where xs: "xs = us @ x # vs" by (meson split_list)
    have "chain nxt c x (x # xs)" using Cons.prems by auto
    moreover have "chain nxt c x (x # vs)"
      using chain_append [of nxt c x "x # us" x vs] calculation by (simp add: xs)
    ultimately have "xs = vs" using chain_unique [of nxt c x "x # xs" "x # vs"] by simp
    then have "length xs = length vs" by simp
    then show False unfolding xs by simp
  qed
  then show ?case using Cons by (auto split: option.splits)
qed simp

lemma chain_upd [simp]: "x \<notin> set xs \<Longrightarrow> chain nxt (c(x := v)) p xs = chain nxt c p xs"
  by (induction xs arbitrary: p) (auto split: option.splits)

lemma chain_cong:
  "(\<And>x. x \<in> set xs \<Longrightarrow> c x = d x) \<Longrightarrow> chain nxt c p xs = chain nxt d p xs"
  by (induction xs arbitrary: p) (auto split: option.splits)

lemma chains_cong:
  "list_all2 (chain nxt c) ps xss \<Longrightarrow> (\<And>x. x \<in> set (concat xss) \<Longrightarrow> c x = d x) \<Longrightarrow>
   list_all2 (chain nxt d) ps xss"
proof (induction ps xss rule: list_all2_induct)
  case (Cons p ps xs xss)
  then show ?case using chain_cong [of xs c d nxt p] by auto
qed simp

text \<open>Updates that keep every link keep every chain.\<close>

lemma chain_links:
  "(\<And>x. x \<in> set xs \<Longrightarrow> map_option nxt (c x) = map_option nxt (d x)) \<Longrightarrow>
   chain nxt c p xs = chain nxt d p xs"
proof (induction xs arbitrary: p)
  case (Cons x xs)
  then show ?case by (cases "c x"; cases "d x") force+
qed simp

subsection \<open>The search loop\<close>

text \<open>The first node of the chain at \<open>p\<close> that satisfies \<open>P\<close> (\<open>NULL\<close> when there is none); \<open>None\<close>
  when the loop reads memory that is not allocated or does not end.\<close>

partial_function (option) walk :: "('a \<Rightarrow> bool) \<Rightarrow> ('a \<Rightarrow> nat) \<Rightarrow> (nat \<rightharpoonup> 'a) \<Rightarrow> nat \<Rightarrow> nat option" where
  [code]: "walk P nxt c p =
     (if p = NULL then Some NULL
      else case c p of
             None \<Rightarrow> None
           | Some n \<Rightarrow> if P n then Some p else walk P nxt c (nxt n))"

definition node_sat :: "('a \<Rightarrow> bool) \<Rightarrow> (nat \<rightharpoonup> 'a) \<Rightarrow> nat \<Rightarrow> bool" where
  "node_sat P c x \<longleftrightarrow> (case c x of None \<Rightarrow> False | Some n \<Rightarrow> P n)"

lemma walk_chain:
  "chain nxt c p xs \<Longrightarrow>
   walk P nxt c p = Some (case find (node_sat P c) xs of None \<Rightarrow> NULL | Some x \<Rightarrow> x)"
proof (induction xs arbitrary: p)
  case Nil
  then show ?case by (simp add: walk.simps)
next
  case (Cons x xs)
  then obtain n where "p = x" "x \<noteq> NULL" "c x = Some n" "chain nxt c (nxt n) xs"
    by (auto split: option.splits)
  with Cons.IH show ?case by (simp add: walk.simps [of _ _ _ x] node_sat_def)
qed

text \<open>The same loop keeping the predecessor of the current node.\<close>

partial_function (option) walk_pre ::
  "('a \<Rightarrow> bool) \<Rightarrow> ('a \<Rightarrow> nat) \<Rightarrow> (nat \<rightharpoonup> 'a) \<Rightarrow> nat \<Rightarrow> nat \<Rightarrow> (nat \<times> nat) option" where
  [code]: "walk_pre P nxt c pre p =
     (if p = NULL then Some (pre, NULL)
      else case c p of
             None \<Rightarrow> None
           | Some n \<Rightarrow> if P n then Some (pre, p) else walk_pre P nxt c p (nxt n))"

lemma walk_pre_chain_None:
  "chain nxt c p xs \<Longrightarrow> (\<And>x. x \<in> set xs \<Longrightarrow> \<not> node_sat P c x) \<Longrightarrow>
   walk_pre P nxt c pre p = Some (last (pre # xs), NULL)"
proof (induction xs arbitrary: p pre)
  case Nil
  then show ?case by (simp add: walk_pre.simps)
next
  case (Cons x xs)
  then obtain n where n: "p = x" "x \<noteq> NULL" "c x = Some n" "chain nxt c (nxt n) xs"
    by (auto split: option.splits)
  with Cons.prems(2) [of x] have "\<not> P n" by (simp add: node_sat_def)
  with n Cons.IH [of "nxt n" x] Cons.prems(2) show ?case
    by (simp add: walk_pre.simps [of _ _ _ _ x])
qed

lemma walk_pre_chain_Some:
  "chain nxt c p (xs @ y # ys) \<Longrightarrow> (\<And>x. x \<in> set xs \<Longrightarrow> \<not> node_sat P c x) \<Longrightarrow> node_sat P c y \<Longrightarrow>
   walk_pre P nxt c pre p = Some (last (pre # xs), y)"
proof (induction xs arbitrary: p pre)
  case Nil
  then show ?case by (auto simp: walk_pre.simps [of _ _ _ _ y] node_sat_def split: option.splits)
next
  case (Cons x xs)
  then obtain n where n: "p = x" "x \<noteq> NULL" "c x = Some n" "chain nxt c (nxt n) (xs @ y # ys)"
    by (auto split: option.splits)
  with Cons.prems(2) [of x] have "\<not> P n" by (simp add: node_sat_def)
  with n Cons.IH [of "nxt n" x] Cons.prems(2,3) show ?case
    by (simp add: walk_pre.simps [of _ _ _ _ x])
qed

end
