(* ===== verification/Buckets.thy ===== *)
theory Buckets
  imports Heap "HOL-Library.Multiset"
begin

text \<open>
  Arrays of singly linked chains, as the hash table and the volume table of the tracker keep them.
  \<open>relink\<close> is the loop that both use to grow: it walks a chain and moves every node to the front of
  the bucket that an index function selects in a new array. The locale \<open>link_node\<close> is what it needs
  to know of the nodes: a link field that can be read and assigned.
\<close>

subsection \<open>Moving nodes between buckets\<close>

text \<open>The new array, the store and the number of nodes moved (starting from \<open>n\<close>); \<open>None\<close> when the
  chain leads to memory that is not allocated or does not end.\<close>

partial_function (option) relink ::
  "('a \<Rightarrow> nat) \<Rightarrow> (nat \<Rightarrow> 'a \<Rightarrow> 'a) \<Rightarrow> ('a \<Rightarrow> nat) \<Rightarrow> nat list \<Rightarrow> (nat \<rightharpoonup> 'a) \<Rightarrow> int \<Rightarrow> nat \<Rightarrow>
   (nat list \<times> (nat \<rightharpoonup> 'a) \<times> int) option" where
  [code]: "relink nxt set_nxt ix nt c n p =
     (if p = NULL then Some (nt, c, n)
      else case c p of
             None \<Rightarrow> None
           | Some d \<Rightarrow>
               relink nxt set_nxt ix (nt[ix d := p]) (c(p \<mapsto> set_nxt (nt ! ix d) d)) (n + 1) (nxt d))"

primrec relink_all ::
  "('a \<Rightarrow> nat) \<Rightarrow> (nat \<Rightarrow> 'a \<Rightarrow> 'a) \<Rightarrow> ('a \<Rightarrow> nat) \<Rightarrow> nat list \<Rightarrow> nat list \<Rightarrow> (nat \<rightharpoonup> 'a) \<Rightarrow> int \<Rightarrow>
   (nat list \<times> (nat \<rightharpoonup> 'a) \<times> int) option" where
  "relink_all nxt set_nxt ix [] nt c n = Some (nt, c, n)"
| "relink_all nxt set_nxt ix (p # ps) nt c n =
     (case relink nxt set_nxt ix nt c n p of
        None \<Rightarrow> None
      | Some (nt', c', n') \<Rightarrow> relink_all nxt set_nxt ix ps nt' c' n')"

subsection \<open>The same on lists of addresses\<close>

definition push_node :: "(nat \<Rightarrow> nat) \<Rightarrow> nat \<Rightarrow> nat list list \<Rightarrow> nat list list" where
  "push_node ix x bs = bs[ix x := x # bs ! ix x]"

lemma length_push_node [simp]: "length (push_node ix x bs) = length bs"
  by (simp add: push_node_def)

lemma length_fold_push [simp]: "length (fold (push_node ix) xs bs) = length bs"
  by (induction xs arbitrary: bs) simp_all

lemma mset_concat_update:
  "i < length bs \<Longrightarrow> mset (concat (bs[i := x # bs ! i])) = add_mset x (mset (concat bs))"
proof (induction bs arbitrary: i)
  case (Cons b bs)
  then show ?case by (cases i) auto
qed simp

lemma mset_concat_fold_push:
  "(\<And>x. x \<in> set xs \<Longrightarrow> ix x < length bs) \<Longrightarrow>
   mset (concat (fold (push_node ix) xs bs)) = mset xs + mset (concat bs)"
  by (induction xs arbitrary: bs) (simp_all add: push_node_def mset_concat_update)

lemma fold_push_index:
  "(\<And>i x. i < length bs \<Longrightarrow> x \<in> set (bs ! i) \<Longrightarrow> ix x = i) \<Longrightarrow>
   i < length bs \<Longrightarrow> x \<in> set (fold (push_node ix) xs bs ! i) \<Longrightarrow> ix x = i"
proof (induction xs arbitrary: bs)
  case (Cons y ys)
  show ?case
  proof (rule Cons.IH [of "push_node ix y bs"])
    show "ix z = j" if "j < length (push_node ix y bs)" "z \<in> set (push_node ix y bs ! j)" for z j
      using that Cons.prems(1) [of j z] by (cases "j = ix y") (auto simp: push_node_def)
  qed (use Cons.prems(2,3) in simp_all)
qed simp

lemma chains_push:
  assumes ch: "list_all2 (chain nxt c) nt bs" and i: "i < length nt" and d: "nxt d = nt ! i"
    and x: "x \<noteq> NULL" "x \<notin> set (concat bs)"
  shows "list_all2 (chain nxt (c(x \<mapsto> d))) (nt[i := x]) (bs[i := x # bs ! i])"
proof (rule list_all2_all_nthI)
  have len: "length nt = length bs" using ch by (rule list_all2_lengthD)
  then show "length (nt[i := x]) = length (bs[i := x # bs ! i])" by simp
  fix j assume "j < length (nt[i := x])"
  then have j: "j < length bs" using len by simp
  then have "x \<notin> set (bs ! j)" "x \<notin> set (bs ! i)" using x(2) i len by auto
  moreover have "chain nxt c (nt ! j) (bs ! j)" "chain nxt c (nt ! i) (bs ! i)"
    using ch j i len list_all2_nthD by metis+
  ultimately show "chain nxt (c(x \<mapsto> d)) (nt[i := x] ! j) (bs[i := x # bs ! i] ! j)"
    using i j len x(1) d by (cases "j = i") simp_all
qed

subsection \<open>Correctness of the loop\<close>

text \<open>The bucket of the node at an address.\<close>

definition node_ix :: "('a \<Rightarrow> nat) \<Rightarrow> (nat \<rightharpoonup> 'a) \<Rightarrow> nat \<Rightarrow> nat" where
  "node_ix ix c x = ix (the (c x))"

locale link_node =
  fixes nxt :: "'a \<Rightarrow> nat"
    and set_nxt :: "nat \<Rightarrow> 'a \<Rightarrow> 'a"
  assumes nxt_set_nxt: "nxt (set_nxt q d) = q"
    and set_nxt_set_nxt: "set_nxt q (set_nxt r d) = set_nxt q d"
begin

lemma relink_spec:
  assumes "chain nxt c p xs" and "list_all2 (chain nxt c) nt bs"
    and "distinct (xs @ concat bs)" and "\<And>d. ix d < length nt" and "\<And>q d. ix (set_nxt q d) = ix d"
  shows "\<exists>nt' c'. relink nxt set_nxt ix nt c n p = Some (nt', c', n + int (length xs)) \<and>
    list_all2 (chain nxt c') nt' (fold (push_node (node_ix ix c)) xs bs) \<and>
    length nt' = length nt \<and> (\<forall>x. x \<notin> set xs \<longrightarrow> c' x = c x) \<and>
    (\<forall>x \<in> set xs. \<exists>d q. c x = Some d \<and> c' x = Some (set_nxt q d))"
  using assms
proof (induction xs arbitrary: c p nt bs n)
  case Nil
  then show ?case by (simp add: relink.simps)
next
  case (Cons x xs)
  obtain d where d: "p = x" "x \<noteq> NULL" "c x = Some d" "chain nxt c (nxt d) xs"
    using Cons.prems(1) by (auto split: option.splits)
  define i where "i = ix d"
  define c1 where "c1 = c(x \<mapsto> set_nxt (nt ! i) d)"
  have i: "i < length nt" "i = node_ix ix c x"
    using Cons.prems(4) by (simp_all add: i_def node_ix_def d(3))
  have len: "length bs = length nt" using Cons.prems(2) by (simp add: list_all2_lengthD)
  have ix: "node_ix ix c1 = node_ix ix c"
    by (rule ext) (simp add: node_ix_def c1_def d(3) Cons.prems(5))
  have "mset (concat (bs[i := x # bs ! i])) = add_mset x (mset (concat bs))"
    using i len by (simp add: mset_concat_update)
  then have "mset (xs @ concat (bs[i := x # bs ! i])) = mset ((x # xs) @ concat bs)" by simp
  then have dist: "distinct (xs @ concat (bs[i := x # bs ! i]))"
    using Cons.prems(3) by (metis mset_eq_imp_distinct_iff)
  have ch: "chain nxt c1 (nxt d) xs" using d(4) Cons.prems(3) by (simp add: c1_def)
  have "x \<notin> set (concat bs)" using Cons.prems(3) by simp
  then have l1: "list_all2 (chain nxt c1) (nt[i := x]) (bs[i := x # bs ! i])"
    unfolding c1_def by (intro chains_push [OF Cons.prems(2) i(1) nxt_set_nxt d(2)])
  have lt: "\<And>d. ix d < length (nt[i := x])" using Cons.prems(4) by simp
  from Cons.IH [OF ch l1 dist lt Cons.prems(5), of "n + 1"] obtain nt' c' where
    r: "relink nxt set_nxt ix (nt[i := x]) c1 (n + 1) (nxt d) = Some (nt', c', n + 1 + int (length xs))"
    and l: "list_all2 (chain nxt c') nt' (fold (push_node (node_ix ix c1)) xs (bs[i := x # bs ! i]))"
    and k: "length nt' = length (nt[i := x])" "\<And>y. y \<notin> set xs \<Longrightarrow> c' y = c1 y"
      "\<And>y. y \<in> set xs \<Longrightarrow> \<exists>d q. c1 y = Some d \<and> c' y = Some (set_nxt q d)"
    by blast
  have "relink nxt set_nxt ix nt c n p = Some (nt', c', n + int (length (x # xs)))"
    using r d by (simp add: relink.simps [of _ _ _ _ _ _ x] i_def c1_def)
  moreover have "list_all2 (chain nxt c') nt' (fold (push_node (node_ix ix c)) (x # xs) bs)"
    using l i(2) by (simp add: ix push_node_def)
  moreover have "\<exists>d q. c y = Some d \<and> c' y = Some (set_nxt q d)" if "y \<in> set (x # xs)" for y
  proof (cases "y = x")
    case True
    then show ?thesis using k(2) [of x] d(3) Cons.prems(3) by (auto simp: c1_def)
  next
    case False
    then show ?thesis using that k(3) [of y] by (simp add: c1_def)
  qed
  moreover have "c' y = c y" if "y \<notin> set (x # xs)" for y
    using that k(2) [of y] by (simp add: c1_def)
  ultimately show ?case using k(1) by (metis length_list_update)
qed

lemma relink_all_spec:
  assumes "list_all2 (chain nxt c) ps bss" and "list_all2 (chain nxt c) nt bs"
    and "distinct (concat bss @ concat bs)" and "\<And>d. ix d < length nt" and "\<And>q d. ix (set_nxt q d) = ix d"
  shows "\<exists>nt' c'. relink_all nxt set_nxt ix ps nt c n = Some (nt', c', n + int (length (concat bss))) \<and>
    list_all2 (chain nxt c') nt' (fold (push_node (node_ix ix c)) (concat bss) bs) \<and>
    length nt' = length nt \<and> (\<forall>x. x \<notin> set (concat bss) \<longrightarrow> c' x = c x) \<and>
    (\<forall>x \<in> set (concat bss). \<exists>d q. c x = Some d \<and> c' x = Some (set_nxt q d))"
  using assms
proof (induction ps arbitrary: bss c nt bs n)
  case (Cons p ps bss')
  then obtain xs bss where bss': "bss' = xs # bss" by (cases bss') auto
  note hyps = Cons.prems(1) [unfolded bss' list_all2_Cons]
  note dist' = Cons.prems(3) [unfolded bss']
  have dxs: "distinct (xs @ concat bs)" using dist' by auto
  let ?ix = "node_ix ix c"
  from relink_spec [OF conjunct1 [OF hyps] Cons.prems(2) dxs Cons.prems(4,5), of n]
  obtain nt1 c1 where r1: "relink nxt set_nxt ix nt c n p = Some (nt1, c1, n + int (length xs))"
    and l1: "list_all2 (chain nxt c1) nt1 (fold (push_node ?ix) xs bs)"
    and k1: "length nt1 = length nt" "\<And>x. x \<notin> set xs \<Longrightarrow> c1 x = c x"
      "\<And>x. x \<in> set xs \<Longrightarrow> \<exists>d q. c x = Some d \<and> c1 x = Some (set_nxt q d)"
    by blast
  have ixs: "?ix x = node_ix ix c1 x" for x
    using k1(2,3) [of x] Cons.prems(5) by (cases "x \<in> set xs") (auto simp: node_ix_def)
  then have ix: "node_ix ix c1 = ?ix" by (simp add: fun_eq_iff)
  have lt: "?ix x < length bs" for x
    using Cons.prems(2,4) by (simp add: node_ix_def list_all2_lengthD [symmetric])
  have "mset (concat bss @ concat (fold (push_node ?ix) xs bs)) = mset (concat (xs # bss) @ concat bs)"
    using lt by (simp add: mset_concat_fold_push)
  then have dist: "distinct (concat bss @ concat (fold (push_node ?ix) xs bs))"
    using dist' by (metis mset_eq_imp_distinct_iff)
  have dj: "x \<notin> set xs" if "x \<in> set (concat bss)" for x using dist' that by auto
  then have "c x = c1 x" if "x \<in> set (concat bss)" for x using k1(2) that by metis
  then have lp: "list_all2 (chain nxt c1) ps bss" by (rule chains_cong [OF conjunct2 [OF hyps]])
  have "\<And>d. ix d < length nt1" using k1(1) Cons.prems(4) by simp
  from Cons.IH [OF lp l1 dist this Cons.prems(5), where n = "n + int (length xs)"]
  obtain nt' c' where r: "relink_all nxt set_nxt ix ps nt1 c1 (n + int (length xs))
      = Some (nt', c', n + int (length xs) + int (length (concat bss)))"
    and l: "list_all2 (chain nxt c') nt' (fold (push_node ?ix) (concat bss) (fold (push_node ?ix) xs bs))"
    and k: "length nt' = length nt1" "\<And>x. x \<notin> set (concat bss) \<Longrightarrow> c' x = c1 x"
      "\<And>x. x \<in> set (concat bss) \<Longrightarrow> \<exists>d q. c1 x = Some d \<and> c' x = Some (set_nxt q d)"
    unfolding ix by blast
  have "\<exists>d q. c x = Some d \<and> c' x = Some (set_nxt q d)" if "x \<in> set (concat (xs # bss))" for x
  proof (cases "x \<in> set xs")
    case True
    then show ?thesis using k(2) [of x] k1(3) [of x] dj [of x] by metis
  next
    case False
    then have "x \<in> set (concat bss)" using that by simp
    with False show ?thesis using k(3) [of x] k1(2) [of x] by simp
  qed
  moreover have "c' x = c x" if "x \<notin> set (concat (xs # bss))" for x
    using that k(2) [of x] k1(2) [of x] by simp
  moreover have "relink_all nxt set_nxt ix (p # ps) nt c n
      = Some (nt', c', n + int (length (concat (xs # bss))))"
    using r r1 by (simp add: algebra_simps)
  moreover have "list_all2 (chain nxt c') nt' (fold (push_node ?ix) (concat (xs # bss)) bs)"
    using l by simp
  moreover have "length nt' = length nt" using k(1) k1(1) by simp
  ultimately show ?case unfolding bss' by blast
next
  case Nil
  then have "bss = []" by simp
  then show ?case using Nil.prems(2) by (intro exI [of _ nt] exI [of _ c]) simp
qed

end

end
