(* ===== verification/Interfaces.thy ===== *)
theory Interfaces
  imports Lfs_Prelude
begin

text \<open>
  The contracts that clients of a component rely on, as locales: a dictionary with an allocator
  (provided by the hash table, used by the configuration reader) and a first-in first-out queue
  (provided by the linked lists, used by the connection and task queues).
\<close>

subsection \<open>Dictionary\<close>

text \<open>\<open>look s k\<close> is \<open>None\<close> when the search is undefined, \<open>Some None\<close> when there is no entry; \<open>tick\<close>
  is a private allocation from the allocator that the dictionary uses; \<open>ample\<close> says that no
  allocation fails. \<open>put\<close> is only promised to work for keys without an entry.\<close>

locale dict =
  fixes inv :: "'s \<Rightarrow> bool"
    and ample :: "'s \<Rightarrow> bool"
    and look :: "'s \<Rightarrow> 'k \<Rightarrow> 'v option option"
    and put :: "'s \<Rightarrow> 'k \<Rightarrow> 'v \<Rightarrow> (int \<times> 's) option"
    and tick :: "'s \<Rightarrow> bool \<times> 's"
  assumes look_defined: "inv s \<Longrightarrow> look s k \<noteq> None"
    and put_new: "inv s \<Longrightarrow> ample s \<Longrightarrow> look s k = Some None \<Longrightarrow>
      \<exists>s'. put s k v = Some (LFS_OK, s') \<and> inv s' \<and> ample s' \<and> look s' = (look s)(k := Some (Some v))"
    and tick_keeps: "inv s \<Longrightarrow> tick s = (ok, s') \<Longrightarrow> inv s' \<and> look s' = look s"
    and tick_ample: "ample s \<Longrightarrow> tick s = (ok, s') \<Longrightarrow> ok \<and> ample s'"

subsection \<open>Queue\<close>

text \<open>
  A queue of items that are owned by their clients (an intrusive list): \<open>elems\<close> lists the queued
  items, oldest first; \<open>avail q x\<close> says that \<open>x\<close> may be queued; \<open>none\<close> is what \<open>deq\<close> answers on an empty
  queue. An operation is \<open>None\<close> when it is undefined.
\<close>

primrec enq_all :: "('q \<Rightarrow> 'a \<Rightarrow> 'q option) \<Rightarrow> 'a list \<Rightarrow> 'q \<Rightarrow> 'q option" where
  "enq_all enq [] q = Some q"
| "enq_all enq (x # xs) q = Option.bind (enq q x) (enq_all enq xs)"

primrec deq_many :: "('q \<Rightarrow> ('a \<times> 'q) option) \<Rightarrow> nat \<Rightarrow> 'q \<Rightarrow> ('a list \<times> 'q) option" where
  "deq_many deq 0 q = Some ([], q)"
| "deq_many deq (Suc n) q =
     Option.bind (deq q) (\<lambda>(x, q'). Option.bind (deq_many deq n q') (\<lambda>(xs, q''). Some (x # xs, q'')))"

locale fifo =
  fixes inv :: "'q \<Rightarrow> bool"
    and elems :: "'q \<Rightarrow> 'a list"
    and avail :: "'q \<Rightarrow> 'a \<Rightarrow> bool"
    and none :: 'a
    and enq :: "'q \<Rightarrow> 'a \<Rightarrow> 'q option"
    and deq :: "'q \<Rightarrow> ('a \<times> 'q) option"
  assumes enq_ok: "inv q \<Longrightarrow> avail q x \<Longrightarrow>
      \<exists>q'. enq q x = Some q' \<and> inv q' \<and> elems q' = elems q @ [x] \<and> (\<forall>y. avail q' y \<longleftrightarrow> avail q y \<and> y \<noteq> x)"
    and deq_empty: "inv q \<Longrightarrow> elems q = [] \<Longrightarrow> deq q = Some (none, q)"
    and deq_Cons: "inv q \<Longrightarrow> elems q = x # xs \<Longrightarrow>
      \<exists>q'. deq q = Some (x, q') \<and> inv q' \<and> elems q' = xs \<and> (\<forall>y. avail q' y \<longleftrightarrow> avail q y \<or> y = x)"
begin

lemma enq_all_ok:
  "inv q \<Longrightarrow> distinct xs \<Longrightarrow> (\<And>x. x \<in> set xs \<Longrightarrow> avail q x) \<Longrightarrow>
   \<exists>q'. enq_all enq xs q = Some q' \<and> inv q' \<and> elems q' = elems q @ xs \<and> (\<forall>y. avail q' y \<longleftrightarrow> avail q y \<and> y \<notin> set xs)"
proof (induction xs arbitrary: q)
  case (Cons x xs)
  obtain q1 where q1: "enq q x = Some q1" "inv q1" "elems q1 = elems q @ [x]" "\<forall>y. avail q1 y \<longleftrightarrow> avail q y \<and> y \<noteq> x"
    using enq_ok [of q x] Cons.prems by auto
  have "avail q1 y" if "y \<in> set xs" for y using that Cons.prems(2,3) q1(4) by auto
  then obtain q' where "enq_all enq xs q1 = Some q'" "inv q'" "elems q' = elems q1 @ xs" "\<forall>y. avail q' y \<longleftrightarrow> avail q1 y \<and> y \<notin> set xs"
    using Cons.IH [OF q1(2)] Cons.prems(2) by auto
  with q1 show ?case by auto
qed simp

lemma deq_many_ok:
  "inv q \<Longrightarrow> elems q = xs @ ys \<Longrightarrow> \<exists>q'. deq_many deq (length xs) q = Some (xs, q') \<and> inv q' \<and> elems q' = ys"
proof (induction xs arbitrary: q)
  case (Cons x xs)
  obtain q1 where q1: "deq q = Some (x, q1)" "inv q1" "elems q1 = xs @ ys" using deq_Cons [of q x "xs @ ys"] Cons.prems by auto
  then show ?case using Cons.IH [OF q1(2,3)] by auto
qed simp

text \<open>Items leave the queue in the order in which they entered it, and then the queue is empty.\<close>

lemma deq_after_enq:
  assumes "inv q" and "elems q = []" and "distinct xs" and "\<And>x. x \<in> set xs \<Longrightarrow> avail q x"
  shows "\<exists>q1 q2. enq_all enq xs q = Some q1 \<and> deq_many deq (length xs) q1 = Some (xs, q2) \<and> deq q2 = Some (none, q2)"
proof -
  obtain q1 where q1: "enq_all enq xs q = Some q1" "inv q1" "elems q1 = xs"
    using enq_all_ok [OF assms(1,3,4)] assms(2) by auto
  obtain q2 where "deq_many deq (length xs) q1 = Some (xs, q2)" "inv q2" "elems q2 = []"
    using deq_many_ok [of q1 xs "[]"] q1(2,3) by auto
  then show ?thesis using q1(1) deq_empty by blast
qed

end

end
