(* ===== verification/Hash_Table.thy ===== *)
theory Hash_Table
  imports Buckets Interfaces Complex_Main
begin

text \<open>
  \<open>src/common/hash_table.c\<close>: the chained hash table. The nodes live in an explicit store, so that
  the links and the lifetime of the nodes are part of the model. \<open>ht_rep\<close> is the representation
  invariant and \<open>ht_lookup\<close> the finite map a table stands for; insertion of new keys, overwriting at
  the head of a bucket, resizing and searching are shown to implement it. Removing a node that is
  not the head of its bucket leaves a link to freed memory, which is stated as a theorem.
\<close>

subsection \<open>Data\<close>

text \<open>\<open>key_len\<close> and \<open>value_len\<close> are the lengths of the byte lists.\<close>

record hash_data =
  hd_key :: cstr
  hd_value :: cstr
  hd_hash_code :: u32
  hd_next :: nat

record hash_table =
  table :: "nat list"
  hash_func :: "cstr \<Rightarrow> u32"
  item_count :: int
  capacity :: u32
  load_factor :: rat
  threshold :: int

type_synonym ht_state = "hash_table \<times> hash_data heap"

abbreviation (input) EINVAL :: int where "EINVAL \<equiv> 22"
abbreviation (input) ENOMEM :: int where "ENOMEM \<equiv> 12"

definition INDEX_FOR :: "u32 \<Rightarrow> u32 \<Rightarrow> nat" where
  "INDEX_FOR h len = unat (h AND (len - 1))"

subsection \<open>Operations\<close>

text \<open>The loop that rounds the capacity up to a power of two; \<open>capacity\<close> starts at 1.\<close>

function capacity_loop :: "nat \<Rightarrow> nat \<Rightarrow> nat" where
  "capacity_loop cap target_capacity =
     (if 0 < cap \<and> cap < target_capacity then capacity_loop (2 * cap) target_capacity else cap)"
  by pat_completeness auto
termination by (relation "measure (\<lambda>(c, t). t - c)") auto

declare capacity_loop.simps [simp del]

definition DEFAULT_LOAD_FACTOR :: rat where "DEFAULT_LOAD_FACTOR = 3 / 4"

text \<open>The double nearest to 0.10.\<close>

definition MIN_LOAD_FACTOR :: rat where
  "MIN_LOAD_FACTOR = 3602879701896397 / 36028797018963968"

text \<open>The return code, the table (\<open>None\<close> when it is not touched) and the store. A product of the
  capacity, a power of two, with the load factor is exact in \<open>double\<close>.\<close>

definition hash_table_init ::
  "(cstr \<Rightarrow> u32) \<Rightarrow> int \<Rightarrow> rat \<Rightarrow> hash_data heap \<Rightarrow> int \<times> hash_table option \<times> hash_data heap" where
  "hash_table_init hf init_capacity lf h =
     (if init_capacity < 0 then (EINVAL, None, h)
      else if lf < 0 then (EINVAL, None, h)
      else
        let target = (if init_capacity = 0 then 2 ^ 4
                      else if init_capacity > 2 ^ 30 then 2 ^ 30 else init_capacity);
            lf' = (if lf \<ge> MIN_LOAD_FACTOR \<and> lf \<le> 1 then lf else DEFAULT_LOAD_FACTOR);
            cap = capacity_loop 1 (nat target);
            t = \<lparr>table = [], hash_func = hf, item_count = 0, capacity = of_nat cap,
                 load_factor = lf', threshold = \<lfloor>of_nat cap * lf'\<rfloor>\<rparr>;
            (ok, h') = reserve h
        in if \<not> ok then (ENOMEM, Some t, h')
           else (LFS_OK, Some (t\<lparr>table := replicate cap NULL\<rparr>), h'))"

text \<open>The inner loop of \<open>_hash_table_resize\<close>: every node of the chain at \<open>p\<close> is moved to the front of
  its bucket of the new table \<open>nt\<close>; \<open>n\<close> is \<open>item_count\<close>.\<close>

definition set_hd_next :: "nat \<Rightarrow> hash_data \<Rightarrow> hash_data" where
  "set_hd_next q d = d\<lparr>hd_next := q\<rparr>"

definition rehash_index :: "u32 \<Rightarrow> (cstr \<Rightarrow> u32) \<Rightarrow> hash_data \<Rightarrow> nat" where
  "rehash_index cap hf d = INDEX_FOR (hf (hd_key d)) cap"

definition rehash_chain ::
  "u32 \<Rightarrow> (cstr \<Rightarrow> u32) \<Rightarrow> nat list \<Rightarrow> (nat \<rightharpoonup> hash_data) \<Rightarrow> int \<Rightarrow> nat \<Rightarrow>
   (nat list \<times> (nat \<rightharpoonup> hash_data) \<times> int) option" where
  "rehash_chain cap hf nt c n p = relink hd_next set_hd_next (rehash_index cap hf) nt c n p"

definition rehash_buckets ::
  "u32 \<Rightarrow> (cstr \<Rightarrow> u32) \<Rightarrow> nat list \<Rightarrow> nat list \<Rightarrow> (nat \<rightharpoonup> hash_data) \<Rightarrow> int \<Rightarrow>
   (nat list \<times> (nat \<rightharpoonup> hash_data) \<times> int) option" where
  "rehash_buckets cap hf ps nt c n = relink_all hd_next set_hd_next (rehash_index cap hf) ps nt c n"

text \<open>\<open>new_capacity\<close> is an \<open>int\<close>: from \<open>2 ^ 31\<close> on it is negative and the allocation fails.\<close>

definition hash_table_resize :: "ht_state \<Rightarrow> u32 \<Rightarrow> (int \<times> ht_state) option" where
  "hash_table_resize s new_capacity =
     (let (t, h) = s;
          (ok, h') = reserve h
      in if \<not> ok \<or> 2 ^ 31 \<le> unat new_capacity then Some (ENOMEM, (t, h'))
         else
           case rehash_buckets new_capacity (hash_func t) (table t)
                  (replicate (unat new_capacity) NULL) (cells h') 0 of
             None \<Rightarrow> None
           | Some (nt, c, n) \<Rightarrow>
               Some (0, (t\<lparr>table := nt, item_count := n, capacity := new_capacity,
                           threshold := \<lfloor>of_nat (unat new_capacity) * load_factor t\<rfloor>\<rparr>,
                         h'\<lparr>cells := c\<rparr>)))"

definition has_key :: "cstr \<Rightarrow> hash_data \<Rightarrow> bool" where
  "has_key key d \<longleftrightarrow> hd_key d = key"

definition bucket_find_entry :: "hash_data heap \<Rightarrow> nat \<Rightarrow> cstr \<Rightarrow> nat option" where
  "bucket_find_entry h bucket key = walk (has_key key) hd_next (cells h) bucket"

text \<open>\<open>DELETE_NODE_FROM_HASHTABLE\<close>: with a predecessor only the local variable \<open>phd_pre\<close> is assigned,
  so that the links do not change; the node is freed in both cases.\<close>

definition DELETE_NODE_FROM_HASHTABLE :: "nat \<Rightarrow> nat \<Rightarrow> nat \<Rightarrow> hash_data \<Rightarrow> ht_state \<Rightarrow> ht_state" where
  "DELETE_NODE_FROM_HASHTABLE i phd_pre p d s =
     (let (t, h) = s;
          t' = (if phd_pre = NULL then t\<lparr>table := (table t)[i := hd_next d]\<rparr> else t)
      in (t'\<lparr>item_count := item_count t' - 1\<rparr>, mfree p h))"

definition ADD_NODE_TO_HASHTABLE :: "nat \<Rightarrow> nat \<Rightarrow> hash_data \<Rightarrow> ht_state \<Rightarrow> ht_state" where
  "ADD_NODE_TO_HASHTABLE i p d s =
     (let (t, h) = s in
      (t\<lparr>table := (table t)[i := p], item_count := item_count t + 1\<rparr>,
       store p (d\<lparr>hd_next := table t ! i\<rparr>) h))"

text \<open>The search of \<open>_bucket_add_entry\<close> and the removal of an entry with the same key.\<close>

definition bucket_remove :: "ht_state \<Rightarrow> nat \<Rightarrow> cstr \<Rightarrow> (bool \<times> ht_state) option" where
  "bucket_remove s i key =
     (case walk_pre (has_key key) hd_next (cells (snd s)) NULL (table (fst s) ! i) of
        None \<Rightarrow> None
      | Some (phd_pre, p) \<Rightarrow>
          (case cells (snd s) p of
             Some d \<Rightarrow> Some (True, DELETE_NODE_FROM_HASHTABLE i phd_pre p d s)
           | None \<Rightarrow> Some (False, s)))"

definition bucket_add_entry :: "ht_state \<Rightarrow> nat \<Rightarrow> cstr \<Rightarrow> cstr \<Rightarrow> (int \<times> ht_state) option" where
  "bucket_add_entry s i key val =
     (case bucket_remove s i key of
        None \<Rightarrow> None
      | Some (_, (t, h)) \<Rightarrow>
          let d = \<lparr>hd_key = key, hd_value = val, hd_hash_code = hash_func t key, hd_next = NULL\<rparr>;
              (p, h1) = malloc d h
          in if p = NULL then Some (ENOMEM, (t, h1))
             else
               let (ok, h2) = reserve h1 in
               if \<not> ok then Some (-1, (t, h2))
               else
                 let (ok', h3) = reserve h2 in
                 if \<not> ok' then Some (-1, (t, h3))
                 else Some (0, ADD_NODE_TO_HASHTABLE i p d (t, h3)))"

definition hash_table_put :: "ht_state \<Rightarrow> cstr \<Rightarrow> cstr \<Rightarrow> (int \<times> ht_state) option" where
  "hash_table_put s key val =
     (case (if item_count (fst s) \<ge> threshold (fst s)
            then hash_table_resize s (2 * capacity (fst s)) else Some (0, s)) of
        None \<Rightarrow> None
      | Some (_, s') \<Rightarrow>
          (case bucket_add_entry s' (INDEX_FOR (hash_func (fst s') key) (capacity (fst s'))) key val of
             None \<Rightarrow> None
           | Some (result, s'') \<Rightarrow> Some (if result \<noteq> 0 then LFS_ERROR else LFS_OK, s'')))"

text \<open>The address of the entry, \<open>NULL\<close> when there is none.\<close>

definition hash_table_get :: "ht_state \<Rightarrow> cstr \<Rightarrow> nat option" where
  "hash_table_get s key =
     bucket_find_entry (snd s) (table (fst s) ! INDEX_FOR (hash_func (fst s) key) (capacity (fst s))) key"

definition hash_table_delete :: "ht_state \<Rightarrow> cstr \<Rightarrow> (int \<times> ht_state) option" where
  "hash_table_delete s key =
     (case bucket_remove s (INDEX_FOR (hash_func (fst s) key) (capacity (fst s))) key of
        None \<Rightarrow> None
      | Some (True, s') \<Rightarrow> Some (LFS_OK, s')
      | Some (False, s') \<Rightarrow> Some (LFS_ERROR, s'))"

definition hash_table_count :: "ht_state \<Rightarrow> int" where
  "hash_table_count s = item_count (fst s)"

partial_function (option) free_chain ::
  "(nat \<rightharpoonup> hash_data) \<Rightarrow> nat \<Rightarrow> (nat \<rightharpoonup> hash_data) option" where
  [code]: "free_chain c p =
     (if p = NULL then Some c
      else case c p of None \<Rightarrow> None | Some d \<Rightarrow> free_chain (c(p := None)) (hd_next d))"

primrec free_buckets :: "nat list \<Rightarrow> (nat \<rightharpoonup> hash_data) \<Rightarrow> (nat \<rightharpoonup> hash_data) option" where
  "free_buckets [] c = Some c"
| "free_buckets (p # ps) c =
     (case free_chain c p of None \<Rightarrow> None | Some c' \<Rightarrow> free_buckets ps c')"

definition hash_table_free :: "ht_state \<Rightarrow> ht_state option" where
  "hash_table_free s =
     (case free_buckets (table (fst s)) (cells (snd s)) of
        None \<Rightarrow> None
      | Some c \<Rightarrow> Some ((fst s)\<lparr>table := []\<rparr>, (snd s)\<lparr>cells := c\<rparr>))"

subsection \<open>Representation\<close>

text \<open>\<open>bs\<close> lists the addresses of the nodes of every bucket.\<close>

definition ht_rep :: "ht_state \<Rightarrow> nat list list \<Rightarrow> bool" where
  "ht_rep s bs \<longleftrightarrow>
     heap_ok (snd s) \<and> 0 < unat (capacity (fst s)) \<and> length (table (fst s)) = unat (capacity (fst s)) \<and>
     list_all2 (chain hd_next (cells (snd s))) (table (fst s)) bs \<and>
     distinct (concat bs) \<and>
     (\<forall>i < length bs. \<forall>x \<in> set (bs ! i). \<exists>d. cells (snd s) x = Some d \<and>
        INDEX_FOR (hash_func (fst s) (hd_key d)) (capacity (fst s)) = i) \<and>
     inj_on (\<lambda>x. hd_key (the (cells (snd s) x))) (set (concat bs)) \<and>
     item_count (fst s) = int (length (concat bs)) \<and> unat (capacity (fst s)) < 2 ^ 31"

definition node_kv :: "(nat \<rightharpoonup> hash_data) \<Rightarrow> nat \<Rightarrow> cstr \<times> cstr" where
  "node_kv c x = (hd_key (the (c x)), hd_value (the (c x)))"

definition ht_lookup :: "ht_state \<Rightarrow> nat list list \<Rightarrow> cstr \<rightharpoonup> cstr" where
  "ht_lookup s bs = map_of (map (node_kv (cells (snd s))) (concat bs))"

lemma INDEX_FOR_less: "0 < unat cap \<Longrightarrow> INDEX_FOR h cap < unat cap"
  unfolding INDEX_FOR_def by (rule unat_and_minus_1_less)

text \<open>The searched bucket decides the lookup.\<close>

lemma ht_rep_bucket:
  assumes rep: "ht_rep s bs" and "i = INDEX_FOR (hash_func (fst s) key) (capacity (fst s))"
  shows "i < length bs" "i < length (table (fst s))"
    "chain hd_next (cells (snd s)) (table (fst s) ! i) (bs ! i)"
    "x \<in> set (concat bs) \<Longrightarrow> hd_key (the (cells (snd s) x)) = key \<Longrightarrow> x \<in> set (bs ! i)"
proof -
  have l: "length bs = unat (capacity (fst s))" "length (table (fst s)) = unat (capacity (fst s))"
    using rep by (auto simp: ht_rep_def dest: list_all2_lengthD)
  then show i: "i < length bs" "i < length (table (fst s))"
    using INDEX_FOR_less rep assms(2) by (auto simp: ht_rep_def)
  then show "chain hd_next (cells (snd s)) (table (fst s) ! i) (bs ! i)"
    using rep list_all2_nthD unfolding ht_rep_def by blast
  assume "x \<in> set (concat bs)" "hd_key (the (cells (snd s) x)) = key"
  then obtain j where "j < length bs" "x \<in> set (bs ! j)" by (metis in_set_conv_nth set_concat UN_E)
  moreover then have "INDEX_FOR (hash_func (fst s) key) (capacity (fst s)) = j"
    using rep \<open>hd_key _ = key\<close> unfolding ht_rep_def by fastforce
  ultimately show "x \<in> set (bs ! i)" using assms(2) by simp
qed

lemma ht_lookup_Some:
  assumes "ht_rep s bs" and "x \<in> set (concat bs)" and "cells (snd s) x = Some d"
  shows "ht_lookup s bs (hd_key d) = Some (hd_value d)"
proof -
  have "distinct (map fst (map (node_kv (cells (snd s))) (concat bs)))"
    using assms(1) by (simp add: ht_rep_def distinct_map node_kv_def comp_def)
  moreover have "(hd_key d, hd_value d) \<in> set (map (node_kv (cells (snd s))) (concat bs))"
    using assms(2,3) by (force simp: node_kv_def)
  ultimately show ?thesis unfolding ht_lookup_def by (rule map_of_is_SomeI)
qed

lemma ht_lookup_None_iff:
  "ht_lookup s bs key = None \<longleftrightarrow> (\<forall>x \<in> set (concat bs). hd_key (the (cells (snd s) x)) \<noteq> key)"
  by (auto simp: ht_lookup_def map_of_eq_None_iff node_kv_def image_iff)

subsection \<open>Searching\<close>

lemma hash_table_get_spec:
  assumes rep: "ht_rep s bs"
  shows "\<exists>p. hash_table_get s key = Some p \<and>
    (case ht_lookup s bs key of
       None \<Rightarrow> p = NULL
     | Some v \<Rightarrow> p \<noteq> NULL \<and> (\<exists>d. cells (snd s) p = Some d \<and> hd_key d = key \<and> hd_value d = v))"
proof -
  define i where "i = INDEX_FOR (hash_func (fst s) key) (capacity (fst s))"
  note b = ht_rep_bucket [OF rep i_def]
  let ?P = "node_sat (has_key key) (cells (snd s))"
  have get: "hash_table_get s key = Some (case find ?P (bs ! i) of None \<Rightarrow> NULL | Some x \<Rightarrow> x)"
    unfolding hash_table_get_def bucket_find_entry_def i_def [symmetric] by (rule walk_chain [OF b(3)])
  show ?thesis
  proof (cases "find ?P (bs ! i)")
    case None
    then have "\<not> ?P x" if "x \<in> set (bs ! i)" for x using that by (simp add: find_None_iff)
    then have "ht_lookup s bs key = None"
      unfolding ht_lookup_None_iff using b(4) chain_in_dom [OF b(3)]
      by (fastforce simp: node_sat_def has_key_def)
    with get None show ?thesis by simp
  next
    case (Some x)
    then have x: "x \<in> set (bs ! i)" "?P x" by (auto simp: find_Some_iff)
    then obtain d where d: "cells (snd s) x = Some d" "hd_key d = key"
      by (auto simp: node_sat_def has_key_def split: option.splits)
    have "x \<in> set (concat bs)" using x(1) b(1) by auto
    then have "ht_lookup s bs key = Some (hd_value d)" using ht_lookup_Some [OF rep _ d(1)] d(2) by simp
    moreover have "x \<noteq> NULL" using chain_neq_NULL [OF b(3)] x(1) by metis
    ultimately show ?thesis using get Some d by simp
  qed
qed

subsection \<open>Rehashing\<close>

interpretation hd: link_node hd_next set_hd_next
  by unfold_locales (simp_all add: set_hd_next_def)

lemma rehash_buckets_spec:
  assumes "list_all2 (chain hd_next c) ps bss" and "list_all2 (chain hd_next c) nt bs"
    and "distinct (concat bss @ concat bs)" and "0 < unat cap" and "length nt = unat cap"
  shows "\<exists>nt' c'. rehash_buckets cap hf ps nt c n = Some (nt', c', n + int (length (concat bss))) \<and>
    list_all2 (chain hd_next c') nt' (fold (push_node (node_ix (rehash_index cap hf) c)) (concat bss) bs) \<and>
    length nt' = length nt \<and> (\<forall>x. x \<notin> set (concat bss) \<longrightarrow> c' x = c x) \<and>
    (\<forall>x \<in> set (concat bss). \<exists>d q. c x = Some d \<and> c' x = Some (set_hd_next q d))"
proof -
  have "rehash_index cap hf d < length nt" "rehash_index cap hf (set_hd_next q d) = rehash_index cap hf d" for d q
    using INDEX_FOR_less [OF assms(4)] assms(5) by (simp_all add: rehash_index_def set_hd_next_def)
  then show ?thesis unfolding rehash_buckets_def by (intro hd.relink_all_spec [OF assms(1-3)])
qed

lemma ht_keys_distinct:
  "ht_rep s bs \<Longrightarrow> distinct (map fst (map (node_kv (cells (snd s))) (concat bs)))"
  by (simp add: ht_rep_def distinct_map node_kv_def comp_def)

lemma ht_lookup_same:
  assumes "ht_rep s bs" and "ht_rep s' bs'"
    and "(\<lambda>x. node_kv (cells (snd s')) x) ` set (concat bs') = (\<lambda>x. node_kv (cells (snd s)) x) ` set (concat bs)"
  shows "ht_lookup s' bs' = ht_lookup s bs"
proof -
  have "set (map (node_kv (cells (snd s'))) (concat bs')) = set (map (node_kv (cells (snd s))) (concat bs))"
    using assms(3) by (simp only: set_map)
  then show ?thesis
    unfolding ht_lookup_def
    by (simp only: map_of_inject_set [OF ht_keys_distinct [OF assms(2)] ht_keys_distinct [OF assms(1)]])
qed

lemma hash_table_resize_spec:
  assumes rep: "ht_rep s bs" and nc: "0 < unat nc"
  shows "\<exists>r s' bs'. hash_table_resize s nc = Some (r, s') \<and> ht_rep s' bs' \<and>
    ht_lookup s' bs' = ht_lookup s bs \<and> hash_func (fst s') = hash_func (fst s) \<and>
    oom (snd s') = oom (snd s)"
proof -
  obtain t h where s: "s = (t, h)" by (cases s)
  obtain ok h' where h': "reserve h = (ok, h')" by (cases "reserve h")
  have c: "cells h' = cells h" "heap_ok h'" "oom h' = oom h"
    using reserve_keeps [OF h'] heap_ok_reserve [OF _ h'] rep by (simp_all add: s ht_rep_def)
  show ?thesis
  proof (cases "\<not> ok \<or> 2 ^ 31 \<le> unat nc")
    case True
    moreover have "ht_rep (t, h') bs" using rep c by (simp add: s ht_rep_def)
    moreover have "ht_lookup (t, h') bs = ht_lookup s bs" by (simp add: s ht_lookup_def c)
    ultimately show ?thesis
      using h' c by (intro exI [of _ ENOMEM] exI [of _ "(t, h')"] exI [of _ bs])
        (auto simp: hash_table_resize_def s)
  next
    case False
    let ?es = "replicate (unat nc) []" and ?hf = "hash_func t"
    let ?ix = "node_ix (rehash_index nc ?hf) (cells h)"
    let ?bs = "fold (push_node ?ix) (concat bs) ?es"
    have e: "list_all2 (chain hd_next (cells h')) (replicate (unat nc) NULL) ?es"
      by (simp add: list_all2_conv_all_nth)
    have "list_all2 (chain hd_next (cells h')) (table t) bs" "distinct (concat bs @ concat ?es)"
      using rep c by (auto simp: s ht_rep_def)
    from rehash_buckets_spec [OF this(1) e this(2) nc length_replicate, of ?hf 0,
        unfolded c(1) add_0 length_replicate]
    obtain nt c' where r: "rehash_buckets nc ?hf (table t) (replicate (unat nc) NULL) (cells h) 0
        = Some (nt, c', int (length (concat bs)))"
      and l: "list_all2 (chain hd_next c') nt ?bs" "length nt = unat nc"
      and k1: "\<And>x. x \<notin> set (concat bs) \<Longrightarrow> c' x = cells h x"
      and k2: "\<And>x. x \<in> set (concat bs) \<Longrightarrow> \<exists>d q. cells h x = Some d \<and> c' x = Some (set_hd_next q d)"
      by blast
    define s' where "s' = (t\<lparr>table := nt, item_count := int (length (concat bs)), capacity := nc,
        threshold := \<lfloor>of_nat (unat nc) * load_factor t\<rfloor>\<rparr>, h'\<lparr>cells := c'\<rparr>)"
    have res: "hash_table_resize s nc = Some (0, s')"
      using False r h' by (simp add: hash_table_resize_def s s'_def c(1))
    have kv: "node_kv c' x = node_kv (cells h) x" for x
      using k1 k2 [of x] by (cases "x \<in> set (concat bs)") (auto simp: node_kv_def set_hd_next_def)
    have lt: "?ix x < length ?es" for x using INDEX_FOR_less [OF nc] by (simp add: node_ix_def rehash_index_def)
    have ms: "mset (concat ?bs) = mset (concat bs)" using lt by (simp add: mset_concat_fold_push)
    then have sets: "set (concat ?bs) = set (concat bs)" by (metis set_mset_mset)
    have rep': "ht_rep s' ?bs"
      unfolding ht_rep_def
    proof (intro conjI)
      have "dom c' = dom (cells h)"
        using k1 k2 by (auto simp: dom_def) (metis option.distinct(1))+
      then show "heap_ok (snd s')" using c(2) by (simp add: s'_def heap_ok_def c(1))
      show "distinct (concat ?bs)" using rep ms by (metis ht_rep_def mset_eq_imp_distinct_iff)
      show "item_count (fst s') = int (length (concat ?bs))"
        using ms by (simp add: s'_def) (metis size_mset)
      have "inj_on (\<lambda>x. fst (node_kv (cells h) x)) (set (concat bs))"
        using rep by (simp add: s ht_rep_def node_kv_def)
      then have "inj_on (\<lambda>x. fst (node_kv c' x)) (set (concat ?bs))" unfolding kv sets .
      then show "inj_on (\<lambda>x. hd_key (the (cells (snd s') x))) (set (concat ?bs))"
        by (simp add: s'_def node_kv_def)
      show "\<forall>i<length ?bs. \<forall>x\<in>set (?bs ! i). \<exists>d. cells (snd s') x = Some d \<and>
          INDEX_FOR (hash_func (fst s') (hd_key d)) (capacity (fst s')) = i"
      proof (intro allI impI ballI)
        fix i x assume i: "i < length ?bs" and x: "x \<in> set (?bs ! i)"
        have "?ix x = i" by (rule fold_push_index [of ?es _ i x "concat bs"]) (use i x in simp_all)
        moreover have "x \<in> set (concat bs)" using sets i x by (metis UN_I nth_mem set_concat)
        ultimately show "\<exists>d. cells (snd s') x = Some d \<and>
            INDEX_FOR (hash_func (fst s') (hd_key d)) (capacity (fst s')) = i"
          using k2 [of x] by (auto simp: s'_def node_ix_def rehash_index_def set_hd_next_def)
      qed
    qed (use nc l False in \<open>simp_all add: s'_def\<close>)
    moreover have "ht_lookup s' ?bs = ht_lookup s bs"
      by (rule ht_lookup_same [OF rep rep']) (simp only: sets, simp add: s'_def s kv)
    ultimately show ?thesis using res c(3) by (auto simp: s s'_def)
  qed
qed

subsection \<open>Insertion and removal\<close>

lemma ht_repD:
  assumes "ht_rep (t, h) bs"
  shows "heap_ok h" "0 < unat (capacity t)" "length (table t) = unat (capacity t)"
    "list_all2 (chain hd_next (cells h)) (table t) bs" "distinct (concat bs)"
    "\<And>i x. i < length bs \<Longrightarrow> x \<in> set (bs ! i) \<Longrightarrow>
      \<exists>d. cells h x = Some d \<and> INDEX_FOR (hash_func t (hd_key d)) (capacity t) = i"
    "inj_on (\<lambda>x. hd_key (the (cells h x))) (set (concat bs))" "item_count t = int (length (concat bs))"
    "unat (capacity t) < 2 ^ 31"
  using assms unfolding ht_rep_def fst_conv snd_conv by blast+

lemma ht_rep_cong:
  assumes rep: "ht_rep (t, h) bs" and "heap_ok h'"
    and eq: "\<And>x. x \<in> set (concat bs) \<Longrightarrow> cells h x = cells h' x"
  shows "ht_rep (t, h') bs" "ht_lookup (t, h') bs = ht_lookup (t, h) bs"
proof -
  note r = ht_repD [OF rep]
  have "list_all2 (chain hd_next (cells h')) (table t) bs" by (rule chains_cong [OF r(4) eq])
  moreover have "inj_on (\<lambda>x. hd_key (the (cells h' x))) (set (concat bs))"
    using inj_on_cong [of "set (concat bs)" "\<lambda>x. hd_key (the (cells h x))" "\<lambda>x. hd_key (the (cells h' x))"]
      eq r(7) by metis
  moreover have "\<exists>d. cells h' x = Some d \<and> INDEX_FOR (hash_func t (hd_key d)) (capacity t) = i"
    if "i < length bs" "x \<in> set (bs ! i)" for i x
  proof -
    have "x \<in> set (concat bs)" using that by auto
    then show ?thesis using eq r(6) [OF that] by metis
  qed
  ultimately show "ht_rep (t, h') bs"
    using r(2,3,5,8,9) assms(2) unfolding ht_rep_def fst_conv snd_conv by blast
  have "map (node_kv (cells h')) (concat bs) = map (node_kv (cells h)) (concat bs)"
    by (rule map_cong [OF refl]) (simp only: node_kv_def eq)
  then show "ht_lookup (t, h') bs = ht_lookup (t, h) bs" by (simp only: ht_lookup_def snd_conv)
qed

lemma ht_add_node:
  assumes rep: "ht_rep (t, h) bs" and p: "p \<noteq> NULL" "cells h p = Some d" "p \<notin> set (concat bs)"
    and fresh: "ht_lookup (t, h) bs (hd_key d) = None"
    and i: "i = INDEX_FOR (hash_func t (hd_key d)) (capacity t)"
  defines "bs' \<equiv> bs[i := p # bs ! i]"
  shows "ht_rep (ADD_NODE_TO_HASHTABLE i p d (t, h)) bs'"
    and "ht_lookup (ADD_NODE_TO_HASHTABLE i p d (t, h)) bs' = (ht_lookup (t, h) bs)(hd_key d \<mapsto> hd_value d)"
proof -
  note r = ht_repD [OF rep]
  let ?s = "ADD_NODE_TO_HASHTABLE i p d (t, h)"
  let ?d = "d\<lparr>hd_next := table t ! i\<rparr>"
  let ?c = "(cells h)(p \<mapsto> ?d)"
  have s: "cells (snd ?s) = ?c" "table (fst ?s) = (table t)[i := p]" "hash_func (fst ?s) = hash_func t"
    "capacity (fst ?s) = capacity t" "item_count (fst ?s) = item_count t + 1"
    by (simp_all add: ADD_NODE_TO_HASHTABLE_def mem_simps)
  note b = ht_rep_bucket [OF rep, of i "hd_key d", unfolded fst_conv snd_conv, OF i]
  have ms: "mset (concat bs') = mset (p # concat bs)" using b(1) by (simp add: bs'_def mset_concat_update)
  then have sets: "set (concat bs') = insert p (set (concat bs))" by (metis set_mset_mset list.set(2))
  have dist: "distinct (concat bs')"
    using rep p(3) ms by (metis distinct.simps(2) ht_rep_def mset_eq_imp_distinct_iff)
  have kv: "node_kv ?c x = node_kv (cells h) x" for x using p(2) by (simp add: node_kv_def)
  have inj: "inj_on (\<lambda>x. hd_key (the (?c x))) (set (concat bs'))"
  proof -
    have "hd_key (the (?c x)) = hd_key (the (cells h x))" for x using p(2) by simp
    moreover have "hd_key (the (cells h p)) \<notin> (\<lambda>x. hd_key (the (cells h x))) ` (set (concat bs) - {p})"
      using fresh p(2) unfolding ht_lookup_None_iff snd_conv by fastforce
    then have "inj_on (\<lambda>x. hd_key (the (cells h x))) (insert p (set (concat bs)))"
      using r(7) by (simp only: inj_on_insert simp_thms)
    ultimately show ?thesis unfolding sets by (simp only:)
  qed
  show rep': "ht_rep ?s bs'"
    unfolding ht_rep_def s
  proof (intro conjI)
    show "heap_ok (snd ?s)"
      using r(1) p(2) by (simp add: ADD_NODE_TO_HASHTABLE_def heap_ok_store domI)
    show "list_all2 (chain hd_next ?c) ((table t)[i := p]) bs'"
      unfolding bs'_def by (rule chains_push [OF r(4) b(2) _ p(1,3)]) simp
    show "item_count t + 1 = int (length (concat bs'))"
      using r(8) arg_cong [OF ms, of size] by simp
    show "\<forall>j<length bs'. \<forall>x\<in>set (bs' ! j). \<exists>d. ?c x = Some d \<and>
        INDEX_FOR (hash_func t (hd_key d)) (capacity t) = j"
    proof (intro allI impI ballI)
      fix j x assume "j < length bs'" "x \<in> set (bs' ! j)"
      then show "\<exists>d. ?c x = Some d \<and> INDEX_FOR (hash_func t (hd_key d)) (capacity t) = j"
        using r(6) [of j x] i b(1) p(2,3) by (cases "j = i"; cases "x = p") (auto simp: bs'_def)
    qed
  qed (use r(2,3,9) dist inj in simp_all)
  have "distinct (map fst (map (node_kv ?c) (p # concat bs)))"
  proof -
    have "distinct (p # concat bs)" using r(5) p(3) by simp
    then show ?thesis
      using inj by (simp only: sets distinct_map map_map comp_def node_kv_def fst_conv list.set(2) simp_thms)
  qed
  moreover have "set (map (node_kv ?c) (concat bs')) = set (map (node_kv ?c) (p # concat bs))"
    by (simp only: set_map sets list.set(2))
  ultimately have "map_of (map (node_kv ?c) (concat bs')) = map_of (map (node_kv ?c) (p # concat bs))"
    using ht_keys_distinct [OF rep'] map_of_inject_set unfolding s(1) by blast
  then have "ht_lookup ?s bs' = map_of (map (node_kv (cells h)) (p # concat bs))"
    unfolding ht_lookup_def s(1) kv .
  then show "ht_lookup ?s bs' = (ht_lookup (t, h) bs)(hd_key d \<mapsto> hd_value d)"
    by (simp add: ht_lookup_def node_kv_def p(2))
qed

text \<open>Without an entry for the key, the search of the bucket leaves the table as it is.\<close>

lemma bucket_remove_absent:
  assumes rep: "ht_rep (t, h) bs" and none: "ht_lookup (t, h) bs key = None"
    and i: "i = INDEX_FOR (hash_func t key) (capacity t)"
  shows "bucket_remove (t, h) i key = Some (False, (t, h))"
proof -
  note b = ht_rep_bucket [OF rep, of i key, unfolded fst_conv snd_conv, OF i]
  have "\<not> node_sat (has_key key) (cells h) x" if "x \<in> set (bs ! i)" for x
  proof -
    have "x \<in> set (concat bs)" using that b(1) by auto
    then have "hd_key (the (cells h x)) \<noteq> key" using none unfolding ht_lookup_None_iff snd_conv by blast
    then show ?thesis by (auto simp: node_sat_def has_key_def split: option.splits)
  qed
  then have "walk_pre (has_key key) hd_next (cells h) NULL (table t ! i) = Some (last (NULL # bs ! i), NULL)"
    by (rule walk_pre_chain_None [OF b(3)])
  then show ?thesis
    using heap_ok_NULL [OF ht_repD(1) [OF rep]] by (simp add: bucket_remove_def)
qed

lemma mset_concat_tl:
  "i < length bs \<Longrightarrow> bs ! i = x # xs \<Longrightarrow> mset (concat bs) = add_mset x (mset (concat (bs[i := xs])))"
proof (induction bs arbitrary: i)
  case (Cons b bs)
  then show ?case by (cases i) auto
qed simp

lemma ht_remove_head:
  assumes rep: "ht_rep (t, h) bs" and b: "i < length bs" "bs ! i = x # xs" and d: "cells h x = Some d"
  defines "bs' \<equiv> bs[i := xs]"
  shows "ht_rep (DELETE_NODE_FROM_HASHTABLE i NULL x d (t, h)) bs'"
    and "ht_lookup (DELETE_NODE_FROM_HASHTABLE i NULL x d (t, h)) bs' = (ht_lookup (t, h) bs)(hd_key d := None)"
proof -
  note r = ht_repD [OF rep]
  let ?s = "DELETE_NODE_FROM_HASHTABLE i NULL x d (t, h)"
  let ?c = "(cells h)(x := None)"
  have s: "cells (snd ?s) = ?c" "table (fst ?s) = (table t)[i := hd_next d]" "hash_func (fst ?s) = hash_func t"
    "capacity (fst ?s) = capacity t" "item_count (fst ?s) = item_count t - 1"
    by (simp_all add: DELETE_NODE_FROM_HASHTABLE_def mem_simps)
  have ms: "mset (concat bs) = mset (x # concat bs')" using mset_concat_tl [OF b] by (simp add: bs'_def)
  then have sets: "set (concat bs) = insert x (set (concat bs'))" by (metis set_mset_mset list.set(2))
  have dist: "distinct (x # concat bs')" using r(5) ms by (metis mset_eq_imp_distinct_iff)
  then have x: "x \<notin> set (concat bs')" by simp
  have len: "length (table t) = length bs" using r(4) by (rule list_all2_lengthD)
  have keep: "cells h y = ?c y" if "y \<in> set (concat bs')" for y using that x by auto
  show rep': "ht_rep ?s bs'"
    unfolding ht_rep_def s
  proof (intro conjI)
    show "heap_ok (snd ?s)"
      using r(1) by (simp add: DELETE_NODE_FROM_HASHTABLE_def heap_ok_mfree)
    have "list_all2 (chain hd_next (cells h)) ((table t)[i := hd_next d]) bs'"
      unfolding bs'_def
    proof (rule list_all2_update_cong [OF r(4)])
      have "chain hd_next (cells h) (table t ! i) (x # xs)"
        using r(4) b len list_all2_nthD [of "chain hd_next (cells h)" "table t" bs i] by simp
      then show "chain hd_next (cells h) (hd_next d) xs" using d by simp
    qed
    then show "list_all2 (chain hd_next ?c) ((table t)[i := hd_next d]) bs'"
      by (rule chains_cong) (rule keep)
    show "item_count t - 1 = int (length (concat bs'))"
      using r(8) arg_cong [OF ms, of size] by simp
    show "inj_on (\<lambda>x. hd_key (the (?c x))) (set (concat bs'))"
      using r(7) keep unfolding sets by (metis (no_types, lifting) inj_on_cong inj_on_insert)
    show "\<forall>j<length bs'. \<forall>y\<in>set (bs' ! j). \<exists>d. ?c y = Some d \<and>
        INDEX_FOR (hash_func t (hd_key d)) (capacity t) = j"
    proof (intro allI impI ballI)
      fix j y assume jy: "j < length bs'" "y \<in> set (bs' ! j)"
      then have "y \<in> set (concat bs')" by auto
      moreover have "j < length bs" "y \<in> set (bs ! j)"
        using jy b by (cases "j = i"; auto simp: bs'_def)+
      ultimately show "\<exists>d. ?c y = Some d \<and> INDEX_FOR (hash_func t (hd_key d)) (capacity t) = j"
        using r(6) [of j y] keep by metis
    qed
  qed (use r(2,3,9) dist in simp_all)
  have kv: "map (node_kv ?c) (concat bs') = map (node_kv (cells h)) (concat bs')"
    by (rule map_cong [OF refl]) (simp only: node_kv_def keep)
  have "distinct (map fst (map (node_kv (cells h)) (x # concat bs')))"
    using r(7) dist by (simp only: sets distinct_map map_map comp_def node_kv_def fst_conv list.set(2) simp_thms)
  moreover have "set (map (node_kv (cells h)) (concat bs)) = set (map (node_kv (cells h)) (x # concat bs'))"
    by (simp only: set_map sets list.set(2))
  ultimately have "map_of (map (node_kv (cells h)) (concat bs)) = map_of (map (node_kv (cells h)) (x # concat bs'))"
    using ht_keys_distinct [OF rep] map_of_inject_set unfolding snd_conv by blast
  then have "ht_lookup (t, h) bs = (ht_lookup ?s bs')(hd_key d \<mapsto> hd_value d)"
    unfolding ht_lookup_def s(1) kv snd_conv by (simp add: node_kv_def d)
  moreover have "ht_lookup ?s bs' (hd_key d) = None"
    unfolding ht_lookup_None_iff s(1)
  proof (intro ballI notI)
    fix y assume y: "y \<in> set (concat bs')" and "hd_key (the (?c y)) = hd_key d"
    then have "hd_key (the (cells h y)) = hd_key (the (cells h x))" using keep [OF y] d by simp
    then have "y = x" using inj_onD [OF r(7) [unfolded sets]] y by blast
    then show False using x y by blast
  qed
  ultimately show "ht_lookup ?s bs' = (ht_lookup (t, h) bs)(hd_key d := None)" by auto
qed

lemma bucket_remove_head:
  assumes rep: "ht_rep (t, h) bs" and i: "i = INDEX_FOR (hash_func t key) (capacity t)"
    and b: "bs ! i = x # xs" and d: "cells h x = Some d" "hd_key d = key"
  shows "bucket_remove (t, h) i key = Some (True, DELETE_NODE_FROM_HASHTABLE i NULL x d (t, h))"
proof -
  note bk = ht_rep_bucket [OF rep, of i key, unfolded fst_conv snd_conv, OF i]
  have "walk_pre (has_key key) hd_next (cells h) NULL (table t ! i) = Some (last (NULL # []), x)"
    by (rule walk_pre_chain_Some [of _ _ _ "[]" x xs]) (use bk(3) b d in \<open>simp_all add: node_sat_def has_key_def\<close>)
  then show ?thesis using d by (simp add: bucket_remove_def)
qed

text \<open>The entry for \<open>key\<close>, when there is one, is the first of its bucket.\<close>

definition at_head :: "ht_state \<Rightarrow> nat list list \<Rightarrow> cstr \<Rightarrow> bool" where
  "at_head s bs key \<longleftrightarrow>
     ht_lookup s bs key = None \<or>
     (case bs ! INDEX_FOR (hash_func (fst s) key) (capacity (fst s)) of
        [] \<Rightarrow> False
      | x # _ \<Rightarrow> node_sat (has_key key) (cells (snd s)) x)"

lemma bucket_remove_spec:
  assumes rep: "ht_rep (t, h) bs" and hd: "at_head (t, h) bs key"
    and i: "i = INDEX_FOR (hash_func t key) (capacity t)"
  shows "\<exists>b t' h' bs'. bucket_remove (t, h) i key = Some (b, (t', h')) \<and> ht_rep (t', h') bs' \<and>
    ht_lookup (t', h') bs' = (ht_lookup (t, h) bs)(key := None) \<and> (b \<longleftrightarrow> ht_lookup (t, h) bs key \<noteq> None) \<and>
    hash_func t' = hash_func t \<and> capacity t' = capacity t \<and> oom h' = oom h"
proof (cases "ht_lookup (t, h) bs key")
  case None
  then have "(ht_lookup (t, h) bs)(key := None) = ht_lookup (t, h) bs" by auto
  then show ?thesis
    using bucket_remove_absent [OF rep None i] rep None
    by (intro exI [of _ False] exI [of _ t] exI [of _ h] exI [of _ bs]) simp
next
  case (Some v)
  then obtain x xs where x: "bs ! i = x # xs" "node_sat (has_key key) (cells h) x"
    using hd i by (auto simp: at_head_def split: list.splits)
  then obtain d where d: "cells h x = Some d" "hd_key d = key"
    by (auto simp: node_sat_def has_key_def split: option.splits)
  have il: "i < length bs" using ht_rep_bucket(1) [OF rep, of i key] i by simp
  obtain t' h' where s': "DELETE_NODE_FROM_HASHTABLE i NULL x d (t, h) = (t', h')" by fastforce
  then have "hash_func t' = hash_func t" "capacity t' = capacity t" "oom h' = oom h"
    by (auto simp: DELETE_NODE_FROM_HASHTABLE_def mfree_def)
  then show ?thesis
    using bucket_remove_head [OF rep i x(1) d] ht_remove_head [OF rep il x(1) d(1)] s' d(2) Some by auto
qed

lemma bucket_add_entry_spec:
  assumes rep: "ht_rep (t, h) bs" and hd: "at_head (t, h) bs key"
    and i: "i = INDEX_FOR (hash_func t key) (capacity t)"
  shows "\<exists>r s' bs'. bucket_add_entry (t, h) i key val = Some (r, s') \<and> ht_rep s' bs' \<and>
    ht_lookup s' bs' = (ht_lookup (t, h) bs)(key := (if r = 0 then Some val else None)) \<and>
    ((\<forall>n. \<not> oom h n) \<longrightarrow> r = 0) \<and> hash_func (fst s') = hash_func t \<and> oom (snd s') = oom h"
proof -
  obtain b t1 h1 bs1 where rm: "bucket_remove (t, h) i key = Some (b, (t1, h1))"
    and rep1: "ht_rep (t1, h1) bs1" and l1: "ht_lookup (t1, h1) bs1 = (ht_lookup (t, h) bs)(key := None)"
    and f1: "hash_func t1 = hash_func t" "capacity t1 = capacity t" "oom h1 = oom h"
    using bucket_remove_spec [OF rep hd i] by blast
  define d where "d = \<lparr>hd_key = key, hd_value = val, hd_hash_code = hash_func t1 key, hd_next = NULL\<rparr>"
  obtain p h2 where m: "malloc d h1 = (p, h2)" by fastforce
  obtain ok3 h3 where v3: "reserve h2 = (ok3, h3)" by fastforce
  obtain ok4 h4 where v4: "reserve h3 = (ok4, h4)" by fastforce
  have ok1: "heap_ok h1" using ht_repD(1) [OF rep1] .
  have ok: "heap_ok h2" "heap_ok h3" "heap_ok h4"
    using heap_ok_malloc [OF ok1 m] heap_ok_reserve v3 v4 by blast+
  have cs: "cells h3 = cells h2" "cells h4 = cells h2" "oom h4 = oom h" "oom h3 = oom h" "oom h2 = oom h"
    using reserve_keeps v3 v4 malloc_keeps_oom [OF m] f1(3) by metis+
  have dom: "x \<in> set (concat bs1) \<Longrightarrow> \<exists>n. cells h1 x = Some n" for x
    using ht_repD(6) [OF rep1] by (auto simp: in_set_conv_nth) (metis nth_mem)
  have keep: "cells h1 x = cells h2 x" if "x \<in> set (concat bs1)" for x
  proof (cases "p = NULL")
    case True
    then show ?thesis using malloc_NULL [OF ok1] m by simp
  next
    case False
    then show ?thesis using malloc_fresh [OF ok1 m] dom [OF that] by auto
  qed
  have r2: "ht_rep (t1, g) bs1" "ht_lookup (t1, g) bs1 = (ht_lookup (t, h) bs)(key := None)"
    if "heap_ok g" "cells g = cells h2" for g
    using ht_rep_cong [OF rep1 that(1)] keep that(2) l1 by auto
  show ?thesis
  proof (cases "p = NULL \<or> \<not> ok3 \<or> \<not> ok4")
    case True
    define g where "g = (if p = NULL then h2 else if \<not> ok3 then h3 else h4)"
    have "bucket_add_entry (t, h) i key val = Some (if p = NULL then ENOMEM else -1, (t1, g))"
      using True rm m v3 v4 by (auto simp: bucket_add_entry_def d_def g_def)
    moreover have "ht_rep (t1, g) bs1" "ht_lookup (t1, g) bs1 = (ht_lookup (t, h) bs)(key := None)"
      using r2 [of g] ok cs by (auto simp: g_def)
    moreover have "\<exists>n. oom h n"
      using True m v3 v4 cs f1 ok1 by (auto simp: malloc_def reserve_def heap_ok_def split: if_splits)
    ultimately show ?thesis using f1 cs by (auto simp: g_def)
  next
    case False
    let ?s = "ADD_NODE_TO_HASHTABLE i p d (t1, h4)"
    have add: "bucket_add_entry (t, h) i key val = Some (0, ?s)"
      using False rm m v3 v4 by (simp add: bucket_add_entry_def d_def)
    have p: "p \<noteq> NULL" "cells h4 p = Some d" "p \<notin> set (concat bs1)"
      using False malloc_fresh [OF ok1 m] dom [of p] cs by (simp_all del: set_concat) auto
    have fr: "ht_lookup (t1, h4) bs1 (hd_key d) = None" using r2(2) [OF ok(3) cs(2)] by (simp add: d_def)
    have i1: "i = INDEX_FOR (hash_func t1 (hd_key d)) (capacity t1)" using i f1 by (simp add: d_def)
    note a = ht_add_node [OF r2(1) [OF ok(3) cs(2)] p fr i1]
    have "hash_func (fst ?s) = hash_func t" "oom (snd ?s) = oom h"
      using f1 cs by (simp_all add: ADD_NODE_TO_HASHTABLE_def store_def)
    moreover have "ht_lookup ?s (bs1[i := p # bs1 ! i]) = (ht_lookup (t, h) bs)(key \<mapsto> val)"
      using a(2) r2(2) [OF ok(3) cs(2)] by (simp add: d_def)
    ultimately show ?thesis using add a(1) by auto
  qed
qed

lemma hash_table_put_spec:
  assumes rep: "ht_rep s bs" and none: "ht_lookup s bs key = None"
  shows "\<exists>r s' bs'. hash_table_put s key val = Some (r, s') \<and> ht_rep s' bs' \<and>
    ht_lookup s' bs' = (ht_lookup s bs)(key := (if r = LFS_OK then Some val else None)) \<and>
    r \<in> {LFS_OK, LFS_ERROR} \<and> ((\<forall>n. \<not> oom (snd s) n) \<longrightarrow> r = LFS_OK) \<and>
    hash_func (fst s') = hash_func (fst s) \<and> oom (snd s') = oom (snd s)"
proof -
  let ?rs = "if item_count (fst s) \<ge> threshold (fst s)
    then hash_table_resize s (2 * capacity (fst s)) else Some (0, s)"
  have "\<exists>r1 s1 bs1. ?rs = Some (r1, s1) \<and> ht_rep s1 bs1 \<and> ht_lookup s1 bs1 = ht_lookup s bs \<and>
    hash_func (fst s1) = hash_func (fst s) \<and> oom (snd s1) = oom (snd s)"
  proof (cases "item_count (fst s) \<ge> threshold (fst s)")
    case True
    have "0 < unat (capacity (fst s))" "unat (capacity (fst s)) < 2 ^ 31" using rep by (auto simp: ht_rep_def)
    then have "unat (2 * capacity (fst s)) = 2 * unat (capacity (fst s))"
      by (intro unat_double)
    then have "0 < unat (2 * capacity (fst s))" using \<open>0 < unat (capacity (fst s))\<close> by simp
    from hash_table_resize_spec [OF rep this] True show ?thesis by simp
  next
    case False
    then show ?thesis using rep by (intro exI [of _ 0] exI [of _ s] exI [of _ bs]) simp
  qed
  then obtain r1 s1 bs1 where 1: "?rs = Some (r1, s1)" "ht_rep s1 bs1" "ht_lookup s1 bs1 = ht_lookup s bs"
    "hash_func (fst s1) = hash_func (fst s)" "oom (snd s1) = oom (snd s)" by blast
  obtain t h where s1: "s1 = (t, h)" by fastforce
  have "at_head (t, h) bs1 key" using none 1(3) by (simp add: at_head_def s1)
  from bucket_add_entry_spec [OF 1(2) [unfolded s1] this refl, of val]
  obtain r s' bs' where 2: "bucket_add_entry (t, h) (INDEX_FOR (hash_func t key) (capacity t)) key val = Some (r, s')"
    "ht_rep s' bs'" "ht_lookup s' bs' = (ht_lookup (t, h) bs1)(key := (if r = 0 then Some val else None))"
    "(\<forall>n. \<not> oom h n) \<longrightarrow> r = 0" "hash_func (fst s') = hash_func t" "oom (snd s') = oom h" by blast
  have "hash_table_put s key val = Some (if r \<noteq> 0 then LFS_ERROR else LFS_OK, s')"
    using 1(1) 2(1) unfolding hash_table_put_def by (simp add: s1)
  then show ?thesis using 1 2 unfolding s1
    by (intro exI [of _ "if r \<noteq> 0 then LFS_ERROR else LFS_OK"] exI [of _ s'] exI [of _ bs']) auto
qed

lemma hash_table_delete_spec:
  assumes rep: "ht_rep s bs" and hd: "at_head s bs key"
  shows "\<exists>r s' bs'. hash_table_delete s key = Some (r, s') \<and> ht_rep s' bs' \<and>
    ht_lookup s' bs' = (ht_lookup s bs)(key := None) \<and>
    r = (if ht_lookup s bs key = None then LFS_ERROR else LFS_OK)"
proof -
  obtain t h where s: "s = (t, h)" by fastforce
  from bucket_remove_spec [OF rep [unfolded s] hd [unfolded s] refl]
  obtain b t' h' bs' where "bucket_remove (t, h) (INDEX_FOR (hash_func t key) (capacity t)) key = Some (b, (t', h'))"
    "ht_rep (t', h') bs'" "ht_lookup (t', h') bs' = (ht_lookup (t, h) bs)(key := None)"
    "b \<longleftrightarrow> ht_lookup (t, h) bs key \<noteq> None" by blast
  then show ?thesis
    by (intro exI [of _ "if ht_lookup s bs key = None then LFS_ERROR else LFS_OK"] exI [of _ "(t', h')"]
        exI [of _ bs']) (cases b; simp add: hash_table_delete_def s)
qed

subsection \<open>Removal behind the head of a bucket\<close>

lemma walk_dangling:
  "chain nxt c p (xs @ y # ys) \<Longrightarrow> (\<And>x. x \<in> set xs \<Longrightarrow> \<not> node_sat P c x) \<Longrightarrow>
   walk P nxt (c(y := None)) p = None"
proof (induction xs arbitrary: p)
  case Nil
  then show ?case by (simp add: walk.simps)
next
  case (Cons x xs)
  then obtain n where n: "p = x" "x \<noteq> NULL" "c x = Some n" "chain nxt c (nxt n) (xs @ y # ys)"
    by (auto split: option.splits)
  have "x \<noteq> y" using chain_distinct [OF Cons.prems(1)] by auto
  moreover have "\<not> P n" using Cons.prems(2) [of x] n(3) by (simp add: node_sat_def)
  ultimately show ?case
    using n Cons.IH [OF n(4)] Cons.prems(2) by (simp add: walk.simps [of _ _ _ x])
qed

lemma hash_table_delete_dangling:
  assumes rep: "ht_rep (t, h) bs" and i: "i = INDEX_FOR (hash_func t key) (capacity t)"
    and b: "bs ! i = xs @ y # ys" "xs \<noteq> []" and y: "node_sat (has_key key) (cells h) y"
  shows "\<exists>s'. hash_table_delete (t, h) key = Some (LFS_OK, s') \<and> hash_table_get s' key = None"
proof -
  note bk = ht_rep_bucket [OF rep, of i key, unfolded fst_conv snd_conv, OF i]
  have ch: "chain hd_next (cells h) (table t ! i) (xs @ y # ys)" using bk(3) b(1) by simp
  obtain d where d: "cells h y = Some d" "hd_key d = key"
    using y by (auto simp: node_sat_def has_key_def split: option.splits)
  have no: "\<not> node_sat (has_key key) (cells h) x" if "x \<in> set xs" for x
  proof
    assume "node_sat (has_key key) (cells h) x"
    then have "hd_key (the (cells h x)) = hd_key (the (cells h y))"
      using d by (auto simp: node_sat_def has_key_def split: option.splits)
    moreover have "x \<in> set (concat bs)" "y \<in> set (concat bs)"
      using that b(1) nth_mem [OF bk(1)] by (auto intro!: bexI [of _ "xs @ y # ys"])
    ultimately have "x = y" using inj_onD [OF ht_repD(7) [OF rep]] by blast
    then show False using chain_distinct [OF ch] that by simp
  qed
  have "NULL \<notin> set xs" using chain_neq_NULL [OF ch] by simp
  then have pre: "last (NULL # xs) \<noteq> NULL" using b(2) by (metis last_ConsR last_in_set)
  have "walk_pre (has_key key) hd_next (cells h) NULL (table t ! i) = Some (last (NULL # xs), y)"
    by (rule walk_pre_chain_Some [OF ch no y])
  then have "hash_table_delete (t, h) key = Some (LFS_OK, (t\<lparr>item_count := item_count t - 1\<rparr>, mfree y h))"
    using d pre by (simp add: hash_table_delete_def bucket_remove_def i [symmetric] DELETE_NODE_FROM_HASHTABLE_def)
  moreover have "hash_table_get (t\<lparr>item_count := item_count t - 1\<rparr>, mfree y h) key = None"
    using walk_dangling [OF ch no]
    by (simp add: hash_table_get_def bucket_find_entry_def i [symmetric] mem_simps)
  ultimately show ?thesis by blast
qed

subsection \<open>Initialisation and release\<close>

lemma capacity_loop_spec:
  "c = 2 ^ k \<Longrightarrow> \<exists>j. capacity_loop c n = 2 ^ j \<and> n \<le> capacity_loop c n \<and>
     (capacity_loop c n = c \<or> capacity_loop c n < 2 * n)"
proof (induction c n arbitrary: k rule: capacity_loop.induct)
  case (1 c n)
  show ?case
  proof (cases "0 < c \<and> c < n")
    case True
    then have eq: "capacity_loop c n = capacity_loop (2 * c) n" by (simp add: capacity_loop.simps [of c n])
    have "2 * c = 2 ^ Suc k" using "1.prems" by simp
    then show ?thesis using "1.IH" [OF True, of "Suc k"] True unfolding eq by auto
  next
    case False
    then have "capacity_loop c n = c" by (subst capacity_loop.simps) (simp only: if_False)
    then show ?thesis using "1.prems" False by auto
  qed
qed

lemma concat_replicate_Nil [simp]: "concat (replicate n []) = []"
  by (induction n) simp_all

lemma hash_table_init_spec:
  assumes "heap_ok h" and "hash_table_init hf c lf h = (LFS_OK, Some t, h')"
  shows "\<exists>bs. ht_rep (t, h') bs \<and> ht_lookup (t, h') bs = Map.empty"
proof -
  define target where "target = (if c = 0 then 2 ^ 4 else if c > 2 ^ 30 then 2 ^ 30 else c)"
  define cap where "cap = capacity_loop 1 (nat target)"
  have c: "0 \<le> c" using assms(2) by (auto simp: hash_table_init_def split: if_splits)
  then have tg: "0 < target" "target \<le> 2 ^ 30" by (auto simp: target_def)
  have "capacity_loop 1 (nat target) = 1 \<or> capacity_loop 1 (nat target) < 2 * nat target"
    "nat target \<le> capacity_loop 1 (nat target)"
    using capacity_loop_spec [of 1 0 "nat target"] by auto
  then have cap: "0 < cap" "cap < 2 ^ 31" using tg by (auto simp: cap_def)
  then have u: "unat (of_nat cap :: u32) = cap"
    by (simp add: unsigned_of_nat take_bit_nat_eq_self)
  have t: "table t = replicate cap NULL" "capacity t = of_nat cap" "item_count t = 0"
    "cells h' = cells h" "heap_ok h'"
    using assms by (auto simp: hash_table_init_def Let_def target_def [symmetric] cap_def [symmetric]
        reserve_def heap_ok_def simp del: One_nat_def split: if_splits)
  have "ht_rep (t, h') (replicate cap [])"
    using cap t u by (simp add: ht_rep_def list_all2_conv_all_nth)
  moreover have "ht_lookup (t, h') (replicate cap []) = Map.empty" by (simp add: ht_lookup_def)
  ultimately show ?thesis by blast
qed

lemma free_chain_spec: "chain hd_next c p xs \<Longrightarrow> free_chain c p = Some (c |` (- set xs))"
proof (induction xs arbitrary: c p)
  case Nil
  then show ?case by (simp add: free_chain.simps)
next
  case (Cons x xs)
  then obtain d where d: "p = x" "x \<noteq> NULL" "c x = Some d" "chain hd_next c (hd_next d) xs"
    by (auto split: option.splits)
  have "x \<notin> set xs" using chain_distinct [OF Cons.prems] by simp
  then have "chain hd_next (c(x := None)) (hd_next d) xs" using d(4) by simp
  from Cons.IH [OF this] have "free_chain c p = Some ((c(x := None)) |` (- set xs))"
    unfolding d(1) by (subst free_chain.simps) (simp only: d(2,3) if_False option.case)
  moreover have "(c(x := None)) |` (- set xs) = c |` (- set (x # xs))"
    by (rule ext) (auto simp: restrict_map_def)
  ultimately show ?case by simp
qed

lemma free_buckets_spec:
  "list_all2 (chain hd_next c) ps bs \<Longrightarrow> distinct (concat bs) \<Longrightarrow>
   free_buckets ps c = Some (c |` (- set (concat bs)))"
proof (induction ps arbitrary: c bs)
  case Nil
  then show ?case by simp
next
  case (Cons p ps c bs')
  then obtain xs bs where bs': "bs' = xs # bs" "chain hd_next c p xs" "list_all2 (chain hd_next c) ps bs"
    by (cases bs') auto
  have "c x = (c |` (- set xs)) x" if "x \<in> set (concat bs)" for x
    using that Cons.prems(2) unfolding bs'(1) by (auto simp: restrict_map_def)
  then have "list_all2 (chain hd_next (c |` (- set xs))) ps bs" by (rule chains_cong [OF bs'(3)])
  moreover have "distinct (concat bs)" using Cons.prems(2) bs'(1) by simp
  ultimately have "free_buckets (p # ps) c = Some ((c |` (- set xs)) |` (- set (concat bs)))"
    using Cons.IH [of "c |` (- set xs)" bs] free_chain_spec [OF bs'(2)] by simp
  then show ?case unfolding bs'(1) by (simp add: Int_commute)
qed

subsection \<open>The table as a dictionary\<close>

text \<open>What a caller of \<open>hash_table_get\<close> reads: the value of the entry found.\<close>

definition ht_find :: "ht_state \<Rightarrow> cstr \<Rightarrow> cstr option option" where
  "ht_find s key =
     (case hash_table_get s key of
        None \<Rightarrow> None
      | Some p \<Rightarrow> if p = NULL then Some None
                  else (case cells (snd s) p of None \<Rightarrow> None | Some d \<Rightarrow> Some (Some (hd_value d))))"

definition ht_inv :: "ht_state \<Rightarrow> bool" where
  "ht_inv s \<longleftrightarrow> (\<exists>bs. ht_rep s bs)"

definition ht_ample :: "ht_state \<Rightarrow> bool" where
  "ht_ample s \<longleftrightarrow> (\<forall>n. \<not> oom (snd s) n)"

definition ht_reserve :: "ht_state \<Rightarrow> bool \<times> ht_state" where
  "ht_reserve s = (let (ok, h) = reserve (snd s) in (ok, (fst s, h)))"

lemma ht_find_lookup: "ht_rep s bs \<Longrightarrow> ht_find s = (\<lambda>k. Some (ht_lookup s bs k))"
proof
  fix k assume "ht_rep s bs"
  from hash_table_get_spec [OF this, of k] show "ht_find s k = Some (ht_lookup s bs k)"
    by (auto simp: ht_find_def split: option.splits)
qed

interpretation ht: dict ht_inv ht_ample ht_find hash_table_put ht_reserve
proof
  fix s k assume "ht_inv s"
  then obtain bs where "ht_rep s bs" by (auto simp: ht_inv_def)
  from ht_find_lookup [OF this] show "ht_find s k \<noteq> None" by simp
next
  fix s k v assume s: "ht_inv s" "ht_ample s" "ht_find s k = Some None"
  then obtain bs where rep: "ht_rep s bs" by (auto simp: ht_inv_def)
  then have "ht_lookup s bs k = None" using s(3) ht_find_lookup by simp
  from hash_table_put_spec [OF rep this, of v] s(2)
  obtain s' bs' where "hash_table_put s k v = Some (LFS_OK, s')" "ht_rep s' bs'"
    "ht_lookup s' bs' = (ht_lookup s bs)(k \<mapsto> v)" "oom (snd s') = oom (snd s)"
    by (auto simp: ht_ample_def)
  moreover from this have "ht_find s' = (ht_find s)(k := Some (Some v))"
    using ht_find_lookup [OF rep] ht_find_lookup [of s' bs'] by auto
  ultimately show "\<exists>s'. hash_table_put s k v = Some (LFS_OK, s') \<and> ht_inv s' \<and> ht_ample s' \<and>
      ht_find s' = (ht_find s)(k := Some (Some v))"
    using s(2) by (auto simp: ht_inv_def ht_ample_def)
next
  fix s ok s' assume s: "ht_inv s" and t: "ht_reserve s = (ok, s')"
  obtain bs where rep: "ht_rep (fst s, snd s) bs" using s by (auto simp: ht_inv_def)
  obtain h where h: "reserve (snd s) = (ok, h)" "s' = (fst s, h)" using t by (auto simp: ht_reserve_def split: prod.splits)
  have "cells (snd s) x = cells h x" for x using reserve_keeps(1) [OF h(1)] by simp
  from ht_rep_cong [OF rep heap_ok_reserve [OF ht_repD(1) [OF rep] h(1)] this]
  have "ht_rep s' bs" "ht_lookup s' bs = ht_lookup s bs" by (simp_all add: h(2))
  then show "ht_inv s' \<and> ht_find s' = ht_find s"
    using ht_find_lookup [of s' bs] ht_find_lookup [of s bs] rep by (auto simp: ht_inv_def)
next
  fix s ok s' assume "ht_ample s" "ht_reserve s = (ok, s')"
  then show "ok \<and> ht_ample s'" by (auto simp: ht_ample_def ht_reserve_def reserve_def)
qed

subsection \<open>Properties\<close>

text \<open>C3: A hash table in a consistent state (every bucket a chain of live nodes, every key once and
  in the bucket its hash selects) stays consistent when a new key is put, whether or not the table
  is resized and whether or not an allocation fails: on success the map gains exactly that binding,
  on failure it is unchanged, and without allocation failures the call succeeds.\<close>

theorem hash_table_put_new_key:
  assumes "ht_rep s bs" and "ht_lookup s bs key = None"
  shows "\<exists>r s' bs'. hash_table_put s key val = Some (r, s') \<and> ht_rep s' bs' \<and> r \<in> {LFS_OK, LFS_ERROR} \<and>
    ht_lookup s' bs' = (if r = LFS_OK then (ht_lookup s bs)(key \<mapsto> val) else ht_lookup s bs) \<and>
    ((\<forall>n. \<not> oom (snd s) n) \<longrightarrow> r = LFS_OK)"
proof -
  have "(ht_lookup s bs)(key := None) = ht_lookup s bs" using assms(2) by auto
  moreover obtain r s' bs' where "hash_table_put s key val = Some (r, s')" "ht_rep s' bs'"
    "ht_lookup s' bs' = (ht_lookup s bs)(key := (if r = LFS_OK then Some val else None))"
    "r \<in> {LFS_OK, LFS_ERROR}" "(\<forall>n. \<not> oom (snd s) n) \<longrightarrow> r = LFS_OK"
    using hash_table_put_spec [OF assms, of val] by blast
  ultimately show ?thesis by (intro exI [of _ r] exI [of _ s'] exI [of _ bs']) simp
qed

text \<open>C4: Searching a consistent table always ends without touching freed memory and finds the entry
  of the key exactly when the map has one.\<close>

theorem hash_table_get_correct:
  assumes "ht_rep s bs"
  shows "\<exists>p. hash_table_get s key = Some p \<and>
    (case ht_lookup s bs key of
       None \<Rightarrow> p = NULL
     | Some v \<Rightarrow> p \<noteq> NULL \<and> (\<exists>d. cells (snd s) p = Some d \<and> hd_key d = key \<and> hd_value d = v))"
  using assms by (rule hash_table_get_spec)

text \<open>Growing the table moves every node to the bucket of its hash in the new table and keeps the
  map; when the new table cannot be allocated the old one is kept.\<close>

theorem hash_table_resize_keeps_map:
  assumes "ht_rep s bs" and "0 < unat new_capacity"
  shows "\<exists>r s' bs'. hash_table_resize s new_capacity = Some (r, s') \<and> ht_rep s' bs' \<and>
    ht_lookup s' bs' = ht_lookup s bs"
  using hash_table_resize_spec [OF assms] by blast

text \<open>C24: Deleting a key whose entry is not the first of its bucket frees the node but leaves it linked:
  the next search for that key reads freed memory.\<close>

theorem hash_table_delete_leaves_dangling_node:
  assumes "ht_rep (t, h) bs" and "i = INDEX_FOR (hash_func t key) (capacity t)"
    and "bs ! i = xs @ y # ys" "xs \<noteq> []" and "node_sat (has_key key) (cells h) y"
  shows "\<exists>s'. hash_table_delete (t, h) key = Some (LFS_OK, s') \<and> hash_table_get s' key = None"
  using assms by (rule hash_table_delete_dangling)

text \<open>A table with two keys in one bucket.\<close>

definition demo_table :: hash_table where
  "demo_table = \<lparr>table = [2], hash_func = (\<lambda>_. 0), item_count = 2, capacity = 1, load_factor = 1, threshold = 1\<rparr>"

definition demo_heap :: "hash_data heap" where
  "demo_heap = \<lparr>cells = [1 \<mapsto> \<lparr>hd_key = [97], hd_value = [1], hd_hash_code = 0, hd_next = 0\<rparr>,
                          2 \<mapsto> \<lparr>hd_key = [98], hd_value = [2], hd_hash_code = 0, hd_next = 1\<rparr>],
                brk = 3, oom = (\<lambda>_. False), nalloc = 2\<rparr>"

lemma demo_rep: "ht_rep (demo_table, demo_heap) [[2, 1]]"
  by (auto simp: ht_rep_def demo_table_def demo_heap_def heap_ok_def INDEX_FOR_def)

theorem hash_table_put_new_key_witness:
  "\<exists>r s' bs'. hash_table_put (demo_table, demo_heap) [99] [3] = Some (r, s') \<and> ht_rep s' bs' \<and> r \<in> {LFS_OK, LFS_ERROR} \<and>
    ht_lookup s' bs' = (if r = LFS_OK then (ht_lookup (demo_table, demo_heap) [[2, 1]])([99] \<mapsto> [3])
      else ht_lookup (demo_table, demo_heap) [[2, 1]]) \<and>
    ((\<forall>n. \<not> oom (snd (demo_table, demo_heap)) n) \<longrightarrow> r = LFS_OK)"
  by (rule hash_table_put_new_key [OF demo_rep]) (simp add: ht_lookup_def node_kv_def demo_heap_def)

theorem hash_table_get_correct_witness:
  "\<exists>p. hash_table_get (demo_table, demo_heap) [97] = Some p \<and> p \<noteq> NULL \<and>
    (\<exists>d. cells demo_heap p = Some d \<and> hd_key d = [97] \<and> hd_value d = [1])"
  using hash_table_get_correct [OF demo_rep, of "[97]"]
  by (simp add: ht_lookup_def node_kv_def demo_heap_def)

theorem hash_table_resize_keeps_map_witness:
  "\<exists>r s' bs'. hash_table_resize (demo_table, demo_heap) 4 = Some (r, s') \<and> ht_rep s' bs' \<and>
    ht_lookup s' bs' = ht_lookup (demo_table, demo_heap) [[2, 1]]"
  by (rule hash_table_resize_keeps_map [OF demo_rep]) simp

theorem hash_table_delete_leaves_dangling_node_witness:
  "\<exists>s'. hash_table_delete (demo_table, demo_heap) [97] = Some (LFS_OK, s') \<and> hash_table_get s' [97] = None"
  by (rule hash_table_delete_leaves_dangling_node [OF demo_rep, of 0 "[97]" "[2]" 1 "[]"])
    (simp_all add: demo_table_def demo_heap_def INDEX_FOR_def node_sat_def has_key_def)

end
