(* ===== verification/Cfg_File.thy ===== *)
theory Cfg_File
  imports Shared_Func Hash_Table
begin

text \<open>
  \<open>src/common/cfg_file_opt.c\<close>: reading a configuration file of \<open>name=value\<close> lines into a hash table
  and looking values up. The reading loop is a client of the dictionary interface; the lemmas show
  that after reading a file without repeated names every name has the value of its line.
\<close>

subsection \<open>Lines\<close>

text \<open>The loop cuts the text at the newlines; the piece after the last one is a line too.\<close>

fun cfg_lines :: "cstr \<Rightarrow> cstr list" where
  "cfg_lines s =
     (case strchr s 10 of
        None \<Rightarrow> [s]
      | Some i \<Rightarrow> if i < length s then take i s # cfg_lines (drop (Suc i) s) else [s])"

declare cfg_lines.simps [simp del]

text \<open>The name and the value of a trimmed line, \<open>None\<close> for a comment, an empty line and a line
  without \<open>=\<close>.\<close>

definition cfg_entry :: "cstr \<Rightarrow> (cstr \<times> cstr) option" where
  "cfg_entry pline =
     (if pline = [] \<or> hd pline = 35 then None
      else case strchr pline 61 of
             None \<Rightarrow> None
           | Some key_len \<Rightarrow> Some (take key_len pline, drop (Suc key_len) pline))"

text \<open>\<open>trim\<close> allocates only when the line starts with blanks.\<close>

definition trim_line :: "('s \<Rightarrow> bool \<times> 's) \<Rightarrow> 's \<Rightarrow> cstr \<Rightarrow> cstr \<times> 's" where
  "trim_line tick s pline =
     (let r = trim_right pline in
      if dropWhile is_trim r = r then (trim True pline, s)
      else let (ok, s') = tick s in (trim ok pline, s'))"

text \<open>The loop of \<open>_read_cfg_file\<close> over the lines, for the dictionary operation \<open>put\<close> and the
  allocator \<open>tick\<close>: the return code and the state, \<open>None\<close> for undefined behaviour of \<open>put\<close>. The return
  code of \<open>put\<close> is ignored.\<close>

fun read_cfg_lines ::
  "('s \<Rightarrow> cstr \<Rightarrow> cstr \<Rightarrow> (int \<times> 's) option) \<Rightarrow> ('s \<Rightarrow> bool \<times> 's) \<Rightarrow> 's \<Rightarrow> cstr list \<Rightarrow> (int \<times> 's) option" where
  "read_cfg_lines put tick s [] = Some (0, s)"
| "read_cfg_lines put tick s (line # lines) =
     (let (pline, s1) = trim_line tick s line in
      case cfg_entry pline of
        None \<Rightarrow> read_cfg_lines put tick s1 lines
      | Some (name, val) \<Rightarrow>
          let (ok, s2) = tick s1 in
          if \<not> ok then Some (-1, s2)
          else (case put s2 name val of
                  None \<Rightarrow> None
                | Some (_, s3) \<Rightarrow> read_cfg_lines put tick s3 lines))"

text \<open>\<open>fcontent\<close> is what \<open>getFileContent\<close> gives: an error code or the text of the file.\<close>

definition read_cfg_file :: "ht_state \<Rightarrow> int + cstr \<Rightarrow> (int \<times> ht_state) option" where
  "read_cfg_file s fcontent =
     (case fcontent of
        Inl ret \<Rightarrow> Some (ret, s)
      | Inr text \<Rightarrow> read_cfg_lines hash_table_put ht_reserve s (cfg_lines text))"

definition cfg_init ::
  "(cstr \<Rightarrow> u32) \<Rightarrow> hash_data heap \<Rightarrow> int + cstr \<Rightarrow> (int \<times> hash_table option \<times> hash_data heap) option" where
  "cfg_init hf h fcontent =
     (case hash_table_init hf 0 0 h of
        (ret, None, h') \<Rightarrow> Some (ret, None, h')
      | (ret, Some t, h') \<Rightarrow>
          if ret \<noteq> 0 then Some (ret, Some t, h')
          else (case read_cfg_file (t, h') fcontent of
                  None \<Rightarrow> None
                | Some (ret, s) \<Rightarrow>
                    if ret \<noteq> 0 then map_option (\<lambda>s'. (ret, Some (fst s'), snd s')) (hash_table_free s)
                    else Some (0, Some (fst s), snd s)))"

definition cfg_get_strvalue :: "ht_state \<Rightarrow> cstr \<Rightarrow> cstr option option" where
  "cfg_get_strvalue s name = ht_find s name"

definition cfg_get_intvalue :: "ht_state \<Rightarrow> cstr \<Rightarrow> int \<Rightarrow> int option" where
  "cfg_get_intvalue s name dvalue =
     (case cfg_get_strvalue s name of
        None \<Rightarrow> None
      | Some None \<Rightarrow> Some dvalue
      | Some (Some svalue) \<Rightarrow> Some (atoi svalue))"

subsection \<open>The entries of a file\<close>

definition cfg_entries :: "cstr list \<Rightarrow> (cstr \<times> cstr) list" where
  "cfg_entries lines = List.map_filter (\<lambda>l. cfg_entry (trim True l)) lines"

lemma cfg_entries_simps [simp]:
  "cfg_entries [] = []"
  "cfg_entries (l # ls) =
     (case cfg_entry (trim True l) of None \<Rightarrow> cfg_entries ls | Some e \<Rightarrow> e # cfg_entries ls)"
  by (simp_all add: cfg_entries_def List.map_filter_simps split: option.splits)

text \<open>The dictionaries that the reader can fill: names and values are strings.\<close>

locale string_dict = dict inv ample look put tick
  for inv :: "'s \<Rightarrow> bool"
    and ample :: "'s \<Rightarrow> bool"
    and look :: "'s \<Rightarrow> cstr \<Rightarrow> cstr option option"
    and put :: "'s \<Rightarrow> cstr \<Rightarrow> cstr \<Rightarrow> (int \<times> 's) option"
    and tick :: "'s \<Rightarrow> bool \<times> 's"
begin

lemma trim_line_spec:
  assumes "inv s" and "ample s"
  shows "\<exists>s'. trim_line tick s l = (trim True l, s') \<and> inv s' \<and> ample s' \<and> look s' = look s"
proof (cases "dropWhile is_trim (trim_right l) = trim_right l")
  case True
  then show ?thesis using assms by (simp add: trim_line_def)
next
  case False
  obtain ok s' where "tick s = (ok, s')" by fastforce
  then show ?thesis
    using False tick_keeps [OF assms(1)] tick_ample [OF assms(2)] by (auto simp: trim_line_def)
qed

lemma read_cfg_lines_spec:
  "inv s \<Longrightarrow> ample s \<Longrightarrow> distinct (map fst (cfg_entries lines)) \<Longrightarrow>
   (\<And>k. k \<in> fst ` set (cfg_entries lines) \<Longrightarrow> look s k = Some None) \<Longrightarrow>
   \<exists>s'. read_cfg_lines put tick s lines = Some (0, s') \<and> inv s' \<and>
     look s' = (\<lambda>k. case map_of (cfg_entries lines) k of None \<Rightarrow> look s k | Some v \<Rightarrow> Some (Some v))"
proof (induction lines arbitrary: s)
  case (Cons l lines)
  obtain s1 where s1: "trim_line tick s l = (trim True l, s1)" "inv s1" "ample s1" "look s1 = look s"
    using trim_line_spec [OF Cons.prems(1,2)] by blast
  show ?case
  proof (cases "cfg_entry (trim True l)")
    case None
    then show ?thesis
      using Cons.IH [OF s1(2,3), unfolded s1(4)] Cons.prems(3,4) s1(1) by simp
  next
    case (Some e)
    obtain k v where e: "e = (k, v)" by fastforce
    obtain ok s2 where s2: "tick s1 = (ok, s2)" by fastforce
    have t: "ok" "inv s2" "ample s2" "look s2 = look s"
      using tick_keeps [OF s1(2) s2] tick_ample [OF s1(3) s2] s1(4) by auto
    have "look s2 k = Some None" using Cons.prems(4) [of k] Some e t(4) by simp
    from put_new [OF t(2,3) this, of v] obtain s3 where s3: "put s2 k v = Some (LFS_OK, s3)" "inv s3" "ample s3"
      "look s3 = (look s)(k := Some (Some v))" using t(4) by auto
    have d: "distinct (map fst (cfg_entries lines))" "k \<notin> fst ` set (cfg_entries lines)"
      using Cons.prems(3) Some e by auto
    have "look s3 j = Some None" if "j \<in> fst ` set (cfg_entries lines)" for j
      using Cons.prems(4) [of j] that d(2) s3(4) Some by auto
    from Cons.IH [OF s3(2,3) d(1) this] obtain s' where s': "read_cfg_lines put tick s3 lines = Some (0, s')" "inv s'"
      "look s' = (\<lambda>k. case map_of (cfg_entries lines) k of None \<Rightarrow> look s3 k | Some v \<Rightarrow> Some (Some v))"
      by blast
    have "map_of (cfg_entries lines) k = None" using d(2) by (simp add: map_of_eq_None_iff)
    then have "look s' = (\<lambda>j. case map_of (cfg_entries (l # lines)) j of None \<Rightarrow> look s j | Some v \<Rightarrow> Some (Some v))"
      using s'(3) s3(4) Some e by (auto simp: fun_eq_iff split: option.splits)
    moreover have "read_cfg_lines put tick s (l # lines) = Some (0, s')"
      using s1(1) Some e s2 t(1) s3(1) s'(1) by simp
    ultimately show ?thesis using s'(2) by blast
  qed
qed simp

end

interpretation cfg: string_dict ht_inv ht_ample ht_find hash_table_put ht_reserve
  by unfold_locales

subsection \<open>Properties\<close>

text \<open>C23: Reading a configuration file in which no name is repeated, without allocation failures,
  succeeds, and afterwards every name has exactly the value of its line (and no value when no line
  gives it one): comments, blank lines and lines without \<open>=\<close> are skipped.\<close>

theorem cfg_init_correct:
  assumes "heap_ok h" and "\<forall>n. \<not> oom h n" and "distinct (map fst (cfg_entries (cfg_lines text)))"
  shows "\<exists>t h'. cfg_init hf h (Inr text) = Some (LFS_OK, Some t, h') \<and>
    (\<forall>name. cfg_get_strvalue (t, h') name = Some (map_of (cfg_entries (cfg_lines text)) name)) \<and>
    (\<forall>name dvalue. cfg_get_intvalue (t, h') name dvalue =
       Some (case map_of (cfg_entries (cfg_lines text)) name of None \<Rightarrow> dvalue | Some v \<Rightarrow> atoi v))"
proof -
  obtain t h1 where i: "hash_table_init hf 0 0 h = (LFS_OK, Some t, h1)"
    using assms(2) by (auto simp: hash_table_init_def reserve_def Let_def)
  have oom: "oom h1 = oom h"
    using i by (auto simp: hash_table_init_def reserve_def Let_def split: if_splits)
  from hash_table_init_spec [OF assms(1) i] obtain bs where bs: "ht_rep (t, h1) bs"
    "ht_lookup (t, h1) bs = Map.empty" by blast
  have f: "ht_find (t, h1) k = Some None" for k using ht_find_lookup [OF bs(1)] bs(2) by simp
  have "ht_inv (t, h1)" "ht_ample (t, h1)" using bs(1) assms(2) oom by (auto simp: ht_inv_def ht_ample_def)
  from cfg.read_cfg_lines_spec [OF this assms(3) f]
  obtain s where s: "read_cfg_lines hash_table_put ht_reserve (t, h1) (cfg_lines text) = Some (0, s)"
    and l: "ht_find s = (\<lambda>k. case map_of (cfg_entries (cfg_lines text)) k of
      None \<Rightarrow> ht_find (t, h1) k | Some v \<Rightarrow> Some (Some v))" by blast
  have g: "cfg_get_strvalue s name = Some (map_of (cfg_entries (cfg_lines text)) name)" for name
    by (simp add: cfg_get_strvalue_def l f split: option.splits)
  have "cfg_init hf h (Inr text) = Some (LFS_OK, Some (fst s), snd s)"
    using i s by (simp add: cfg_init_def read_cfg_file_def)
  then show ?thesis
    using g by (intro exI [of _ "fst s"] exI [of _ "snd s"]) (simp add: cfg_get_intvalue_def split: option.splits)
qed

theorem cfg_init_correct_witness:
  "\<exists>t h'. cfg_init (\<lambda>_. 0) (heap_init (\<lambda>_. False)) (Inr (asc ''port=80'')) = Some (LFS_OK, Some t, h') \<and>
    (\<forall>name. cfg_get_strvalue (t, h') name = Some (map_of (cfg_entries (cfg_lines (asc ''port=80''))) name)) \<and>
    (\<forall>name dvalue. cfg_get_intvalue (t, h') name dvalue =
       Some (case map_of (cfg_entries (cfg_lines (asc ''port=80''))) name of None \<Rightarrow> dvalue | Some v \<Rightarrow> atoi v))"
proof (rule cfg_init_correct)
  show "distinct (map fst (cfg_entries (cfg_lines (asc ''port=80''))))" by code_simp
qed (simp, simp add: heap_init_def)

end
