(* ===== verification/List_Head.thy ===== *)
theory List_Head
  imports Heap "HOL-Library.Monad_Syntax"
begin

text \<open>
  The intrusive doubly linked lists of \<open>src/common/list.h\<close>. A store maps the address of a
  \<open>struct list_head\<close> to its two links; the functions assign the links in the order of the source, so
  that aliasing (an empty list links to itself) is taken care of by the store. \<open>dlist s h xs\<close> says
  that the list with head \<open>h\<close> consists of the entries \<open>xs\<close>: the forward links visit them in order,
  the backward links in reverse. The lemmas give the effect of every operation on \<open>xs\<close>.
\<close>

subsection \<open>Links\<close>

record list_head =
  lh_next :: nat
  lh_prev :: nat

type_synonym links = "nat \<rightharpoonup> list_head"

definition nx :: "links \<Rightarrow> nat \<Rightarrow> nat option" where
  "nx s p = map_option lh_next (s p)"

definition pv :: "links \<Rightarrow> nat \<Rightarrow> nat option" where
  "pv s p = map_option lh_prev (s p)"

definition set_next :: "nat \<Rightarrow> nat \<Rightarrow> links \<Rightarrow> links option" where
  "set_next p q s = (case s p of None \<Rightarrow> None | Some l \<Rightarrow> Some (s(p \<mapsto> l\<lparr>lh_next := q\<rparr>)))"

definition set_prev :: "nat \<Rightarrow> nat \<Rightarrow> links \<Rightarrow> links option" where
  "set_prev p q s = (case s p of None \<Rightarrow> None | Some l \<Rightarrow> Some (s(p \<mapsto> l\<lparr>lh_prev := q\<rparr>)))"

subsection \<open>Operations\<close>

definition INIT_LIST_HEAD :: "nat \<Rightarrow> links \<Rightarrow> links option" where
  "INIT_LIST_HEAD p s = do { s \<leftarrow> set_next p p s; set_prev p p s }"

definition list_add_between :: "nat \<Rightarrow> nat \<Rightarrow> nat \<Rightarrow> links \<Rightarrow> links option" where
  "list_add_between new prv nxt s =
     do {
       s \<leftarrow> set_prev nxt new s;
       s \<leftarrow> set_next new nxt s;
       s \<leftarrow> set_prev new prv s;
       set_next prv new s
     }"

definition list_add :: "nat \<Rightarrow> nat \<Rightarrow> links \<Rightarrow> links option" where
  "list_add new head s = do { n \<leftarrow> nx s head; list_add_between new head n s }"

definition list_add_tail :: "nat \<Rightarrow> nat \<Rightarrow> links \<Rightarrow> links option" where
  "list_add_tail new head s = do { p \<leftarrow> pv s head; list_add_between new p head s }"

definition list_del_between :: "nat \<Rightarrow> nat \<Rightarrow> links \<Rightarrow> links option" where
  "list_del_between prv nxt s = do { s \<leftarrow> set_prev nxt prv s; set_next prv nxt s }"

text \<open>Both poison values are defined as \<open>NULL\<close>.\<close>

definition list_del :: "nat \<Rightarrow> links \<Rightarrow> links option" where
  "list_del entry s =
     do {
       p \<leftarrow> pv s entry;
       n \<leftarrow> nx s entry;
       s \<leftarrow> list_del_between p n s;
       s \<leftarrow> set_next entry NULL s;
       set_prev entry NULL s
     }"

definition list_del_init :: "nat \<Rightarrow> links \<Rightarrow> links option" where
  "list_del_init entry s =
     do {
       p \<leftarrow> pv s entry;
       n \<leftarrow> nx s entry;
       s \<leftarrow> list_del_between p n s;
       INIT_LIST_HEAD entry s
     }"

definition list_move :: "nat \<Rightarrow> nat \<Rightarrow> links \<Rightarrow> links option" where
  "list_move entry head s =
     do {
       p \<leftarrow> pv s entry;
       n \<leftarrow> nx s entry;
       s \<leftarrow> list_del_between p n s;
       list_add entry head s
     }"

definition list_move_tail :: "nat \<Rightarrow> nat \<Rightarrow> links \<Rightarrow> links option" where
  "list_move_tail entry head s =
     do {
       p \<leftarrow> pv s entry;
       n \<leftarrow> nx s entry;
       s \<leftarrow> list_del_between p n s;
       list_add_tail entry head s
     }"

definition list_is_last :: "nat \<Rightarrow> nat \<Rightarrow> links \<Rightarrow> bool option" where
  "list_is_last entry head s = do { n \<leftarrow> nx s entry; Some (n = head) }"

definition list_empty :: "nat \<Rightarrow> links \<Rightarrow> bool option" where
  "list_empty head s = do { n \<leftarrow> nx s head; Some (n = head) }"

definition list_splice_between :: "nat \<Rightarrow> nat \<Rightarrow> links \<Rightarrow> links option" where
  "list_splice_between lst head s =
     do {
       first \<leftarrow> nx s lst;
       lastp \<leftarrow> pv s lst;
       at \<leftarrow> nx s head;
       s \<leftarrow> set_prev first head s;
       s \<leftarrow> set_next head first s;
       s \<leftarrow> set_next lastp at s;
       set_prev at lastp s
     }"

definition list_splice :: "nat \<Rightarrow> nat \<Rightarrow> links \<Rightarrow> links option" where
  "list_splice lst head s = do { e \<leftarrow> list_empty lst s; if e then Some s else list_splice_between lst head s }"

definition list_splice_init :: "nat \<Rightarrow> nat \<Rightarrow> links \<Rightarrow> links option" where
  "list_splice_init lst head s =
     do {
       e \<leftarrow> list_empty lst s;
       if e then Some s else do { s \<leftarrow> list_splice_between lst head s; INIT_LIST_HEAD lst s }
     }"

text \<open>\<open>list_for_each(pos, head)\<close> counting the entries.\<close>

partial_function (option) count_from :: "nat \<Rightarrow> links \<Rightarrow> nat \<Rightarrow> nat option" where
  [code]: "count_from head s pos =
     (if pos = head then Some 0
      else do {
        n \<leftarrow> nx s pos;
        k \<leftarrow> count_from head s n;
        Some (Suc k)
      })"

subsection \<open>Paths\<close>

text \<open>\<open>fpath f p xs q\<close>: the links \<open>f\<close> lead from \<open>p\<close> through \<open>xs\<close> to \<open>q\<close>.\<close>

fun fpath :: "(nat \<Rightarrow> nat option) \<Rightarrow> nat \<Rightarrow> nat list \<Rightarrow> nat \<Rightarrow> bool" where
  "fpath f p [] q \<longleftrightarrow> f p = Some q"
| "fpath f p (x # xs) q \<longleftrightarrow> f p = Some x \<and> fpath f x xs q"

lemma fpath_append: "fpath f p (us @ x # vs) q \<longleftrightarrow> fpath f p us x \<and> fpath f x vs q"
  by (induction us arbitrary: p) auto

lemma fpath_cong: "(\<And>x. x \<in> set (p # xs) \<Longrightarrow> g x = f x) \<Longrightarrow> fpath g p xs q = fpath f p xs q"
  by (induction xs arbitrary: p) auto

lemma fpath_last: "fpath f p (us @ vs) q \<Longrightarrow> f (last (p # us)) = Some (hd (vs @ [q]))"
proof (induction us arbitrary: p)
  case Nil
  then show ?case by (cases vs) auto
qed auto

lemma fpath_split: "fpath f p (us @ vs) q \<longleftrightarrow> fpath f p us (hd (vs @ [q])) \<and> (vs \<noteq> [] \<longrightarrow> fpath f (hd vs) (tl vs) q)"
  by (cases vs) (simp_all add: fpath_append)

lemma fpath_end: "fpath f p us q \<Longrightarrow> distinct (p # us) \<Longrightarrow> fpath (f(last (p # us) \<mapsto> r)) p us r"
proof (induction us arbitrary: p)
  case (Cons u us)
  then have "p \<noteq> last (u # us)" by auto
  with Cons show ?case by simp
qed simp

lemma last_neq: "distinct (p # us @ vs) \<Longrightarrow> y \<in> set vs \<Longrightarrow> y \<noteq> last (p # us)"
  using last_in_set [of "p # us"] by fastforce

lemma fpath_insert:
  assumes "fpath f p (us @ vs) q" and "distinct (p # us @ vs)" and "x \<notin> set (p # us @ vs)"
    and g: "g x = f (last (p # us))" "g (last (p # us)) = Some x"
      "\<And>y. y \<noteq> x \<Longrightarrow> y \<noteq> last (p # us) \<Longrightarrow> g y = f y"
  shows "fpath g p (us @ x # vs) q"
proof -
  have s: "fpath f p us (hd (vs @ [q]))" "vs \<noteq> [] \<Longrightarrow> fpath f (hd vs) (tl vs) q"
    using assms(1) by (simp_all add: fpath_split)
  have "fpath (f(last (p # us) \<mapsto> x)) p us x" by (rule fpath_end [OF s(1)]) (use assms(2) in auto)
  moreover have "g y = (f(last (p # us) \<mapsto> x)) y" if "y \<in> set (p # us)" for y
  proof -
    have "y \<noteq> x" using that assms(3) by auto
    then show ?thesis using g(2) g(3) [of y] by simp
  qed
  ultimately have "fpath g p us x" using fpath_cong [of p us g "f(last (p # us) \<mapsto> x)" x] by blast
  moreover have "fpath g x vs q"
  proof (cases vs)
    case Nil
    then show ?thesis using g(1) fpath_last [OF assms(1)] by simp
  next
    case (Cons v ws)
    have "fpath f v ws q" using s(2) Cons by simp
    moreover have "g y = f y" if y: "y \<in> set (v # ws)" for y
    proof (rule g(3))
      show "y \<noteq> x" using y assms(3) Cons by auto
      show "y \<noteq> last (p # us)" by (rule last_neq [OF assms(2)]) (use y Cons in simp)
    qed
    ultimately have "fpath g v ws q" using fpath_cong [of v ws g f q] by blast
    then show ?thesis using g(1) fpath_last [OF assms(1)] Cons by simp
  qed
  ultimately show ?thesis by (simp add: fpath_append)
qed

lemma fpath_delete:
  assumes "fpath f p (us @ x # vs) q" and "distinct (p # us @ x # vs)"
    and g: "g (last (p # us)) = f x" "\<And>y. y \<noteq> x \<Longrightarrow> y \<noteq> last (p # us) \<Longrightarrow> g y = f y"
  shows "fpath g p (us @ vs) q"
proof -
  have s: "fpath f p us x" "fpath f x vs q" using assms(1) by (simp_all add: fpath_append)
  have fx: "f x = Some (hd (vs @ [q]))" using fpath_last [of f x "[]" vs q] s(2) by simp
  have "fpath (f(last (p # us) \<mapsto> hd (vs @ [q]))) p us (hd (vs @ [q]))"
    by (rule fpath_end [OF s(1)]) (use assms(2) in auto)
  moreover have "g y = (f(last (p # us) \<mapsto> hd (vs @ [q]))) y" if "y \<in> set (p # us)" for y
  proof -
    have "y \<noteq> x" using that assms(2) by auto
    then show ?thesis using g(1) g(2) [of y] fx by simp
  qed
  ultimately have "fpath g p us (hd (vs @ [q]))" using fpath_cong [of p us g "f(last (p # us) \<mapsto> hd (vs @ [q]))" "hd (vs @ [q])"] by blast
  moreover have "fpath g (hd vs) (tl vs) q" if ne: "vs \<noteq> []"
  proof -
    obtain v ws where vs: "vs = v # ws" using ne by (cases vs) auto
    have "g y = f y" if y: "y \<in> set (v # ws)" for y
    proof (rule g(2))
      show "y \<noteq> x" using y assms(2) vs by auto
      show "y \<noteq> last (p # us)" by (rule last_neq [OF assms(2)]) (use y vs in simp)
    qed
    then show ?thesis using s(2) vs fpath_cong [of v ws g f q] by auto
  qed
  ultimately show ?thesis by (simp add: fpath_split)
qed

subsection \<open>The list of a head\<close>

definition dlist :: "links \<Rightarrow> nat \<Rightarrow> nat list \<Rightarrow> bool" where
  "dlist s h xs \<longleftrightarrow> distinct (h # xs) \<and> fpath (nx s) h xs h \<and> fpath (pv s) h (rev xs) h"

lemma dlist_cong: "dlist s h xs \<Longrightarrow> (\<And>x. x \<in> set (h # xs) \<Longrightarrow> t x = s x) \<Longrightarrow> dlist t h xs"
  using fpath_cong [of h xs "nx t" "nx s" h] fpath_cong [of h "rev xs" "pv t" "pv s" h]
  by (simp add: dlist_def nx_def pv_def)

lemma fpath_defined: "fpath f p xs q \<Longrightarrow> x \<in> set (p # xs) \<Longrightarrow> f x \<noteq> None"
  by (induction xs arbitrary: p) auto

lemma dlist_alloc: "dlist s h xs \<Longrightarrow> x \<in> set (h # xs) \<Longrightarrow> s x \<noteq> None"
  using fpath_defined [of "nx s" h xs h x] by (auto simp: dlist_def nx_def)

lemma fpath_unique:
  "fpath f p xs q \<Longrightarrow> fpath f p ys q \<Longrightarrow> q \<notin> set xs \<Longrightarrow> q \<notin> set ys \<Longrightarrow> xs = ys"
proof (induction xs arbitrary: p ys)
  case Nil
  then show ?case by (cases ys) auto
next
  case (Cons x xs)
  then show ?case by (cases ys) auto
qed

lemma dlist_unique: "dlist s h xs \<Longrightarrow> dlist s h ys \<Longrightarrow> xs = ys"
  using fpath_unique [of "nx s" h xs h ys] by (simp add: dlist_def)

lemma dlist_first: "dlist s h xs \<Longrightarrow> nx s h = Some (hd (xs @ [h]))"
  using fpath_last [of "nx s" h "[]" xs h] by (simp add: dlist_def)

lemma dlist_last: "dlist s h xs \<Longrightarrow> pv s h = Some (last (h # xs))"
  using fpath_last [of "pv s" h "[]" "rev xs" h] by (cases xs rule: rev_cases) (auto simp: dlist_def)

text \<open>The assignments, seen through the links.\<close>

lemma set_next_ok:
  "s p \<noteq> None \<Longrightarrow> \<exists>t. set_next p q s = Some t \<and> nx t = (nx s)(p \<mapsto> q) \<and> pv t = pv s \<and> (\<forall>y. y \<noteq> p \<longrightarrow> t y = s y) \<and> dom t = dom s"
proof -
  assume "s p \<noteq> None"
  then obtain l where l: "s p = Some l" by blast
  then show ?thesis
    by (intro exI [of _ "s(p \<mapsto> l\<lparr>lh_next := q\<rparr>)"]) (auto simp: set_next_def nx_def pv_def fun_eq_iff)
qed

lemma set_prev_ok:
  "s p \<noteq> None \<Longrightarrow> \<exists>t. set_prev p q s = Some t \<and> pv t = (pv s)(p \<mapsto> q) \<and> nx t = nx s \<and> (\<forall>y. y \<noteq> p \<longrightarrow> t y = s y) \<and> dom t = dom s"
proof -
  assume "s p \<noteq> None"
  then obtain l where l: "s p = Some l" by blast
  then show ?thesis
    by (intro exI [of _ "s(p \<mapsto> l\<lparr>lh_prev := q\<rparr>)"]) (auto simp: set_prev_def nx_def pv_def fun_eq_iff)
qed

lemma INIT_LIST_HEAD_ok:
  assumes "s p \<noteq> None"
  shows "\<exists>t. INIT_LIST_HEAD p s = Some t \<and> dlist t p [] \<and> (\<forall>y. y \<noteq> p \<longrightarrow> t y = s y) \<and> dom t = dom s"
proof -
  obtain t where t: "set_next p p s = Some t" "nx t = (nx s)(p \<mapsto> p)" "\<forall>y. y \<noteq> p \<longrightarrow> t y = s y" "dom t = dom s"
    using set_next_ok [of s p, OF assms] by blast
  have "t p \<noteq> None" using t(4) assms by auto
  then obtain u where "set_prev p p t = Some u" "pv u = (pv t)(p \<mapsto> p)" "nx u = nx t" "\<forall>y. y \<noteq> p \<longrightarrow> u y = t y" "dom u = dom t"
    using set_prev_ok [of t p] by blast
  with t show ?thesis by (auto simp: INIT_LIST_HEAD_def dlist_def)
qed

lemma list_add_between_ok:
  assumes d: "dlist s h (us @ vs)" and x: "x \<notin> set (h # us @ vs)" "s x \<noteq> None"
  shows "\<exists>t. list_add_between x (last (h # us)) (hd (vs @ [h])) s = Some t \<and> dlist t h (us @ x # vs) \<and>
    (\<forall>y. y \<notin> set (h # us @ x # vs) \<longrightarrow> t y = s y) \<and> dom t = dom s"
proof -
  let ?p = "last (h # us)" and ?n = "hd (vs @ [h])"
  have pn: "?p \<in> set (h # us @ vs)" "?n \<in> set (h # us @ vs)" using last_in_set [of "h # us"] by (auto simp: hd_append)
  have ne: "?p \<noteq> x" "?n \<noteq> x" using pn x(1) by auto
  have al: "s ?p \<noteq> None" "s ?n \<noteq> None" using dlist_alloc [OF d] pn by auto
  obtain s1 where s1: "set_prev ?n x s = Some s1" "pv s1 = (pv s)(?n \<mapsto> x)" "nx s1 = nx s" "\<forall>y. y \<noteq> ?n \<longrightarrow> s1 y = s y" "dom s1 = dom s"
    using set_prev_ok [of s ?n, OF al(2)] by blast
  have "s1 x \<noteq> None" using s1(5) x(2) by auto
  then obtain s2 where s2: "set_next x ?n s1 = Some s2" "nx s2 = (nx s1)(x \<mapsto> ?n)" "pv s2 = pv s1" "\<forall>y. y \<noteq> x \<longrightarrow> s2 y = s1 y" "dom s2 = dom s1"
    using set_next_ok by metis
  have "s2 x \<noteq> None" using s2(5) s1(5) x(2) by auto
  then obtain s3 where s3: "set_prev x ?p s2 = Some s3" "pv s3 = (pv s2)(x \<mapsto> ?p)" "nx s3 = nx s2" "\<forall>y. y \<noteq> x \<longrightarrow> s3 y = s2 y" "dom s3 = dom s2"
    using set_prev_ok by metis
  have "s3 ?p \<noteq> None" using s3(5) s2(5) s1(5) al(1) by auto
  then obtain t where t: "set_next ?p x s3 = Some t" "nx t = (nx s3)(?p \<mapsto> x)" "pv t = pv s3" "\<forall>y. y \<noteq> ?p \<longrightarrow> t y = s3 y" "dom t = dom s3"
    using set_next_ok by metis
  have "list_add_between x ?p ?n s = Some t" using s1(1) s2(1) s3(1) t(1) by (simp add: list_add_between_def)
  moreover have "fpath (nx t) h (us @ x # vs) h"
  proof (rule fpath_insert [of "nx s"])
    show "fpath (nx s) h (us @ vs) h" using d by (simp add: dlist_def)
    then have "nx s ?p = Some ?n" by (rule fpath_last)
    then show "nx t x = nx s ?p" using ne by (simp add: t s3 s2 s1)
  qed (use d x in \<open>simp_all add: dlist_def t(2) s3(3) s2(2) s1(3)\<close>)
  moreover have "fpath (pv t) h (rev vs @ x # rev us) h"
  proof (rule fpath_insert [of "pv s"])
    show f: "fpath (pv s) h (rev vs @ rev us) h" using d by (simp add: dlist_def)
    have n: "last (h # rev vs) = ?n" by (cases vs) (simp_all add: last_rev)
    have "hd (rev us @ [h]) = ?p" by (cases us rule: rev_cases) auto
    then have "pv s ?n = Some ?p" using fpath_last [OF f] n by simp
    then show "pv t x = pv s (last (h # rev vs))" using n by (simp add: t(3) s3(2))
    show "pv t (last (h # rev vs)) = Some x" unfolding n using ne by (simp add: t(3) s3(2) s2(3) s1(2))
    show "\<And>y. y \<noteq> x \<Longrightarrow> y \<noteq> last (h # rev vs) \<Longrightarrow> pv t y = pv s y" unfolding n by (simp add: t(3) s3(2) s2(3) s1(2))
  qed (use d x in \<open>auto simp: dlist_def\<close>)
  moreover have "t y = s y" if "y \<notin> set (h # us @ x # vs)" for y
  proof -
    have "y \<noteq> ?p" "y \<noteq> ?n" "y \<noteq> x" using that pn by auto
    then show ?thesis using t(4) s3(4) s2(4) s1(4) by simp
  qed
  moreover have "dom t = dom s" using t(5) s3(5) s2(5) s1(5) by simp
  ultimately show ?thesis using d x(1) by (auto simp: dlist_def)
qed

text \<open>\<open>list_add\<close> after any entry (or the head), \<open>list_add_tail\<close> before the head.\<close>

lemma list_add_ok:
  assumes "dlist s h (us @ vs)" and "x \<notin> set (h # us @ vs)" "s x \<noteq> None" and "p = last (h # us)"
  shows "\<exists>t. list_add x p s = Some t \<and> dlist t h (us @ x # vs) \<and>
    (\<forall>y. y \<notin> set (h # us @ x # vs) \<longrightarrow> t y = s y) \<and> dom t = dom s"
proof -
  have "nx s p = Some (hd (vs @ [h]))" using assms(1,4) fpath_last [of "nx s" h us vs h] by (simp add: dlist_def)
  then show ?thesis using list_add_between_ok [OF assms(1-3)] assms(4) by (simp add: list_add_def)
qed

lemma list_add_tail_ok:
  assumes "dlist s h xs" and "x \<notin> set (h # xs)" "s x \<noteq> None"
  shows "\<exists>t. list_add_tail x h s = Some t \<and> dlist t h (xs @ [x]) \<and>
    (\<forall>y. y \<notin> set (h # xs @ [x]) \<longrightarrow> t y = s y) \<and> dom t = dom s"
proof -
  have "dlist s h (xs @ [])" "x \<notin> set (h # xs @ [])" using assms(1,2) by simp_all
  from list_add_between_ok [OF this assms(3)] show ?thesis
    using dlist_last [OF assms(1)] by (simp add: list_add_tail_def)
qed

lemma list_del_between_ok:
  assumes d: "dlist s h (us @ x # vs)"
  shows "pv s x = Some (last (h # us))" "nx s x = Some (hd (vs @ [h]))"
    "\<exists>t. list_del_between (last (h # us)) (hd (vs @ [h])) s = Some t \<and> dlist t h (us @ vs) \<and>
     (\<forall>y. y \<notin> set (h # us @ vs) \<longrightarrow> t y = s y) \<and> dom t = dom s"
proof -
  let ?p = "last (h # us)" and ?n = "hd (vs @ [h])"
  have f: "fpath (nx s) h (us @ x # vs) h" "fpath (pv s) h (rev vs @ x # rev us) h" "distinct (h # us @ x # vs)"
    using d by (simp_all add: dlist_def)
  have n: "last (h # rev vs) = ?n" by (cases vs) (simp_all add: last_rev)
  have hp: "hd (rev us @ [h]) = ?p" by (cases us rule: rev_cases) auto
  show px: "pv s x = Some ?p" using fpath_last [of "pv s" h "rev vs @ [x]" "rev us" h] f(2) hp by simp
  show nxx: "nx s x = Some ?n" using fpath_last [of "nx s" h "us @ [x]" vs h] f(1) by simp
  have pn: "?p \<in> set (h # us @ vs)" "?n \<in> set (h # us @ vs)" using last_in_set [of "h # us"] by (auto simp: hd_append)
  have al: "s ?p \<noteq> None" "s ?n \<noteq> None" using dlist_alloc [OF d] pn by auto
  obtain s1 where s1: "set_prev ?n ?p s = Some s1" "pv s1 = (pv s)(?n \<mapsto> ?p)" "nx s1 = nx s" "\<forall>y. y \<noteq> ?n \<longrightarrow> s1 y = s y" "dom s1 = dom s"
    using set_prev_ok [of s ?n, OF al(2)] by blast
  have "s1 ?p \<noteq> None" using s1(5) al(1) by auto
  then obtain t where t: "set_next ?p ?n s1 = Some t" "nx t = (nx s1)(?p \<mapsto> ?n)" "pv t = pv s1" "\<forall>y. y \<noteq> ?p \<longrightarrow> t y = s1 y" "dom t = dom s1"
    using set_next_ok by metis
  have "fpath (nx t) h (us @ vs) h"
    by (rule fpath_delete [OF f(1,3)]) (simp_all add: t(2) s1(3) nxx)
  moreover have "fpath (pv t) h (rev vs @ rev us) h"
  proof (rule fpath_delete [OF f(2)])
    show "distinct (h # rev vs @ x # rev us)" using f(3) by auto
    show "pv t (last (h # rev vs)) = pv s x" unfolding n by (simp add: t(3) s1(2) px)
    show "\<And>y. y \<noteq> x \<Longrightarrow> y \<noteq> last (h # rev vs) \<Longrightarrow> pv t y = pv s y" unfolding n by (simp add: t(3) s1(2))
  qed
  moreover have "t y = s y" if "y \<notin> set (h # us @ vs)" for y
  proof -
    have "y \<noteq> ?p" "y \<noteq> ?n" using that pn by auto
    then show ?thesis using t(4) s1(4) by simp
  qed
  ultimately show "\<exists>t. list_del_between ?p ?n s = Some t \<and> dlist t h (us @ vs) \<and>
     (\<forall>y. y \<notin> set (h # us @ vs) \<longrightarrow> t y = s y) \<and> dom t = dom s"
    using s1 t f(3) by (intro exI [of _ t]) (auto simp: list_del_between_def dlist_def)
qed

lemma list_del_ok:
  assumes d: "dlist s h (us @ x # vs)"
  shows "\<exists>t. list_del x s = Some t \<and> dlist t h (us @ vs) \<and>
    (\<forall>y. y \<notin> set (h # us @ x # vs) \<longrightarrow> t y = s y) \<and> dom t = dom s"
proof -
  obtain s1 where s1: "list_del_between (last (h # us)) (hd (vs @ [h])) s = Some s1" "dlist s1 h (us @ vs)"
    "\<forall>y. y \<notin> set (h # us @ vs) \<longrightarrow> s1 y = s y" "dom s1 = dom s" using list_del_between_ok(3) [OF d] by blast
  have x: "x \<notin> set (h # us @ vs)" using d by (auto simp: dlist_def)
  have "s1 x \<noteq> None" using dlist_alloc [OF d, of x] s1(4) by auto
  then obtain s2 where s2: "set_next x NULL s1 = Some s2" "\<forall>y. y \<noteq> x \<longrightarrow> s2 y = s1 y" "dom s2 = dom s1"
    using set_next_ok by metis
  have "s2 x \<noteq> None" using \<open>s1 x \<noteq> None\<close> s2(3) by auto
  then obtain t where t: "set_prev x NULL s2 = Some t" "\<forall>y. y \<noteq> x \<longrightarrow> t y = s2 y" "dom t = dom s2"
    using set_prev_ok by metis
  have "dlist t h (us @ vs)" by (rule dlist_cong [OF s1(2)]) (use x s2(2) t(2) in auto)
  then show ?thesis using list_del_between_ok(1,2) [OF d] s1 s2 t by (auto simp: list_del_def)
qed

lemma list_del_init_ok:
  assumes d: "dlist s h (us @ x # vs)"
  shows "\<exists>t. list_del_init x s = Some t \<and> dlist t h (us @ vs) \<and> dlist t x [] \<and>
    (\<forall>y. y \<notin> set (h # us @ x # vs) \<longrightarrow> t y = s y) \<and> dom t = dom s"
proof -
  obtain s1 where s1: "list_del_between (last (h # us)) (hd (vs @ [h])) s = Some s1" "dlist s1 h (us @ vs)"
    "\<forall>y. y \<notin> set (h # us @ vs) \<longrightarrow> s1 y = s y" "dom s1 = dom s" using list_del_between_ok(3) [OF d] by blast
  have x: "x \<notin> set (h # us @ vs)" using d by (auto simp: dlist_def)
  have "s1 x \<noteq> None" using dlist_alloc [OF d, of x] s1(4) by auto
  then obtain t where t: "INIT_LIST_HEAD x s1 = Some t" "dlist t x []" "\<forall>y. y \<noteq> x \<longrightarrow> t y = s1 y" "dom t = dom s1"
    using INIT_LIST_HEAD_ok by metis
  have "dlist t h (us @ vs)" by (rule dlist_cong [OF s1(2)]) (use x t(3) in auto)
  then show ?thesis using list_del_between_ok(1,2) [OF d] s1 t by (auto simp: list_del_init_def)
qed

lemma list_empty_iff: "dlist s h xs \<Longrightarrow> list_empty h s = Some (xs = [])"
  using dlist_first [of s h xs] by (cases xs) (auto simp: list_empty_def dlist_def)

lemma count_from_path: "fpath (nx s) p xs h \<Longrightarrow> h \<notin> set (p # xs) \<Longrightarrow> count_from h s p = Some (Suc (length xs))"
proof (induction xs arbitrary: p)
  case Nil
  then show ?case by (simp add: count_from.simps [of h s p] count_from.simps [of h s h])
next
  case (Cons x xs)
  then show ?case by (simp add: count_from.simps [of h s p])
qed

lemma count_from_dlist: "dlist s h xs \<Longrightarrow> count_from h s (hd (xs @ [h])) = Some (length xs)"
  using count_from_path [of s "hd xs" "tl xs" h] by (cases xs) (auto simp: dlist_def count_from.simps [of h s h])

subsection \<open>Properties\<close>

text \<open>Moving an entry of one list to the front or to the end of another one takes it out of the first
  list and links it into the second, in both directions, and touches no other list.\<close>

theorem list_move_correct:
  assumes d: "dlist s g (us @ x # vs)" and e: "dlist s h ys" and dis: "set (g # us @ x # vs) \<inter> set (h # ys) = {}"
  shows "\<exists>t t'. list_move x h s = Some t \<and> dlist t g (us @ vs) \<and> dlist t h (x # ys) \<and>
    list_move_tail x h s = Some t' \<and> dlist t' g (us @ vs) \<and> dlist t' h (ys @ [x]) \<and>
    (\<forall>z. z \<notin> set (g # us @ x # vs) \<union> set (h # ys) \<longrightarrow> t z = s z \<and> t' z = s z)"
proof -
  obtain s1 where s1: "list_del_between (last (g # us)) (hd (vs @ [g])) s = Some s1" "dlist s1 g (us @ vs)"
    "\<forall>y. y \<notin> set (g # us @ vs) \<longrightarrow> s1 y = s y" "dom s1 = dom s" using list_del_between_ok(3) [OF d] by blast
  have h1: "dlist s1 h ys" by (rule dlist_cong [OF e]) (use s1(3) dis in auto)
  have x: "x \<notin> set (h # ys)" "x \<notin> set (g # us @ vs)" using d dis by (auto simp: dlist_def)
  have "s1 x \<noteq> None" using dlist_alloc [OF d, of x] s1(4) by auto
  note al = this
  obtain t where t: "list_add x h s1 = Some t" "dlist t h (x # ys)" "\<forall>y. y \<notin> set (h # x # ys) \<longrightarrow> t y = s1 y"
    using list_add_ok [of s1 h "[]" ys x h] h1 x(1) al by auto
  obtain t' where t': "list_add_tail x h s1 = Some t'" "dlist t' h (ys @ [x])" "\<forall>y. y \<notin> set (h # ys @ [x]) \<longrightarrow> t' y = s1 y"
    using list_add_tail_ok [OF h1 x(1) al] by blast
  have g: "dlist t g (us @ vs)" by (rule dlist_cong [OF s1(2)]) (use t(3) x(2) dis in auto)
  have g': "dlist t' g (us @ vs)" by (rule dlist_cong [OF s1(2)]) (use t'(3) x(2) dis in auto)
  show ?thesis
    using list_del_between_ok(1,2) [OF d] s1(1,3) t t' g g'
    by (intro exI [of _ t] exI [of _ t']) (auto simp: list_move_def list_move_tail_def)
qed

definition demo_links :: links where
  "demo_links = [1 \<mapsto> \<lparr>lh_next = 2, lh_prev = 2\<rparr>, 2 \<mapsto> \<lparr>lh_next = 1, lh_prev = 1\<rparr>, 3 \<mapsto> \<lparr>lh_next = 3, lh_prev = 3\<rparr>]"

lemma demo_links_lists: "dlist demo_links 1 [2]" "dlist demo_links 3 []"
  by (simp_all add: demo_links_def dlist_def nx_def pv_def)

theorem list_move_correct_witness:
  "\<exists>t. list_move 2 3 demo_links = Some t \<and> dlist t 1 [] \<and> dlist t 3 [2]"
proof -
  have d: "dlist demo_links 1 ([] @ 2 # [])" using demo_links_lists(1) by simp
  have "set (1 # [] @ 2 # []) \<inter> set (3 # []) = ({} :: nat set)" by simp
  from list_move_correct [OF d demo_links_lists(2) this] show ?thesis by auto
qed

end
