(* ===== verification/Sched_Timer.thy ===== *)
theory Sched_Timer
  imports List_Head "HOL-Library.Word"
begin

text \<open>
  The timers of \<open>src/common/sched_timer.c\<close>: a linked list in the order of the deadlines, into which
  \<open>sched_timer\<close> inserts from the end and from which the timer threads (\<open>sched_yielded\<close>) take what is
  due. A timer is identified with the address of its link. The clock of
  the system, which \<open>nowus\<close> of \<open>src/common/times.c\<close> reads, is an argument that gives the result of every reading; the callbacks are an
  argument that transforms the state, because a callback may schedule timers itself. An assertion
  that fails gives \<open>None\<close>. The section of \<open>sched_yielded\<close> under the lock is one step.
\<close>

definition TIMER_MAX_ARG :: nat where "TIMER_MAX_ARG = 8"

record timer =
  deadline :: int
  callback :: "nat option"
  argv :: "nat list"

record sched =
  timer_list :: nat
  s_links :: links
  s_timers :: "timer heap"
  readings :: nat

record timeval =
  tv_sec :: int
  tv_usec :: int

type_synonym clock = "nat \<Rightarrow> timeval"

text \<open>The number of microseconds is computed as an unsigned and returned as a signed number of 64 bits.\<close>

definition usec_of :: "timeval \<Rightarrow> int" where
  "usec_of tv = sint (word_of_int (tv_sec tv * 1000 * 1000 + tv_usec tv) :: 64 word)"

definition nowus :: "clock \<Rightarrow> sched \<Rightarrow> int \<times> sched" where
  "nowus clk st = (usec_of (clk (readings st)), st\<lparr>readings := Suc (readings st)\<rparr>)"

definition timer_alloc :: "sched \<Rightarrow> (nat \<times> sched) option" where
  "timer_alloc st =
     (let (p, h) = malloc \<lparr>deadline = 0, callback = None, argv = []\<rparr> (s_timers st) in
      if p = NULL then None
      else Some (p, st\<lparr>s_timers := h, s_links := (s_links st)(p \<mapsto> \<lparr>lh_next = NULL, lh_prev = NULL\<rparr>)\<rparr>))"

definition timer_free :: "nat \<Rightarrow> sched \<Rightarrow> sched" where
  "timer_free p st = st\<lparr>s_timers := mfree p (s_timers st), s_links := (s_links st)(p := None)\<rparr>"

definition timer_at :: "sched \<Rightarrow> nat \<Rightarrow> timer option" where
  "timer_at st p = cells (s_timers st) p"

text \<open>The loop \<open>list_for_each_prev\<close> of \<open>timer_add\<close>: the last timer that is not due later.\<close>

partial_function (option) find_prev :: "sched \<Rightarrow> int \<Rightarrow> nat \<Rightarrow> nat option" where
  [code]: "find_prev st d pos =
     (if pos = timer_list st then Some NULL
      else do {
        tmp \<leftarrow> timer_at st pos;
        if deadline tmp \<le> d then Some pos
        else do { p \<leftarrow> pv (s_links st) pos; find_prev st d p }
      })"

definition timer_add :: "nat \<Rightarrow> sched \<Rightarrow> sched option" where
  "timer_add p st = do {
     s \<leftarrow> INIT_LIST_HEAD p (s_links st);
     let st = st\<lparr>s_links := s\<rparr>;
     t \<leftarrow> timer_at st p;
     pos \<leftarrow> pv s (timer_list st);
     find \<leftarrow> find_prev st (deadline t) pos;
     s \<leftarrow> (if find = NULL then list_add p (timer_list st) s else list_add p find s);
     Some (st\<lparr>s_links := s\<rparr>)
   }"

definition timer_remove :: "nat \<Rightarrow> sched \<Rightarrow> sched option" where
  "timer_remove p st = do { s \<leftarrow> list_del p (s_links st); Some (st\<lparr>s_links := s\<rparr>) }"

definition timer_peek :: "sched \<Rightarrow> nat option" where
  "timer_peek st = do {
     e \<leftarrow> list_empty (timer_list st) (s_links st);
     if e then Some NULL else nx (s_links st) (timer_list st)
   }"

partial_function (option) sched_yielded ::
  "clock \<Rightarrow> (nat \<Rightarrow> nat list \<Rightarrow> sched \<Rightarrow> sched option) \<Rightarrow> sched \<Rightarrow> (timer list \<times> sched) option" where
  [code]: "sched_yielded clk run st = do {
     p \<leftarrow> timer_peek st;
     if p = NULL then Some ([], st)
     else do {
       t \<leftarrow> timer_at st p;
       let (now, st) = nowus clk st;
       if now < deadline t then Some ([], st)
       else do {
         st \<leftarrow> timer_remove p st;
         st \<leftarrow> (case callback t of None \<Rightarrow> Some st | Some c \<Rightarrow> run c (argv t) st);
         (fired, st) \<leftarrow> sched_yielded clk run (timer_free p st);
         Some (t # fired, st)
       }
     }
   }"

text \<open>The variable arguments end with \<open>NULL\<close>; reading beyond them is undefined, and more than
  \<open>TIMER_MAX_ARG\<close> of them fail an assertion.\<close>

fun collect_args :: "nat \<Rightarrow> nat list \<Rightarrow> nat list option" where
  "collect_args i [] = None"
| "collect_args i (a # ap) =
     (if a = NULL then Some []
      else if TIMER_MAX_ARG \<le> i then None
      else do { as \<leftarrow> collect_args (Suc i) ap; Some (a # as) })"

definition sched_timer :: "clock \<Rightarrow> int \<Rightarrow> nat option \<Rightarrow> nat list \<Rightarrow> sched \<Rightarrow> sched option" where
  "sched_timer clk usec cb ap st = do {
     (p, st) \<leftarrow> timer_alloc st;
     let (now, st) = nowus clk st;
     as \<leftarrow> collect_args 0 ap;
     timer_add p (st\<lparr>s_timers := store p \<lparr>deadline = now + usec, callback = cb, argv = as\<rparr> (s_timers st)\<rparr>)
   }"

definition sched_timer_init :: "nat \<Rightarrow> (nat \<Rightarrow> bool) \<Rightarrow> sched option" where
  "sched_timer_init h f = do {
     s \<leftarrow> INIT_LIST_HEAD h [h \<mapsto> \<lparr>lh_next = NULL, lh_prev = NULL\<rparr>];
     Some \<lparr>timer_list = h, s_links = s, s_timers = (heap_init f)\<lparr>brk := Suc h\<rparr>, readings = 0\<rparr>
   }"

subsection \<open>The list of timers\<close>

definition timers :: "sched \<Rightarrow> nat list \<Rightarrow> timer list \<Rightarrow> bool" where
  "timers st xs ts \<longleftrightarrow>
     dlist (s_links st) (timer_list st) xs \<and> list_all2 (\<lambda>x t. timer_at st x = Some t) xs ts \<and>
     heap_ok (s_timers st) \<and> timer_list st < brk (s_timers st) \<and> timer_at st (timer_list st) = None"

text \<open>The specification: a new timer goes behind all timers that are not due later.\<close>

definition schedule :: "timer \<Rightarrow> timer list \<Rightarrow> timer list" where
  "schedule t ts = filter (\<lambda>u. deadline u \<le> deadline t) ts @ t # filter (\<lambda>u. deadline t < deadline u) ts"

definition by_deadline :: "timer list \<Rightarrow> bool" where
  "by_deadline ts \<longleftrightarrow> sorted (map deadline ts)"

lemma schedule_by_deadline: "by_deadline ts \<Longrightarrow> by_deadline (schedule t ts)"
  unfolding by_deadline_def schedule_def
  by (auto simp: sorted_append sorted_filter)

lemma pv_of_entry: "dlist s h (us @ u # vs) \<Longrightarrow> pv s u = Some (last (h # us))"
proof -
  assume "dlist s h (us @ u # vs)"
  then have "fpath (pv s) u (rev us) h" by (simp add: dlist_def fpath_append)
  then have "pv s u = Some (hd (rev us @ [h]))" using fpath_last [of "pv s" u "[]" "rev us" h] by simp
  then show ?thesis by (cases us rule: rev_cases) auto
qed

lemma find_prev_ok:
  "dlist (s_links st) (timer_list st) (us @ vs) \<Longrightarrow> list_all2 (\<lambda>x t. timer_at st x = Some t) us ts \<Longrightarrow>
   \<exists>ws zs rs ss. us = ws @ zs \<and> ts = rs @ ss \<and> length ws = length rs \<and> (\<forall>t \<in> set ss. d < deadline t) \<and>
     (rs \<noteq> [] \<longrightarrow> deadline (last rs) \<le> d) \<and>
     find_prev st d (last (timer_list st # us)) = Some (if ws = [] then NULL else last ws)"
proof (induction us arbitrary: vs ts rule: rev_induct)
  case Nil
  then show ?case by (simp add: find_prev.simps)
next
  case (snoc u us)
  obtain rs t where ts: "ts = rs @ [t]" "list_all2 (\<lambda>x t. timer_at st x = Some t) us rs" "timer_at st u = Some t"
    using snoc.prems(2) by (auto simp: list_all2_append1 list_all2_Cons1)
  have ne: "u \<noteq> timer_list st" using snoc.prems(1) by (auto simp: dlist_def)
  have d: "dlist (s_links st) (timer_list st) (us @ u # vs)" using snoc.prems(1) by simp
  show ?case
  proof (cases "deadline t \<le> d")
    case True
    then have "find_prev st d u = Some u" using ne ts(3) by (simp add: find_prev.simps [of st d u])
    then show ?thesis using True ts snoc.prems(2)
      by (intro exI [of _ "us @ [u]"] exI [of _ "[]"] exI [of _ ts]) (auto dest: list_all2_lengthD)
  next
    case False
    then have e: "find_prev st d u = find_prev st d (last (timer_list st # us))"
      using ne ts(3) pv_of_entry [OF d] by (simp add: find_prev.simps [of st d u])
    obtain ws zs rs' ss where "us = ws @ zs" "rs = rs' @ ss" "length ws = length rs'" "\<forall>t \<in> set ss. d < deadline t"
      "rs' \<noteq> [] \<longrightarrow> deadline (last rs') \<le> d"
      "find_prev st d (last (timer_list st # us)) = Some (if ws = [] then NULL else last ws)"
      using snoc.IH [OF d ts(2)] by blast
    then show ?thesis using False ts e
      by (intro exI [of _ ws] exI [of _ "zs @ [u]"] exI [of _ rs'] exI [of _ "ss @ [t]"]) auto
  qed
qed

lemma schedule_split:
  assumes "by_deadline (rs @ ss)" and "\<forall>u \<in> set ss. deadline t < deadline u"
    and "rs \<noteq> [] \<longrightarrow> deadline (last rs) \<le> deadline t"
  shows "schedule t (rs @ ss) = rs @ t # ss"
proof -
  have "deadline u \<le> deadline t" if u: "u \<in> set rs" for u
  proof (cases rs rule: rev_cases)
    case (snoc r' l)
    then have "deadline u \<le> deadline l" using u assms(1) by (auto simp: by_deadline_def sorted_append)
    then show ?thesis using assms(3) snoc by simp
  qed (use u in simp)
  then have "filter (\<lambda>u. deadline u \<le> deadline t) rs = rs" "filter (\<lambda>u. deadline t < deadline u) rs = []"
    by (auto simp: filter_empty_conv filter_id_conv) (meson not_less)
  moreover have "filter (\<lambda>u. deadline u \<le> deadline t) ss = []" "filter (\<lambda>u. deadline t < deadline u) ss = ss"
    using assms(2) by (auto simp: filter_empty_conv filter_id_conv)
  ultimately show ?thesis by (simp add: schedule_def)
qed

lemma list_all2_set1: "list_all2 P xs ys \<Longrightarrow> x \<in> set xs \<Longrightarrow> \<exists>y \<in> set ys. P x y"
  by (induction rule: list_all2_induct) auto

lemma timer_add_ok:
  assumes w: "timers st xs ts" and srt: "by_deadline ts"
    and p: "p \<notin> set (timer_list st # xs)" "s_links st p \<noteq> None" "timer_at st p = Some t"
  shows "\<exists>st' xs'. timer_add p st = Some st' \<and> timers st' xs' (schedule t ts)"
proof -
  let ?h = "timer_list st"
  have d: "dlist (s_links st) ?h xs" and a: "list_all2 (\<lambda>x t. timer_at st x = Some t) xs ts" using w by (auto simp: timers_def)
  obtain s where s: "INIT_LIST_HEAD p (s_links st) = Some s" "\<forall>y. y \<noteq> p \<longrightarrow> s y = s_links st y" "dom s = dom (s_links st)"
    using INIT_LIST_HEAD_ok [of "s_links st" p, OF p(2)] by blast
  define st1 where "st1 = st\<lparr>s_links := s\<rparr>"
  have st1: "timer_at st1 = timer_at st" "timer_list st1 = ?h" "s_links st1 = s" by (auto simp: st1_def timer_at_def fun_eq_iff)
  have d1: "dlist s ?h xs" by (rule dlist_cong [OF d]) (use s(2) p(1) in auto)
  have "dlist (s_links st1) (timer_list st1) (xs @ [])" "list_all2 (\<lambda>x t. timer_at st1 x = Some t) xs ts"
    using d1 a by (simp_all add: st1)
  from find_prev_ok [OF this, of "deadline t"]
  obtain ws zs rs ss where f: "xs = ws @ zs" "ts = rs @ ss" "length ws = length rs" "\<forall>u \<in> set ss. deadline t < deadline u"
    "rs \<noteq> [] \<longrightarrow> deadline (last rs) \<le> deadline t"
    "find_prev st1 (deadline t) (last (?h # xs)) = Some (if ws = [] then NULL else last ws)"
    unfolding st1(2) by blast
  have al: "s p \<noteq> None" using s(3) p(2) by auto
  have dl: "dlist s ?h (ws @ zs)" "p \<notin> set (?h # ws @ zs)" using d1 p(1) f(1) by auto
  have z: "NULL \<notin> set ws"
  proof
    assume "NULL \<in> set ws"
    then have "timer_at st NULL \<noteq> None" using list_all2_set1 [OF a, of NULL] f(1) by auto
    then show False using w heap_ok_NULL [of "s_timers st"] by (simp add: timers_def timer_at_def)
  qed
  obtain s2 where s2: "list_add p (last (?h # ws)) s = Some s2" "dlist s2 ?h (ws @ p # zs)"
    using list_add_ok [OF dl al refl] by blast
  define fd where "fd = (if ws = [] then NULL else last ws)"
  have e: "(if fd = NULL then list_add p ?h s else list_add p fd s) = Some s2"
    using s2(1) z last_in_set [of ws] by (cases "ws = []") (simp_all add: fd_def del: last_in_set, metis)
  have f6: "find_prev st1 (deadline t) (last (?h # xs)) = Some fd" using f(6) fd_def by simp
  have "timer_add p st = Some (st\<lparr>s_links := s2\<rparr>)"
    using s(1) p(3) dlist_last [OF d1] f6 e
    by (cases "fd = NULL") (simp_all add: timer_add_def st1_def [symmetric] st1 Let_def del: last.simps)
  then have "timer_add p st = Some (st1\<lparr>s_links := s2\<rparr>)" by (simp add: st1_def)
  moreover have "timers (st1\<lparr>s_links := s2\<rparr>) (ws @ p # zs) (rs @ t # ss)"
    using s2(2) w p(3) a f(1-3) by (auto simp: timers_def st1_def timer_at_def list_all2_append)
  moreover have "schedule t ts = rs @ t # ss" using schedule_split [of rs ss t] srt f by simp
  ultimately show ?thesis by metis
qed

subsection \<open>Scheduling and firing\<close>

lemma timers_dom: "timers st xs ts \<Longrightarrow> x \<in> set xs \<Longrightarrow> x < brk (s_timers st) \<and> x \<noteq> NULL"
  using list_all2_set1 [of "\<lambda>x t. timer_at st x = Some t" xs ts x] by (fastforce simp: timers_def timer_at_def heap_ok_def)

lemma sched_timer_ok:
  assumes w: "timers st xs ts" and srt: "by_deadline ts" and args: "collect_args 0 ap = Some as"
    and mem: "\<not> oom (s_timers st) (nalloc (s_timers st))"
  shows "\<exists>st' xs'. sched_timer clk usec cb ap st = Some st' \<and>
    timers st' xs' (schedule \<lparr>deadline = usec_of (clk (readings st)) + usec, callback = cb, argv = as\<rparr> ts)"
proof -
  let ?h = "s_timers st" and ?t = "\<lparr>deadline = usec_of (clk (readings st)) + usec, callback = cb, argv = as\<rparr>"
  define p where "p = brk ?h"
  define st1 where "st1 = st\<lparr>s_links := (s_links st)(p \<mapsto> \<lparr>lh_next = NULL, lh_prev = NULL\<rparr>), readings := Suc (readings st),
    s_timers := ?h\<lparr>brk := Suc (brk ?h), nalloc := Suc (nalloc ?h), cells := (cells ?h)(p \<mapsto> ?t)\<rparr>\<rparr>"
  have p: "p \<noteq> timer_list st" "p \<notin> set xs" "0 < p" using w timers_dom [OF w] by (auto simp: p_def timers_def heap_ok_def)
  have e: "sched_timer clk usec cb ap st = timer_add p st1"
    using mem args p(3) by (simp add: sched_timer_def timer_alloc_def malloc_def nowus_def Let_def store_def p_def st1_def)
  have "dlist (s_links st1) (timer_list st1) xs"
    unfolding st1_def by simp (rule dlist_cong [of "s_links st"], use w p in \<open>auto simp: timers_def\<close>)
  moreover have "list_all2 (\<lambda>x t. timer_at st1 x = Some t) xs ts"
    by (rule list.rel_mono_strong [of "\<lambda>x t. timer_at st x = Some t"]) (use w p in \<open>auto simp: timers_def st1_def timer_at_def\<close>)
  moreover have "heap_ok (s_timers st1)" using w by (auto simp: timers_def st1_def heap_ok_def p_def less_Suc_eq)
  ultimately have w1: "timers st1 xs ts" using w p by (auto simp: timers_def st1_def timer_at_def)
  have "p \<notin> set (timer_list st1 # xs)" "s_links st1 p \<noteq> None" "timer_at st1 p = Some ?t"
    using p by (auto simp: st1_def timer_at_def)
  from timer_add_ok [OF w1 srt this] show ?thesis using e by simp
qed

lemma timer_peek_ok: "timers st xs ts \<Longrightarrow> timer_peek st = Some (if xs = [] then NULL else hd xs)"
  using list_empty_iff [of "s_links st" "timer_list st" xs] dlist_first [of "s_links st" "timer_list st" xs]
  by (cases xs) (auto simp: timers_def timer_peek_def)

lemma timers_readings [simp]: "timers (st\<lparr>readings := r\<rparr>) xs ts = timers st xs ts"
  by (simp add: timers_def timer_at_def)

lemma timer_take_ok:
  assumes "timers st (x # xs) (t # ts)"
  shows "\<exists>st'. timer_remove x st = Some st' \<and> timers (timer_free x st') xs ts \<and> readings st' = readings st"
proof -
  have d: "dlist (s_links st) (timer_list st) ([] @ x # xs)" using assms by (simp add: timers_def)
  then obtain s where s: "list_del x (s_links st) = Some s" "dlist s (timer_list st) xs" using list_del_ok [OF d] by auto
  have x: "x \<notin> set (timer_list st # xs)" using d by (auto simp: dlist_def)
  let ?st = "timer_free x (st\<lparr>s_links := s\<rparr>)"
  have "dlist (s_links ?st) (timer_list ?st) xs"
    unfolding timer_free_def by simp (rule dlist_cong [OF s(2)], use x in auto)
  moreover have "list_all2 (\<lambda>x t. timer_at ?st x = Some t) xs ts"
    by (rule list.rel_mono_strong [of "\<lambda>x t. timer_at st x = Some t"])
      (use assms x in \<open>auto simp: timers_def timer_free_def timer_at_def mem_simps\<close>)
  moreover have "heap_ok (s_timers ?st)" "timer_list ?st < brk (s_timers ?st)" "timer_at ?st (timer_list ?st) = None"
    using assms by (auto simp: timers_def timer_free_def timer_at_def mfree_def heap_ok_def)
  ultimately show ?thesis using s(1) by (intro exI [of _ "st\<lparr>s_links := s\<rparr>"]) (simp add: timer_remove_def timers_def)
qed

lemma sched_yielded_ok:
  assumes run: "\<And>c as s. run c as s = Some s" and clk: "mono (\<lambda>n. usec_of (clk n))"
  shows "timers st xs ts \<Longrightarrow> by_deadline ts \<Longrightarrow> \<exists>fired rest st' xs'. sched_yielded clk run st = Some (fired, st') \<and>
    ts = fired @ rest \<and> timers st' xs' rest \<and> readings st \<le> readings st' \<and>
    (\<forall>t \<in> set rest. usec_of (clk (readings st)) < deadline t) \<and> (\<forall>t \<in> set fired. deadline t \<le> usec_of (clk (readings st')))"
proof (induction ts arbitrary: st xs)
  case Nil
  then show ?case using timer_peek_ok [of st xs "[]"] by (subst sched_yielded.simps) (auto simp: timers_def)
next
  case (Cons t ts)
  obtain x ys where xs: "xs = x # ys" "timer_at st x = Some t" using Cons.prems(1) by (auto simp: timers_def list_all2_Cons2)
  have nz: "x \<noteq> NULL" using timers_dom [OF Cons.prems(1), of x] xs(1) by simp
  have pk: "timer_peek st = Some x" using timer_peek_ok [OF Cons.prems(1)] xs(1) by simp
  have later: "deadline t \<le> deadline u" if "u \<in> set ts" for u using that Cons.prems(2) by (auto simp: by_deadline_def)
  let ?st = "st\<lparr>readings := Suc (readings st)\<rparr>"
  show ?case
  proof (cases "usec_of (clk (readings st)) < deadline t")
    case True
    then have "sched_yielded clk run st = Some ([], ?st)"
      using pk nz xs(2) by (subst sched_yielded.simps) (simp add: nowus_def)
    then show ?thesis using True Cons.prems(1) later by (intro exI [of _ "[]"] exI [of _ "t # ts"] exI [of _ ?st] exI [of _ xs]) force
  next
    case False
    obtain st1 where st1: "timer_remove x ?st = Some st1" "timers (timer_free x st1) ys ts" "readings st1 = Suc (readings st)"
      using timer_take_ok [of ?st x ys t ts] Cons.prems(1) xs(1) by auto
    have r: "readings (timer_free x st1) = Suc (readings st)" using st1(3) by (simp add: timer_free_def)
    obtain fired rest st' xs' where f: "sched_yielded clk run (timer_free x st1) = Some (fired, st')" "ts = fired @ rest"
      "timers st' xs' rest" "Suc (readings st) \<le> readings st'" "\<forall>u \<in> set rest. usec_of (clk (Suc (readings st))) < deadline u"
      "\<forall>u \<in> set fired. deadline u \<le> usec_of (clk (readings st'))"
      using Cons.IH [OF st1(2)] Cons.prems(2) r by (auto simp: by_deadline_def)
    have "sched_yielded clk run st = Some (t # fired, st')"
      using pk nz xs(2) False st1(1) f(1) run
      by (subst sched_yielded.simps) (simp add: nowus_def split: option.split)
    moreover have "usec_of (clk (readings st)) \<le> usec_of (clk (Suc (readings st)))" "usec_of (clk (readings st)) \<le> usec_of (clk (readings st'))"
      using monoD [OF clk] f(4) by auto
    ultimately show ?thesis using f False
      by (intro exI [of _ "t # fired"] exI [of _ rest] exI [of _ st'] exI [of _ xs']) force
  qed
qed

subsection \<open>Properties\<close>

text \<open>Scheduling a timer puts it behind every timer that is due no later and before every other one, so the list
  stays in the order of the deadlines and timers with the same deadline stay in the order of their
  scheduling.\<close>

theorem sched_timer_sorted:
  assumes "timers st xs ts" and "by_deadline ts" and "collect_args 0 ap = Some as"
    and "\<not> oom (s_timers st) (nalloc (s_timers st))"
  shows "\<exists>st' xs' ts'. sched_timer clk usec cb ap st = Some st' \<and> timers st' xs' ts' \<and> by_deadline ts' \<and>
    ts' = filter (\<lambda>u. deadline u \<le> usec_of (clk (readings st)) + usec) ts @
      \<lparr>deadline = usec_of (clk (readings st)) + usec, callback = cb, argv = as\<rparr> #
      filter (\<lambda>u. usec_of (clk (readings st)) + usec < deadline u) ts"
  using sched_timer_ok [OF assms, of clk usec cb]
    schedule_by_deadline [OF assms(2), of "\<lparr>deadline = usec_of (clk (readings st)) + usec, callback = cb, argv = as\<rparr>"]
  by (auto simp: schedule_def)


definition demo_sched :: sched where
  "demo_sched = \<lparr>timer_list = 1, s_links = [1 \<mapsto> \<lparr>lh_next = 2, lh_prev = 2\<rparr>, 2 \<mapsto> \<lparr>lh_next = 1, lh_prev = 1\<rparr>],
     s_timers = \<lparr>cells = [2 \<mapsto> \<lparr>deadline = 5, callback = None, argv = []\<rparr>], brk = 3, oom = (\<lambda>_. False), nalloc = 0\<rparr>, readings = 0\<rparr>"

lemma demo_sched_timers: "timers demo_sched [2] [\<lparr>deadline = 5, callback = None, argv = []\<rparr>]"
  by (simp add: timers_def demo_sched_def timer_at_def heap_ok_def dlist_def nx_def pv_def)

theorem sched_timer_sorted_witness:
  "\<exists>st' xs' ts'. sched_timer (\<lambda>n. \<lparr>tv_sec = 0, tv_usec = 0\<rparr>) 5 (Some 9) [7, 0] demo_sched = Some st' \<and> timers st' xs' ts' \<and>
    ts' = [\<lparr>deadline = 5, callback = None, argv = []\<rparr>, \<lparr>deadline = 5, callback = Some 9, argv = [7]\<rparr>]"
  using sched_timer_sorted [OF demo_sched_timers, of "[7, 0]" "[7]" "\<lambda>n. \<lparr>tv_sec = 0, tv_usec = 0\<rparr>" 5 "Some 9"]
  by (auto simp: by_deadline_def demo_sched_def TIMER_MAX_ARG_def usec_of_def)


end
