(* ===== verification/Hash_Func.thy ===== *)
theory Hash_Func
  imports Lfs_Prelude
begin

text \<open>
  The hash functions of \<open>src/common\<close>: \<open>jenkins_hash.c\<close>, \<open>murmur3_hash.c\<close> and the choice between them in \<open>hash.c\<close>.
  Both read the key in machine words where its address allows it, so they take the memory, the address of
  the key and its length; \<open>byte_order\<close> is the order of the bytes of the machine. The tables of the servers rely
  on a hash that depends on the bytes of the key only: this is shown here by comparison with definitions on
  byte lists. It holds for \<open>jenkins_hash\<close> only if the macro of the build agrees with the machine.
\<close>

type_synonym memory = "nat \<Rightarrow> byte"

datatype byte_order = Little | Big

definition key :: "memory \<Rightarrow> nat \<Rightarrow> nat \<Rightarrow> byte list" where
  "key m p n = map (\<lambda>i. m (p + i)) [0 ..< n]"

definition k8 :: "memory \<Rightarrow> nat \<Rightarrow> u32" where
  "k8 m p = ucast (m p)"

definition k16 :: "byte_order \<Rightarrow> memory \<Rightarrow> nat \<Rightarrow> u32" where
  "k16 bo m p = (case bo of Little \<Rightarrow> k8 m p + push_bit 8 (k8 m (p + 1)) | Big \<Rightarrow> push_bit 8 (k8 m p) + k8 m (p + 1))"

definition k32 :: "byte_order \<Rightarrow> memory \<Rightarrow> nat \<Rightarrow> u32" where
  "k32 bo m p =
     (case bo of
        Little \<Rightarrow> k8 m p + push_bit 8 (k8 m (p + 1)) + push_bit 16 (k8 m (p + 2)) + push_bit 24 (k8 m (p + 3))
      | Big \<Rightarrow> push_bit 24 (k8 m p) + push_bit 16 (k8 m (p + 1)) + push_bit 8 (k8 m (p + 2)) + k8 m (p + 3))"

subsection \<open>\<open>jenkins_hash.c\<close>\<close>

type_synonym abc = "u32 \<times> u32 \<times> u32"

definition rot :: "u32 \<Rightarrow> nat \<Rightarrow> u32" where
  "rot x k = push_bit k x XOR drop_bit (32 - k) x"

definition mix :: "abc \<Rightarrow> abc" where
  "mix = (\<lambda>(a, b, c).
     let a = a - c; a = a XOR rot c 4; c = c + b;
          b = b - a; b = b XOR rot a 6; a = a + c;
          c = c - b; c = c XOR rot b 8; b = b + a;
          a = a - c; a = a XOR rot c 16; c = c + b;
          b = b - a; b = b XOR rot a 19; a = a + c;
          c = c - b; c = c XOR rot b 4; b = b + a
      in (a, b, c))"

definition final :: "abc \<Rightarrow> abc" where
  "final = (\<lambda>(a, b, c).
     let c = c XOR b; c = c - rot b 14;
          a = a XOR c; a = a - rot c 11;
          b = b XOR a; b = b - rot a 25;
          c = c XOR b; c = c - rot b 16;
          a = a XOR c; a = a - rot c 4;
          b = b XOR a; b = b - rot a 14;
          c = c XOR b; c = c - rot b 24
      in (a, b, c))"

text \<open>The loop over all but the last block is the same on every path, up to how four bytes are added to a
  variable; \<open>add k a\<close> adds the bytes at \<open>k\<close> to \<open>a\<close>.\<close>

fun jenkins_loop :: "(nat \<Rightarrow> u32 \<Rightarrow> u32) \<Rightarrow> nat \<Rightarrow> nat \<Rightarrow> abc \<Rightarrow> nat \<times> nat \<times> abc" where
  "jenkins_loop add k len (a, b, c) =
     (if 12 < len then jenkins_loop add (k + 12) (len - 12) (mix (add k a, add (k + 4) b, add (k + 8) c)) else (k, len, (a, b, c)))"

declare jenkins_loop.simps [simp del]

definition jenkins_end :: "(nat \<Rightarrow> nat \<Rightarrow> abc \<Rightarrow> abc) \<Rightarrow> nat \<times> nat \<times> abc \<Rightarrow> u32" where
  "jenkins_end lst = (\<lambda>(k, len, s). if len = 0 then snd (snd s) else snd (snd (final (lst k len s))))"

text \<open>The last block of the little-endian version: words, half words, bytes.\<close>

definition last4_little :: "byte_order \<Rightarrow> memory \<Rightarrow> nat \<Rightarrow> nat \<Rightarrow> abc \<Rightarrow> abc" where
  "last4_little bo m k len = (\<lambda>(a, b, c).
     let k0 = k32 bo m k; k1 = k32 bo m (k + 4); k2 = k32 bo m (k + 8) in
     if len = 12 then (a + k0, b + k1, c + k2)
     else if len = 11 then (a + k0, b + k1, c + (k2 AND 0xffffff))
     else if len = 10 then (a + k0, b + k1, c + (k2 AND 0xffff))
     else if len = 9 then (a + k0, b + k1, c + (k2 AND 0xff))
     else if len = 8 then (a + k0, b + k1, c)
     else if len = 7 then (a + k0, b + (k1 AND 0xffffff), c)
     else if len = 6 then (a + k0, b + (k1 AND 0xffff), c)
     else if len = 5 then (a + k0, b + (k1 AND 0xff), c)
     else if len = 4 then (a + k0, b, c)
     else if len = 3 then (a + (k0 AND 0xffffff), b, c)
     else if len = 2 then (a + (k0 AND 0xffff), b, c)
     else if len = 1 then (a + (k0 AND 0xff), b, c)
     else (a, b, c))"

definition last2_little :: "byte_order \<Rightarrow> memory \<Rightarrow> nat \<Rightarrow> nat \<Rightarrow> abc \<Rightarrow> abc" where
  "last2_little bo m k len = (\<lambda>(a, b, c).
     let h = (\<lambda>i. k16 bo m (k + 2 * i)); b8 = (\<lambda>i. k8 m (k + i)) in
     if len = 12 then (a + (h 0 + push_bit 16 (h 1)), b + (h 2 + push_bit 16 (h 3)), c + (h 4 + push_bit 16 (h 5)))
     else if len = 11 then (a + (h 0 + push_bit 16 (h 1)), b + (h 2 + push_bit 16 (h 3)), c + push_bit 16 (b8 10) + h 4)
     else if len = 10 then (a + (h 0 + push_bit 16 (h 1)), b + (h 2 + push_bit 16 (h 3)), c + h 4)
     else if len = 9 then (a + (h 0 + push_bit 16 (h 1)), b + (h 2 + push_bit 16 (h 3)), c + b8 8)
     else if len = 8 then (a + (h 0 + push_bit 16 (h 1)), b + (h 2 + push_bit 16 (h 3)), c)
     else if len = 7 then (a + (h 0 + push_bit 16 (h 1)), b + push_bit 16 (b8 6) + h 2, c)
     else if len = 6 then (a + (h 0 + push_bit 16 (h 1)), b + h 2, c)
     else if len = 5 then (a + (h 0 + push_bit 16 (h 1)), b + b8 4, c)
     else if len = 4 then (a + (h 0 + push_bit 16 (h 1)), b, c)
     else if len = 3 then (a + push_bit 16 (b8 2) + h 0, b, c)
     else if len = 2 then (a + h 0, b, c)
     else if len = 1 then (a + b8 0, b, c)
     else (a, b, c))"

definition last1_little :: "memory \<Rightarrow> nat \<Rightarrow> nat \<Rightarrow> abc \<Rightarrow> abc" where
  "last1_little m k len = (\<lambda>(a, b, c).
     let c = (if 12 \<le> len then c + push_bit 24 (k8 m (k + 11)) else c);
         c = (if 11 \<le> len then c + push_bit 16 (k8 m (k + 10)) else c);
         c = (if 10 \<le> len then c + push_bit 8 (k8 m (k + 9)) else c);
         c = (if 9 \<le> len then c + k8 m (k + 8) else c);
         b = (if 8 \<le> len then b + push_bit 24 (k8 m (k + 7)) else b);
         b = (if 7 \<le> len then b + push_bit 16 (k8 m (k + 6)) else b);
         b = (if 6 \<le> len then b + push_bit 8 (k8 m (k + 5)) else b);
         b = (if 5 \<le> len then b + k8 m (k + 4) else b);
         a = (if 4 \<le> len then a + push_bit 24 (k8 m (k + 3)) else a);
         a = (if 3 \<le> len then a + push_bit 16 (k8 m (k + 2)) else a);
         a = (if 2 \<le> len then a + push_bit 8 (k8 m (k + 1)) else a);
         a = (if 1 \<le> len then a + k8 m k else a)
     in (a, b, c))"

definition jenkins_little :: "byte_order \<Rightarrow> memory \<Rightarrow> nat \<Rightarrow> nat \<Rightarrow> u32" where
  "jenkins_little bo m p len =
     (let i = 0xdeadbeef + of_nat len; s = (i, i, i) in
      if p mod 4 = 0 then jenkins_end (last4_little bo m) (jenkins_loop (\<lambda>k a. a + k32 bo m k) p len s)
      else if p mod 2 = 0 then
        jenkins_end (last2_little bo m) (jenkins_loop (\<lambda>k a. a + (k16 bo m k + push_bit 16 (k16 bo m (k + 2)))) p len s)
      else
        jenkins_end (last1_little m)
          (jenkins_loop (\<lambda>k a. a + k8 m k + push_bit 8 (k8 m (k + 1)) + push_bit 16 (k8 m (k + 2)) + push_bit 24 (k8 m (k + 3))) p len s))"

text \<open>The big-endian version: words, bytes.\<close>

definition last4_big :: "byte_order \<Rightarrow> memory \<Rightarrow> nat \<Rightarrow> nat \<Rightarrow> abc \<Rightarrow> abc" where
  "last4_big bo m k len = (\<lambda>(a, b, c).
     let k0 = k32 bo m k; k1 = k32 bo m (k + 4); k2 = k32 bo m (k + 8) in
     if len = 12 then (a + k0, b + k1, c + k2)
     else if len = 11 then (a + k0, b + k1, c + (k2 AND 0xffffff00))
     else if len = 10 then (a + k0, b + k1, c + (k2 AND 0xffff0000))
     else if len = 9 then (a + k0, b + k1, c + (k2 AND 0xff000000))
     else if len = 8 then (a + k0, b + k1, c)
     else if len = 7 then (a + k0, b + (k1 AND 0xffffff00), c)
     else if len = 6 then (a + k0, b + (k1 AND 0xffff0000), c)
     else if len = 5 then (a + k0, b + (k1 AND 0xff000000), c)
     else if len = 4 then (a + k0, b, c)
     else if len = 3 then (a + (k0 AND 0xffffff00), b, c)
     else if len = 2 then (a + (k0 AND 0xffff0000), b, c)
     else if len = 1 then (a + (k0 AND 0xff000000), b, c)
     else (a, b, c))"

definition last1_big :: "memory \<Rightarrow> nat \<Rightarrow> nat \<Rightarrow> abc \<Rightarrow> abc" where
  "last1_big m k len = (\<lambda>(a, b, c).
     let c = (if 12 \<le> len then c + k8 m (k + 11) else c);
         c = (if 11 \<le> len then c + push_bit 8 (k8 m (k + 10)) else c);
         c = (if 10 \<le> len then c + push_bit 16 (k8 m (k + 9)) else c);
         c = (if 9 \<le> len then c + push_bit 24 (k8 m (k + 8)) else c);
         b = (if 8 \<le> len then b + k8 m (k + 7) else b);
         b = (if 7 \<le> len then b + push_bit 8 (k8 m (k + 6)) else b);
         b = (if 6 \<le> len then b + push_bit 16 (k8 m (k + 5)) else b);
         b = (if 5 \<le> len then b + push_bit 24 (k8 m (k + 4)) else b);
         a = (if 4 \<le> len then a + k8 m (k + 3) else a);
         a = (if 3 \<le> len then a + push_bit 8 (k8 m (k + 2)) else a);
         a = (if 2 \<le> len then a + push_bit 16 (k8 m (k + 1)) else a);
         a = (if 1 \<le> len then a + push_bit 24 (k8 m k) else a)
     in (a, b, c))"

definition jenkins_big :: "byte_order \<Rightarrow> memory \<Rightarrow> nat \<Rightarrow> nat \<Rightarrow> u32" where
  "jenkins_big bo m p len =
     (let i = 0xdeadbeef + of_nat len; s = (i, i, i) in
      if p mod 4 = 0 then jenkins_end (last4_big bo m) (jenkins_loop (\<lambda>k a. a + k32 bo m k) p len s)
      else
        jenkins_end (last1_big m)
          (jenkins_loop (\<lambda>k a. a + push_bit 24 (k8 m k) + push_bit 16 (k8 m (k + 1)) + push_bit 8 (k8 m (k + 2)) + k8 m (k + 3)) p len s))"

text \<open>The first argument is the macro of the build that chooses the version.\<close>

definition jenkins_hash :: "byte_order \<Rightarrow> byte_order \<Rightarrow> memory \<Rightarrow> nat \<Rightarrow> nat \<Rightarrow> u32" where
  "jenkins_hash endian bo = (case endian of Little \<Rightarrow> jenkins_little bo | Big \<Rightarrow> jenkins_big bo)"

subsection \<open>\<open>murmur3_hash.c\<close>\<close>

definition rotl32 :: "u32 \<Rightarrow> nat \<Rightarrow> u32" where
  "rotl32 x r = push_bit r x OR drop_bit (32 - r) x"

definition fmix32 :: "u32 \<Rightarrow> u32" where
  "fmix32 h =
     (let h = h XOR drop_bit 16 h; h = h * 0x85ebca6b; h = h XOR drop_bit 13 h; h = h * 0xc2b2ae35
      in h XOR drop_bit 16 h)"

definition murmur_k :: "u32 \<Rightarrow> u32" where
  "murmur_k k1 = rotl32 (k1 * 0xcc9e2d51) 15 * 0x1b873593"

definition murmur_block :: "u32 \<Rightarrow> u32 \<Rightarrow> u32" where
  "murmur_block h1 k1 = rotl32 (h1 XOR murmur_k k1) 13 * 5 + 0xe6546b64"

text \<open>The loop counts up to zero from the negative number of blocks; \<open>blocks\<close> is the end of the last one.\<close>

primrec murmur_body :: "byte_order \<Rightarrow> memory \<Rightarrow> nat \<Rightarrow> nat \<Rightarrow> u32 \<Rightarrow> u32" where
  "murmur_body bo m blocks 0 h1 = h1"
| "murmur_body bo m blocks (Suc i) h1 = murmur_body bo m blocks i (murmur_block h1 (k32 bo m (blocks - 4 * Suc i)))"

definition MurmurHash3_x86_32 :: "byte_order \<Rightarrow> memory \<Rightarrow> nat \<Rightarrow> nat \<Rightarrow> u32" where
  "MurmurHash3_x86_32 bo m data len =
     (let nblocks = len div 4; tail = data + 4 * nblocks;
          h1 = murmur_body bo m tail nblocks 0;
          k1 = 0;
          k1 = (if len mod 4 = 3 then k1 XOR push_bit 16 (k8 m (tail + 2)) else k1);
          k1 = (if len mod 4 \<ge> 2 then k1 XOR push_bit 8 (k8 m (tail + 1)) else k1);
          h1 = (if len mod 4 \<ge> 1 then h1 XOR murmur_k (k1 XOR k8 m tail) else h1);
          h1 = h1 XOR of_nat len
      in fmix32 h1)"

subsection \<open>\<open>hash.c\<close>\<close>

datatype hashfunc_type = JENKINS_HASH | MURMUR3_HASH

type_synonym hash_fn = "memory \<Rightarrow> nat \<Rightarrow> nat \<Rightarrow> u32"

text \<open>An argument that is no value of the enumeration is \<open>None\<close>.\<close>

definition get_hash_func :: "byte_order \<Rightarrow> byte_order \<Rightarrow> hashfunc_type option \<Rightarrow> hash_fn option" where
  "get_hash_func endian bo type =
     (case type of
        Some JENKINS_HASH \<Rightarrow> Some (jenkins_hash endian bo)
      | Some MURMUR3_HASH \<Rightarrow> Some (MurmurHash3_x86_32 bo)
      | None \<Rightarrow> None)"

definition hash_init :: "byte_order \<Rightarrow> byte_order \<Rightarrow> hashfunc_type option \<Rightarrow> hash_fn option \<Rightarrow> int \<times> hash_fn option" where
  "hash_init endian bo type hash_func =
     (case type of
        Some JENKINS_HASH \<Rightarrow> (LFS_OK, Some (jenkins_hash endian bo))
      | Some MURMUR3_HASH \<Rightarrow> (LFS_OK, Some (MurmurHash3_x86_32 bo))
      | None \<Rightarrow> (-1, hash_func))"

subsection \<open>The keys as byte lists\<close>

lemma length_key [simp]: "length (key m p n) = n"
  by (simp add: key_def)

lemma key_0: "key m p 0 = []"
  by (simp add: key_def)

lemma key_Suc: "key m p (Suc n) = m p # key m (Suc p) n"
  unfolding key_def by (simp only: upt_conv_Cons map_Suc_upt [symmetric] zero_less_Suc list.map map_map o_def) simp

lemma take_key [simp]: "take i (key m p n) = key m p (min i n)"
  by (simp add: key_def take_map min_def)

lemma drop_key [simp]: "drop i (key m p n) = key m (p + i) (n - i)"
  by (rule nth_equalityI) (simp_all add: key_def add.assoc less_diff_conv add.commute [of i])

lemma key_cong: "(\<forall>i < n. m (p + i) = m' (p' + i)) \<Longrightarrow> key m p n = key m' p' n"
  by (simp add: key_def)

text \<open>Up to four bytes as a word, the first one least or most significant.\<close>

primrec word_little :: "byte list \<Rightarrow> u32" where
  "word_little [] = 0"
| "word_little (x # xs) = ucast x + push_bit 8 (word_little xs)"

definition word_big :: "byte list \<Rightarrow> u32" where
  "word_big xs = (\<Sum>i < length xs. push_bit (24 - 8 * i) (ucast (xs ! i)))"

definition word_of :: "byte_order \<Rightarrow> byte list \<Rightarrow> u32" where
  "word_of bo = (case bo of Little \<Rightarrow> word_little | Big \<Rightarrow> word_big)"

lemmas key_unfold = key_Suc key_0 eval_nat_numeral

lemma push_bit_add_word: "push_bit n (x + y) = push_bit n x + push_bit n (y :: u32)"
  by (simp add: push_bit_eq_mult distrib_right)

lemma word_little_keys:
  "word_little (key m p 0) = 0" "word_little (key m p (Suc 0)) = k8 m p"
  "word_little (key m p 2) = k8 m p + push_bit 8 (k8 m (p + 1))"
  "word_little (key m p 3) = k8 m p + push_bit 8 (k8 m (p + 1)) + push_bit 16 (k8 m (p + 2))"
  "word_little (key m p 4) = k8 m p + push_bit 8 (k8 m (p + 1)) + push_bit 16 (k8 m (p + 2)) + push_bit 24 (k8 m (p + 3))"
  by (simp_all add: key_unfold k8_def push_bit_add_word add.assoc)

lemma word_big_keys:
  "word_big (key m p 0) = 0" "word_big (key m p (Suc 0)) = push_bit 24 (k8 m p)"
  "word_big (key m p 2) = push_bit 24 (k8 m p) + push_bit 16 (k8 m (p + 1))"
  "word_big (key m p 3) = push_bit 24 (k8 m p) + push_bit 16 (k8 m (p + 1)) + push_bit 8 (k8 m (p + 2))"
  "word_big (key m p 4) = push_bit 24 (k8 m p) + push_bit 16 (k8 m (p + 1)) + push_bit 8 (k8 m (p + 2)) + k8 m (p + 3)"
  by (simp_all add: word_big_def key_unfold k8_def lessThan_Suc add.assoc)

lemma k32_word: "k32 bo m p = word_of bo (key m p 4)"
  by (cases bo) (simp_all add: k32_def word_of_def word_little_keys word_big_keys)

text \<open>The words that the code masks.\<close>

lemma take_bit_k8: "8 \<le> n \<Longrightarrow> take_bit n (k8 m p) = k8 m p"
  by (rule bit_word_eqI) (auto simp: k8_def bit_take_bit_iff bit_ucast_iff dest: bit_imp_le_length)

lemma k8_disjoint:
  "bit (k8 m p) n \<Longrightarrow> n < 8" "bit (push_bit i (k8 m p)) n \<Longrightarrow> i \<le> n \<and> n < i + 8"
  by (auto simp: k8_def bit_push_bit_iff bit_ucast_iff dest: bit_imp_le_length)

lemma or_bytes:
  "k8 m p + push_bit 8 (k8 m q) = k8 m p OR push_bit 8 (k8 m q)"
  "(k8 m p OR push_bit 8 (k8 m q)) + push_bit 16 (k8 m r) = (k8 m p OR push_bit 8 (k8 m q)) OR push_bit 16 (k8 m r)"
  "((k8 m p OR push_bit 8 (k8 m q)) OR push_bit 16 (k8 m r)) + push_bit 24 (k8 m s) = ((k8 m p OR push_bit 8 (k8 m q)) OR push_bit 16 (k8 m r)) OR push_bit 24 (k8 m s)"
  "push_bit 24 (k8 m p) + push_bit 16 (k8 m q) = push_bit 24 (k8 m p) OR push_bit 16 (k8 m q)"
  "(push_bit 24 (k8 m p) OR push_bit 16 (k8 m q)) + push_bit 8 (k8 m r) = (push_bit 24 (k8 m p) OR push_bit 16 (k8 m q)) OR push_bit 8 (k8 m r)"
  "((push_bit 24 (k8 m p) OR push_bit 16 (k8 m q)) OR push_bit 8 (k8 m r)) + k8 m s = ((push_bit 24 (k8 m p) OR push_bit 16 (k8 m q)) OR push_bit 8 (k8 m r)) OR k8 m s"
  by (rule disjunctive_add, auto simp: bit_or_iff dest!: k8_disjoint)+

lemma masks:
  "(0xff :: u32) = mask 8" "(0xffff :: u32) = mask 16" "(0xffffff :: u32) = mask 24"
  "(0xffffff00 :: u32) = NOT (mask 8)" "(0xffff0000 :: u32) = NOT (mask 16)" "(0xff000000 :: u32) = NOT (mask 24)"
  by (simp_all add: mask_eq_exp_minus_1)

lemma masked_little:
  "k32 Little m p AND 0xff = word_little (key m p (Suc 0))" "k32 Little m p AND 0xffff = word_little (key m p 2)"
  "k32 Little m p AND 0xffffff = word_little (key m p 3)"
  unfolding masks word_little_keys k32_def byte_order.case or_bytes
  by (rule bit_word_eqI, auto simp: bit_and_iff bit_or_iff bit_mask_iff dest: k8_disjoint)+

lemma masked_big:
  "k32 Big m p AND 0xff000000 = word_big (key m p (Suc 0))" "k32 Big m p AND 0xffff0000 = word_big (key m p 2)"
  "k32 Big m p AND 0xffffff00 = word_big (key m p 3)"
  unfolding masks word_big_keys k32_def byte_order.case or_bytes
  by (rule bit_word_eqI, auto simp: bit_and_iff bit_or_iff bit_not_iff bit_mask_iff dest: k8_disjoint)+

subsection \<open>Jenkins' hash of a byte list\<close>

definition add_block :: "(byte list \<Rightarrow> u32) \<Rightarrow> byte list \<Rightarrow> abc \<Rightarrow> abc" where
  "add_block w xs = (\<lambda>(a, b, c). (a + w (take 4 xs), b + w (take 4 (drop 4 xs)), c + w (take 4 (drop 8 xs))))"

fun jenkins_ref :: "(byte list \<Rightarrow> u32) \<Rightarrow> byte list \<Rightarrow> abc \<Rightarrow> u32" where
  "jenkins_ref w xs s =
     (if 12 < length xs then jenkins_ref w (drop 12 xs) (mix (add_block w xs s))
      else if xs = [] then snd (snd s) else snd (snd (final (add_block w xs s))))"

declare jenkins_ref.simps [simp del]

definition jenkins_init :: "nat \<Rightarrow> abc" where
  "jenkins_init n = (let i = 0xdeadbeef + of_nat n in (i, i, i))"

lemma key_Nil_iff [simp]: "key m p n = [] \<longleftrightarrow> n = 0"
  by (simp add: key_def)

lemma jenkins_loop_ref:
  assumes add: "\<And>k a. add k a = a + w (key m k 4)" and lst: "\<And>k len s. 0 < len \<Longrightarrow> len \<le> 12 \<Longrightarrow> lst k len s = add_block w (key m k len) s"
  shows "jenkins_end lst (jenkins_loop add p n s) = jenkins_ref w (key m p n) s"
proof (induction n arbitrary: p s rule: less_induct)
  case (less n)
  obtain a b c where s: "s = (a, b, c)" by (cases s)
  show ?case
  proof (cases "12 < n")
    case True
    then have "min 4 n = 4" "min 4 (n - 4) = 4" "min 4 (n - 8) = 4" by simp_all
    then have "add_block w (key m p n) s = (add p a, add (p + 4) b, add (p + 8) c)" by (simp add: add_block_def s add)
    then show ?thesis using True less [of "n - 12" "p + 12"] by (simp add: jenkins_loop.simps [of add p n] jenkins_ref.simps [of w "key m p n"] s)
  next
    case False
    then show ?thesis using lst [of n p s] by (simp add: jenkins_loop.simps [of add p n] jenkins_ref.simps [of w "key m p n"] jenkins_end_def s)
  qed
qed

lemma up_to_12: "0 < (n :: nat) \<Longrightarrow> n \<le> 12 \<Longrightarrow> n \<in> {1, 2, 3, 4, 5, 6, 7, 8, 9, 10, 11, 12}"
  by (simp; arith)

lemma Suc_3: "Suc (Suc (Suc k)) = k + 3"
  by simp

lemma last4_little_ref: "0 < len \<Longrightarrow> len \<le> 12 \<Longrightarrow> last4_little Little m k len s = add_block word_little (key m k len) s"
  by (drule (1) up_to_12, elim insertE emptyE)
    (simp_all add: last4_little_def add_block_def k32_word word_of_def masked_little [unfolded k32_word word_of_def byte_order.case] word_little_keys(1) min_def split_beta)

lemma last2_little_ref: "0 < len \<Longrightarrow> len \<le> 12 \<Longrightarrow> last2_little Little m k len s = add_block word_little (key m k len) s"
  by (drule (1) up_to_12, elim insertE emptyE)
    (simp_all add: last2_little_def add_block_def k16_def word_little_keys push_bit_add_word min_def split_beta algebra_simps Suc_3)

lemma last1_little_ref: "0 < len \<Longrightarrow> len \<le> 12 \<Longrightarrow> last1_little m k len s = add_block word_little (key m k len) s"
  by (drule (1) up_to_12, elim insertE emptyE)
    (simp_all add: last1_little_def add_block_def word_little_keys min_def split_beta algebra_simps Suc_3)

lemma last4_big_ref: "0 < len \<Longrightarrow> len \<le> 12 \<Longrightarrow> last4_big Big m k len s = add_block word_big (key m k len) s"
  by (drule (1) up_to_12, elim insertE emptyE)
    (simp_all add: last4_big_def add_block_def k32_word word_of_def masked_big [unfolded k32_word word_of_def byte_order.case] word_big_keys(1) min_def split_beta)

lemma last1_big_ref: "0 < len \<Longrightarrow> len \<le> 12 \<Longrightarrow> last1_big m k len s = add_block word_big (key m k len) s"
  by (drule (1) up_to_12, elim insertE emptyE)
    (simp_all add: last1_big_def add_block_def word_big_keys min_def split_beta algebra_simps Suc_3)

lemma jenkins_hash_ref: "jenkins_hash bo bo m p n = jenkins_ref (word_of bo) (key m p n) (jenkins_init n)"
proof (cases bo)
  case Little
  have l: "jenkins_end (last4_little Little m) (jenkins_loop (\<lambda>k a. a + k32 Little m k) p n s) = jenkins_ref word_little (key m p n) s"
    "jenkins_end (last2_little Little m) (jenkins_loop (\<lambda>k a. a + (k16 Little m k + push_bit 16 (k16 Little m (k + 2)))) p n s) = jenkins_ref word_little (key m p n) s"
    "jenkins_end (last1_little m)
      (jenkins_loop (\<lambda>k a. a + k8 m k + push_bit 8 (k8 m (k + 1)) + push_bit 16 (k8 m (k + 2)) + push_bit 24 (k8 m (k + 3))) p n s) = jenkins_ref word_little (key m p n) s" for s
    by (rule jenkins_loop_ref [OF _ last4_little_ref] jenkins_loop_ref [OF _ last2_little_ref] jenkins_loop_ref [OF _ last1_little_ref],
        simp_all add: k32_def k16_def word_little_keys push_bit_add_word add.assoc Suc_3)+
  show ?thesis unfolding Little jenkins_hash_def byte_order.case jenkins_little_def Let_def l jenkins_init_def word_of_def by simp
next
  case Big
  have l: "jenkins_end (last4_big Big m) (jenkins_loop (\<lambda>k a. a + k32 Big m k) p n s) = jenkins_ref word_big (key m p n) s"
    "jenkins_end (last1_big m)
      (jenkins_loop (\<lambda>k a. a + push_bit 24 (k8 m k) + push_bit 16 (k8 m (k + 1)) + push_bit 8 (k8 m (k + 2)) + k8 m (k + 3)) p n s) = jenkins_ref word_big (key m p n) s" for s
    by (rule jenkins_loop_ref [OF _ last4_big_ref] jenkins_loop_ref [OF _ last1_big_ref], simp_all add: k32_def word_big_keys add.assoc)+
  show ?thesis unfolding Big jenkins_hash_def byte_order.case jenkins_big_def Let_def l jenkins_init_def word_of_def by simp
qed

text \<open>\<open>mix\<close> is reversible, as its comment says: it is six times the same step, each with the variables rotated.\<close>

definition mix_step :: "nat \<Rightarrow> abc \<Rightarrow> abc" where
  "mix_step k = (\<lambda>(a, b, c). (b, c + b, (a - c) XOR rot c k))"

lemma mix_steps: "mix = mix_step 4 \<circ> mix_step 19 \<circ> mix_step 16 \<circ> mix_step 8 \<circ> mix_step 6 \<circ> mix_step 4"
  by (simp add: fun_eq_iff mix_def mix_step_def Let_def)

lemma mix_step_bij: "bij (mix_step k)"
proof (rule o_bij)
  let ?g = "\<lambda>(b, c, a). let c = c - b in ((a XOR rot c k) + c, b, c)"
  show "?g \<circ> mix_step k = id" by (simp add: fun_eq_iff mix_step_def xor.assoc)
  show "mix_step k \<circ> ?g = id" by (simp add: fun_eq_iff mix_step_def xor.assoc Let_def)
qed

definition final_step :: "nat \<Rightarrow> abc \<Rightarrow> abc" where
  "final_step k = (\<lambda>(a, b, c). (b, (c XOR b) - rot b k, a))"

lemma final_steps:
  "snd (snd (final s)) = fst (snd (final_step 24 (final_step 14 (final_step 4 (final_step 16 (final_step 25 (final_step 11 (final_step 14 s))))))))"
  by (cases s) (simp add: final_def final_step_def Let_def)

theorem mix_reversible: "bij mix"
  unfolding mix_steps by (intro bij_comp mix_step_bij)

subsection \<open>Murmur hash of a byte list\<close>

fun murmur_ref :: "byte_order \<Rightarrow> byte list \<Rightarrow> u32 \<Rightarrow> u32" where
  "murmur_ref bo xs h =
     (if 4 \<le> length xs then murmur_ref bo (drop 4 xs) (murmur_block h (word_of bo (take 4 xs)))
      else if xs = [] then h else h XOR murmur_k (word_little xs))"

declare murmur_ref.simps [simp del]

lemma xor_bytes:
  "push_bit 8 (k8 m q) XOR k8 m p = word_little [m p, m q]"
  "(push_bit 16 (k8 m r) XOR push_bit 8 (k8 m q)) XOR k8 m p = word_little [m p, m q, m r]"
proof -
  have x: "word_little [m p, m q] = k8 m p OR push_bit 8 (k8 m q)" "word_little [m p, m q, m r] = (k8 m p OR push_bit 8 (k8 m q)) OR push_bit 16 (k8 m r)"
    using or_bytes(1) [of m p q] or_bytes(2) [of m p q r] by (simp_all add: k8_def push_bit_add_word add.assoc [symmetric])
  have d: "\<not> (bit (k8 m p) n \<and> bit (push_bit 8 (k8 m q)) n)" "\<not> (bit (k8 m p) n \<and> bit (push_bit 16 (k8 m r)) n)"
    "\<not> (bit (push_bit 8 (k8 m q)) n \<and> bit (push_bit 16 (k8 m r)) n)" for n by (auto dest!: k8_disjoint)
  show "push_bit 8 (k8 m q) XOR k8 m p = word_little [m p, m q]"
    unfolding x by (rule bit_word_eqI) (use d in \<open>auto simp: bit_or_iff bit_xor_iff\<close>)
  show "(push_bit 16 (k8 m r) XOR push_bit 8 (k8 m q)) XOR k8 m p = word_little [m p, m q, m r]"
    unfolding x by (rule bit_word_eqI) (use d in \<open>auto simp: bit_or_iff bit_xor_iff\<close>)
qed

definition murmur_tail :: "memory \<Rightarrow> nat \<Rightarrow> nat \<Rightarrow> u32 \<Rightarrow> u32" where
  "murmur_tail m t r h =
     (let k1 = 0; k1 = (if r = 3 then k1 XOR push_bit 16 (k8 m (t + 2)) else k1);
          k1 = (if r \<ge> 2 then k1 XOR push_bit 8 (k8 m (t + 1)) else k1)
      in if r \<ge> 1 then h XOR murmur_k (k1 XOR k8 m t) else h)"

lemma murmur_tail_ref: "r < 4 \<Longrightarrow> murmur_tail m t r h = murmur_ref bo (key m t r) h"
proof -
  assume "r < 4"
  then have "r \<in> {0, 1, 2, 3}" by (simp; arith)
  moreover have "key m t 1 = [m t]" "key m t 2 = [m t, m (Suc t)]" "key m t 3 = [m t, m (Suc t), m (Suc (Suc t))]" by (simp_all add: key_unfold)
  moreover have "word_little [m t] = k8 m t" by (simp add: k8_def)
  ultimately show ?thesis
    by (elim insertE emptyE) (simp_all add: murmur_tail_def murmur_ref.simps xor_bytes del: word_little.simps)
qed

lemma murmur_body_ref: "r < 4 \<Longrightarrow> murmur_tail m (p + 4 * k) r (murmur_body bo m (p + 4 * k) k h) = murmur_ref bo (key m p (4 * k + r)) h"
proof (induction k arbitrary: p h)
  case 0
  then show ?case using murmur_tail_ref by simp
next
  case (Suc k)
  have "murmur_ref bo (key m p (4 * Suc k + r)) h = murmur_ref bo (key m (p + 4) (4 * k + r)) (murmur_block h (k32 bo m p))"
    by (subst murmur_ref.simps) (simp add: k32_word)
  then show ?case using Suc.IH [of "p + 4" "murmur_block h (k32 bo m p)"] Suc.prems by (simp add: algebra_simps)
qed

lemma murmur_hash_ref: "MurmurHash3_x86_32 bo m p n = fmix32 (murmur_ref bo (key m p n) 0 XOR of_nat n)"
proof -
  have "MurmurHash3_x86_32 bo m p n = fmix32 (murmur_tail m (p + 4 * (n div 4)) (n mod 4) (murmur_body bo m (p + 4 * (n div 4)) (n div 4) 0) XOR of_nat n)"
    by (simp add: MurmurHash3_x86_32_def murmur_tail_def Let_def)
  then show ?thesis using murmur_body_ref [of "n mod 4" m p "n div 4" bo 0] by simp
qed

lemmas demo_eval = jenkins_hash_def jenkins_big_def jenkins_loop.simps jenkins_end_def last4_big_def last1_big_def k32_def k8_def

subsection \<open>Properties\<close>

definition hash_spec :: "hashfunc_type \<Rightarrow> byte_order \<Rightarrow> byte list \<Rightarrow> u32" where
  "hash_spec type bo xs =
     (case type of
        JENKINS_HASH \<Rightarrow> jenkins_ref (word_of bo) xs (jenkins_init (length xs))
      | MURMUR3_HASH \<Rightarrow> fmix32 (murmur_ref bo xs 0 XOR of_nat (length xs)))"

text \<open>C11: The hash function that the servers install computes a function of the bytes of the key alone: it agrees
  with the definition of the hash on byte lists at every address, on the paths that read words and half
  words and mask what lies behind the key as well as on the path that reads bytes. For Jenkins' hash the
  macro of the build has to name the byte order of the machine.\<close>

theorem hash_depends_on_key_only:
  assumes "hash_init endian bo (Some type) h = (LFS_OK, Some f)" and "type = MURMUR3_HASH \<or> endian = bo"
  shows "f m p n = hash_spec type bo (key m p n)"
proof (cases type)
  case JENKINS_HASH
  then show ?thesis using assms jenkins_hash_ref [of bo m p n] by (simp add: hash_init_def hash_spec_def)
next
  case MURMUR3_HASH
  then show ?thesis using assms murmur_hash_ref [of bo m p n] by (simp add: hash_init_def hash_spec_def)
qed

text \<open>C35: The build defines \<open>ENDIAN_BIG\<close> on every machine. On a little-endian machine Jenkins' hash then gives the same
  four bytes different values at two addresses, and the value of three bytes depends on the byte that
  follows them in memory.\<close>

theorem jenkins_hash_wrong_order:
  "(\<exists>m p p'. key m p 4 = key m p' 4 \<and> jenkins_hash Big Little m p 4 \<noteq> jenkins_hash Big Little m p' 4) \<and>
   (\<exists>m m' p. key m p 3 = key m' p 3 \<and> jenkins_hash Big Little m p 3 \<noteq> jenkins_hash Big Little m' p 3)"
proof (intro conjI exI)
  let ?m = "\<lambda>a. if a = 0 \<or> a = 5 then 1 else 0" and ?m' = "\<lambda>a. if a = 3 then 1 else 0"
  have a: "jenkins_hash Big Little ?m 0 4 = snd (snd (final (0xdeadbef4, 0xdeadbef3, 0xdeadbef3)))"
    "jenkins_hash Big Little ?m 5 4 = snd (snd (final (0xdfadbef3, 0xdeadbef3, 0xdeadbef3)))" by (simp_all add: demo_eval)
  have b: "jenkins_hash Big Little (\<lambda>_. 0) 0 3 = snd (snd (final (0xdeadbef2, 0xdeadbef2, 0xdeadbef2)))"
    "jenkins_hash Big Little ?m' 0 3 = snd (snd (final (0xdfadbef2, 0xdeadbef2, 0xdeadbef2)))" by (simp_all add: demo_eval)
  show "key ?m 0 4 = key ?m 5 4" by (rule key_cong) auto
  show "jenkins_hash Big Little ?m 0 4 \<noteq> jenkins_hash Big Little ?m 5 4" unfolding a final_steps by (simp add: final_step_def rot_def)
  show "key (\<lambda>_. 0) 0 3 = key ?m' 0 3" by (rule key_cong) auto
  show "jenkins_hash Big Little (\<lambda>_. 0) 0 3 \<noteq> jenkins_hash Big Little ?m' 0 3" unfolding b final_steps by (simp add: final_step_def rot_def)
qed

subsection \<open>Witnesses\<close>

definition demo_memory :: memory where
  "demo_memory = (\<lambda>a. if 6 \<le> a \<and> a < 11 then asc ''hello'' ! (a - 6) else 0)"

text \<open>The published value of the hash of \<open>hello\<close> with the seed zero.\<close>

theorem hash_depends_on_key_only_witness:
  "fst (hash_init Big Little (Some MURMUR3_HASH) None) = LFS_OK \<and> hash_spec MURMUR3_HASH Little (key demo_memory 6 5) = 0x248bfa47 \<and>
   the (snd (hash_init Big Little (Some MURMUR3_HASH) None)) demo_memory 6 5 = 0x248bfa47"
proof -
  let ?f = "MurmurHash3_x86_32 Little"
  have i: "hash_init Big Little (Some MURMUR3_HASH) None = (LFS_OK, Some ?f)" by (simp add: hash_init_def)
  have v: "?f demo_memory 6 5 = 0x248bfa47" by code_simp
  show ?thesis using hash_depends_on_key_only [OF i, of demo_memory 6 5] i v by simp
qed


end
