(* ===== verification/Ts_Datasevr.thy ===== *)
theory Ts_Datasevr
  imports Heap
begin

text \<open>
  The data servers as the tracker knows them (\<open>src/trackerserver/ts_types.h\<close>, \<open>ts_datasevr.c\<close>): a
  block is one data server, a volume the group of blocks that mirror each other. A volume holds a
  growing array of addresses of blocks. The lemmas show that insertion keeps the array within its
  bounds and that every inserted block can be found again.
\<close>

subsection \<open>Data\<close>

text \<open>\<open>St_code\<close> and \<open>Ty_code\<close> are values outside of the enumerations, which an \<open>enum\<close> variable holds
  when it is filled from a file.\<close>

datatype datasevr_state =
  St_init | St_wait_sync | St_syncing | St_on_line | St_active | St_off_line | St_deleted | St_code int

datatype datasevr_type = Ty_master_server | Ty_slave_server | Ty_code int

definition state_code :: "datasevr_state \<Rightarrow> int" where
  "state_code st =
     (case st of St_init \<Rightarrow> 0 | St_wait_sync \<Rightarrow> 1 | St_syncing \<Rightarrow> 2 | St_on_line \<Rightarrow> 3 | St_active \<Rightarrow> 4
      | St_off_line \<Rightarrow> 5 | St_deleted \<Rightarrow> 6 | St_code i \<Rightarrow> i)"

definition state_of_code :: "int \<Rightarrow> datasevr_state" where
  "state_of_code i =
     (if i = 0 then St_init else if i = 1 then St_wait_sync else if i = 2 then St_syncing
      else if i = 3 then St_on_line else if i = 4 then St_active else if i = 5 then St_off_line
      else if i = 6 then St_deleted else St_code i)"

definition type_code :: "datasevr_type \<Rightarrow> int" where
  "type_code ty = (case ty of Ty_master_server \<Rightarrow> 0 | Ty_slave_server \<Rightarrow> 1 | Ty_code i \<Rightarrow> i)"

definition type_of_code :: "int \<Rightarrow> datasevr_type" where
  "type_of_code i = (if i = 0 then Ty_master_server else if i = 1 then Ty_slave_server else Ty_code i)"

lemma state_code_of_code [simp]: "state_code (state_of_code i) = i"
  by (simp add: state_code_def state_of_code_def)

lemma type_code_of_code [simp]: "type_code (type_of_code i) = i"
  by (simp add: type_code_def type_of_code_def)

record datasevr_block =
  parent_volume_id :: u32
  block_id :: u32
  blk_state :: datasevr_state
  map_info :: cstr
  ip_addr :: cstr
  blk_type :: datasevr_type
  blk_port :: int
  curr_conns :: int
  blk_weight :: int
  blk_heart_beat_interval :: int
  total_mb :: int
  free_mb :: int
  reg_time :: int
  started_time :: int
  last_sync_sequence :: int
  last_heartbeat_time :: int
  last_statreporttimestamp :: int

record datasevr_volume =
  dv_next :: nat
  volume_id :: u32
  block_count :: nat
  slave_block_count :: int
  allocs_size :: nat
  master_block_index :: int
  last_read_block_index :: int
  check_master_failed_count :: int
  dv_blocks :: "nat list"

definition LFS_MAX_BLOCKS_EACH_VOLUME :: nat where
  "LFS_MAX_BLOCKS_EACH_VOLUME = 3"

subsection \<open>Operations\<close>

definition zero_block :: datasevr_block where
  "zero_block =
     \<lparr>parent_volume_id = 0, block_id = 0, blk_state = St_init, map_info = [], ip_addr = [],
      blk_type = Ty_master_server, blk_port = 0, curr_conns = 0, blk_weight = 0,
      blk_heart_beat_interval = 0, total_mb = 0, free_mb = 0, reg_time = 0, started_time = 0,
      last_sync_sequence = 0, last_heartbeat_time = 0, last_statreporttimestamp = 0\<rparr>"

definition block_new :: "datasevr_block heap \<Rightarrow> nat \<times> datasevr_block heap" where
  "block_new h = malloc zero_block h"

definition block_free :: "nat \<Rightarrow> datasevr_block heap \<Rightarrow> datasevr_block heap" where
  "block_free p h = (if p = NULL then h else mfree p h)"

definition empty_volume :: datasevr_volume where
  "empty_volume =
     \<lparr>dv_next = NULL, volume_id = 0, block_count = 0, slave_block_count = 0,
      allocs_size = LFS_MAX_BLOCKS_EACH_VOLUME, master_block_index = -1, last_read_block_index = 0,
      check_master_failed_count = 0, dv_blocks = replicate LFS_MAX_BLOCKS_EACH_VOLUME NULL\<rparr>"

text \<open>\<open>volume_free\<close> looks at the blocks only when there is no array (an array has at least three entries,
  so \<open>[]\<close> stands for a \<open>NULL\<close> pointer) and never frees the array or the volume itself. The loop over a
  missing array dereferences \<open>NULL\<close>.\<close>

definition volume_free :: "datasevr_volume option \<Rightarrow> datasevr_block heap \<Rightarrow> datasevr_block heap option" where
  "volume_free dv h =
     (case dv of
        None \<Rightarrow> Some h
      | Some v \<Rightarrow> if dv_blocks v = [] \<and> block_count v > 0 then None else Some h)"

text \<open>On the failure of the second allocation the volume stays allocated (without an array).\<close>

definition volume_new :: "datasevr_volume heap \<Rightarrow> nat \<times> datasevr_volume heap" where
  "volume_new h =
     (let (dv, h1) = malloc empty_volume h in
      if dv = NULL then (NULL, h1)
      else
        let (ok, h2) = reserve h1 in
        if \<not> ok then (NULL, store dv (empty_volume\<lparr>allocs_size := 0, master_block_index := 0, dv_blocks := []\<rparr>) h2)
        else (dv, h2))"

text \<open>\<open>ok\<close> is the outcome of the allocation of the new array.\<close>

definition datasevrvolume_resize :: "bool \<Rightarrow> datasevr_volume \<Rightarrow> int \<times> datasevr_volume" where
  "datasevrvolume_resize ok dv =
     (let new_size = allocs_size dv + LFS_MAX_BLOCKS_EACH_VOLUME in
      if \<not> ok then (LFS_ERROR, dv)
      else (LFS_OK,
            dv\<lparr>dv_blocks := take (block_count dv) (dv_blocks dv) @ replicate (new_size - block_count dv) NULL,
               allocs_size := new_size\<rparr>))"

definition datasevrvolume_insert :: "bool \<Rightarrow> datasevr_volume \<Rightarrow> nat \<Rightarrow> int \<times> datasevr_volume" where
  "datasevrvolume_insert ok dv dblk =
     (let (ret, dv1) = (if block_count dv \<ge> allocs_size dv then datasevrvolume_resize ok dv else (LFS_OK, dv)) in
      if ret \<noteq> 0 then (ret, dv1)
      else (LFS_OK, dv1\<lparr>dv_blocks := (dv_blocks dv1)[block_count dv1 := dblk],
                        block_count := block_count dv1 + 1\<rparr>))"

definition do_block_insert :: "bool \<Rightarrow> datasevr_volume \<Rightarrow> nat \<Rightarrow> int \<times> datasevr_volume" where
  "do_block_insert ok dv dblk = datasevrvolume_insert ok dv dblk"

text \<open>The search loop over the entries of the array; \<open>None\<close> when it reads a block that is not
  allocated.\<close>

primrec find_block :: "(nat \<rightharpoonup> datasevr_block) \<Rightarrow> u32 \<Rightarrow> nat list \<Rightarrow> nat option" where
  "find_block c bid [] = Some NULL"
| "find_block c bid (p # ps) =
     (if p = NULL then find_block c bid ps
      else case c p of
             None \<Rightarrow> None
           | Some b \<Rightarrow> if block_id b = bid then Some p else find_block c bid ps)"

text \<open>\<open>dv\<close> is \<open>None\<close> for a \<open>NULL\<close> argument.\<close>

definition do_block_find ::
  "datasevr_block heap \<Rightarrow> datasevr_volume option \<Rightarrow> u32 \<Rightarrow> nat option" where
  "do_block_find h dv bid =
     (case dv of
        None \<Rightarrow> Some NULL
      | Some v \<Rightarrow> find_block (cells h) bid (take (block_count v) (dv_blocks v)))"

subsection \<open>The invariant of a volume\<close>

definition vol_blocks :: "datasevr_volume \<Rightarrow> nat list" where
  "vol_blocks dv = take (block_count dv) (dv_blocks dv)"

text \<open>The array has the allocated size, the used part consists of allocated blocks.\<close>

definition vol_ok :: "(nat \<rightharpoonup> datasevr_block) \<Rightarrow> datasevr_volume \<Rightarrow> bool" where
  "vol_ok c dv \<longleftrightarrow>
     length (dv_blocks dv) = allocs_size dv \<and> block_count dv \<le> allocs_size dv \<and>
     (\<forall>p \<in> set (vol_blocks dv). p \<noteq> NULL \<and> p \<in> dom c) \<and>
     master_block_index dv < int (block_count dv) \<and> -1 \<le> master_block_index dv"

lemma vol_ok_empty [simp]: "vol_ok c empty_volume"
  by (simp add: vol_ok_def empty_volume_def vol_blocks_def)

lemma datasevrvolume_insert_spec:
  assumes ok: "vol_ok c dv" and p: "p \<noteq> NULL" "p \<in> dom c"
    and r: "datasevrvolume_insert ok' dv p = (ret, dv')"
  shows "ret = LFS_OK \<Longrightarrow> vol_ok c dv' \<and> vol_blocks dv' = vol_blocks dv @ [p]"
    and "ret \<noteq> LFS_OK \<Longrightarrow> dv' = dv"
    and "block_count dv < allocs_size dv \<or> ok' \<Longrightarrow> ret = LFS_OK"
proof -
  define dv1 where "dv1 = snd (if block_count dv \<ge> allocs_size dv then datasevrvolume_resize ok' dv else (LFS_OK, dv))"
  have len: "length (dv_blocks dv) = allocs_size dv" "block_count dv \<le> allocs_size dv"
    using ok by (simp_all add: vol_ok_def)
  have c: "ret = LFS_OK \<longrightarrow> length (dv_blocks dv1) = allocs_size dv1 \<and> block_count dv1 < allocs_size dv1 \<and>
      block_count dv1 = block_count dv \<and> vol_blocks dv1 = vol_blocks dv \<and>
      master_block_index dv1 = master_block_index dv \<and>
      dv' = dv1\<lparr>dv_blocks := (dv_blocks dv1)[block_count dv1 := p], block_count := block_count dv1 + 1\<rparr>"
    using r len by (auto simp: datasevrvolume_insert_def datasevrvolume_resize_def dv1_def vol_blocks_def
        LFS_MAX_BLOCKS_EACH_VOLUME_def Let_def split: if_splits)
  show "ret = LFS_OK \<Longrightarrow> vol_ok c dv' \<and> vol_blocks dv' = vol_blocks dv @ [p]"
  proof -
    assume "ret = LFS_OK"
    with c have d: "length (dv_blocks dv1) = allocs_size dv1" "block_count dv1 < allocs_size dv1"
      "block_count dv1 = block_count dv" "vol_blocks dv1 = vol_blocks dv"
      "master_block_index dv1 = master_block_index dv"
      "dv' = dv1\<lparr>dv_blocks := (dv_blocks dv1)[block_count dv1 := p], block_count := block_count dv1 + 1\<rparr>"
      by blast+
    have "vol_blocks dv' = vol_blocks dv1 @ [p]"
      using d(1,2) by (simp add: d(6) vol_blocks_def take_Suc_conv_app_nth)
    then show ?thesis using d ok p by (auto simp: vol_ok_def)
  qed
  show "ret \<noteq> LFS_OK \<Longrightarrow> dv' = dv" "block_count dv < allocs_size dv \<or> ok' \<Longrightarrow> ret = LFS_OK"
    using r by (auto simp: datasevrvolume_insert_def datasevrvolume_resize_def Let_def split: if_splits)
qed

subsection \<open>Searching\<close>

lemma find_block_spec:
  "\<forall>p \<in> set ps. p \<noteq> NULL \<and> p \<in> dom c \<Longrightarrow>
   find_block c bid ps = Some (case find (\<lambda>p. block_id (the (c p)) = bid) ps of None \<Rightarrow> NULL | Some p \<Rightarrow> p)"
  by (induction ps) auto

lemma do_block_find_spec:
  assumes "vol_ok (cells h) dv"
  shows "\<exists>p. do_block_find h (Some dv) bid = Some p \<and>
    (if \<exists>q \<in> set (vol_blocks dv). block_id (the (cells h q)) = bid
     then p \<in> set (vol_blocks dv) \<and> block_id (the (cells h p)) = bid else p = NULL)"
proof -
  have s: "do_block_find h (Some dv) bid
      = Some (case find (\<lambda>p. block_id (the (cells h p)) = bid) (vol_blocks dv) of None \<Rightarrow> NULL | Some p \<Rightarrow> p)"
    using assms by (simp add: do_block_find_def vol_blocks_def [symmetric] vol_ok_def find_block_spec)
  show ?thesis
  proof (cases "find (\<lambda>p. block_id (the (cells h p)) = bid) (vol_blocks dv)")
    case None
    then have "\<not> (\<exists>q \<in> set (vol_blocks dv). block_id (the (cells h q)) = bid)"
      by (auto simp: find_None_iff)
    with s None show ?thesis by simp
  next
    case (Some p)
    then have "p \<in> set (vol_blocks dv)" "block_id (the (cells h p)) = bid"
      by (auto simp: find_Some_iff)
    then show ?thesis using s Some by auto
  qed
qed

subsection \<open>Properties\<close>

text \<open>C25: Inserting a block into a volume keeps the array of blocks within its allocated size and all
  of its entries live: either the block is appended (growing the array when it is full) or, when
  the array cannot grow, the volume is unchanged and an error is returned. Afterwards a search for
  the identifier of any block of the volume finds a block with that identifier and never reads
  outside of the array or a dead block.\<close>

theorem volume_insert_find:
  assumes "vol_ok (cells h) dv" and "p \<noteq> NULL" "p \<in> dom (cells h)"
    and "do_block_insert ok dv p = (ret, dv')"
  shows "(ret = LFS_OK \<and> vol_blocks dv' = vol_blocks dv @ [p] \<or> ret = LFS_ERROR \<and> dv' = dv) \<and>
    vol_ok (cells h) dv' \<and>
    (\<exists>q. do_block_find h (Some dv') bid = Some q \<and>
      (if \<exists>r \<in> set (vol_blocks dv'). block_id (the (cells h r)) = bid
       then q \<in> set (vol_blocks dv') \<and> block_id (the (cells h q)) = bid else q = NULL))"
proof (intro conjI)
  note i = datasevrvolume_insert_spec [OF assms(1-3) assms(4) [unfolded do_block_insert_def]]
  have "ret = LFS_OK \<or> ret = LFS_ERROR"
    using assms(4) by (auto simp: do_block_insert_def datasevrvolume_insert_def datasevrvolume_resize_def
        Let_def split: if_splits)
  then show "ret = LFS_OK \<and> vol_blocks dv' = vol_blocks dv @ [p] \<or> ret = LFS_ERROR \<and> dv' = dv"
    using i(1,2) by auto
  show v: "vol_ok (cells h) dv'" using i(1,2) assms(1) by (cases "ret = LFS_OK") auto
  show "\<exists>q. do_block_find h (Some dv') bid = Some q \<and>
      (if \<exists>r \<in> set (vol_blocks dv'). block_id (the (cells h r)) = bid
       then q \<in> set (vol_blocks dv') \<and> block_id (the (cells h q)) = bid else q = NULL)"
    by (rule do_block_find_spec [OF v])
qed

definition demo_blocks :: "datasevr_block heap" where
  "demo_blocks = \<lparr>cells = [1 \<mapsto> zero_block\<lparr>block_id := 7\<rparr>], brk = 2, oom = (\<lambda>_. False), nalloc = 1\<rparr>"

theorem volume_insert_find_witness:
  "\<exists>ret dv' q. do_block_insert True empty_volume 1 = (ret, dv') \<and> vol_ok (cells demo_blocks) dv' \<and>
     do_block_find demo_blocks (Some dv') 7 = Some q \<and> q \<in> set (vol_blocks dv') \<and>
     block_id (the (cells demo_blocks q)) = 7"
proof -
  obtain ret dv' where r: "do_block_insert True empty_volume 1 = (ret, dv')" by fastforce
  have "ret = LFS_OK" using r
    by (auto simp: do_block_insert_def datasevrvolume_insert_def empty_volume_def LFS_MAX_BLOCKS_EACH_VOLUME_def)
  moreover have "1 \<in> dom (cells demo_blocks)" "block_id (the (cells demo_blocks 1)) = 7"
    by (simp_all add: demo_blocks_def)
  ultimately show ?thesis
    using volume_insert_find [of demo_blocks empty_volume 1 True ret dv' 7] r by auto
qed

end
