(* ===== verification/Ts_Wlc.thy ===== *)
theory Ts_Wlc
  imports Ts_Datasevr "HOL-Library.Monad_Syntax" "HOL-Library.Product_Lexorder" "HOL-Library.Multiset"
begin

unbundle bit_operations_syntax

text \<open>
  The skip list that orders the data servers by their number of connections
  (\<open>src/trackerserver/ts_wlc.c\<close>). Nodes live in a store; a node holds one forward pointer per level.
  \<open>sl_rep\<close> relates a skip list to the list of its nodes: every level links the nodes that are high
  enough, in order of weight and block identifier, and the backward pointers run the other way. The
  lemmas show that insertion keeps this invariant and inserts at the right place, that a search is
  sound, and when a search or a deletion is complete: the search loops of \<open>wlcsl_find\<close> and
  \<open>wlcsl_delete\<close> do not stop at larger identifiers of the same weight, so they can miss a node.
\<close>

subsection \<open>Data\<close>

record wlc_skiplist_node =
  wn_dblk :: nat
  wn_wlc :: int
  wn_backward :: nat
  wn_level :: "nat list"

record wlc_skiplist =
  sl_header :: nat
  sl_tail :: nat
  sl_length :: nat
  sl_level :: nat

record wlc_ctx =
  ctx_dblk :: nat
  old_wlc :: int
  new_wlc :: int

type_synonym nodes = "nat \<rightharpoonup> wlc_skiplist_node"
type_synonym blocks = "nat \<rightharpoonup> datasevr_block"

definition WLC_SKIPLIST_MAX_LEVEL :: nat where
  "WLC_SKIPLIST_MAX_LEVEL = 16"

subsection \<open>Creation\<close>

text \<open>The result of \<open>malloc\<close> is not tested: when it is \<open>NULL\<close> the assignments that follow are undefined.
  The fields that the source leaves uninitialised are \<open>NULL\<close> here; every caller assigns them all.\<close>

definition wlcsl_node_new ::
  "nat \<Rightarrow> int \<Rightarrow> nat \<Rightarrow> wlc_skiplist_node heap \<Rightarrow> (nat \<times> wlc_skiplist_node heap) option" where
  "wlcsl_node_new level wlc dblk h =
     (let (wsn, h') = malloc \<lparr>wn_dblk = dblk, wn_wlc = wlc, wn_backward = NULL, wn_level = replicate level NULL\<rparr> h in
      if wsn = NULL then None else Some (wsn, h'))"

definition wlcsl_create :: "wlc_skiplist_node heap \<Rightarrow> (wlc_skiplist \<times> wlc_skiplist_node heap) option" where
  "wlcsl_create h =
     (let (ok, h1) = reserve h in
      if \<not> ok then None
      else do {
        (hdr, h2) \<leftarrow> wlcsl_node_new WLC_SKIPLIST_MAX_LEVEL 0 NULL h1;
        Some (\<lparr>sl_header = hdr, sl_tail = NULL, sl_length = 0, sl_level = 1\<rparr>, h2)
      })"

text \<open>\<open>x->level[i].forward\<close>, read and assigned; \<open>None\<close> outside of the array of the node.\<close>

definition fwd :: "nodes \<Rightarrow> nat \<Rightarrow> nat \<Rightarrow> nat option" where
  "fwd c i p =
     (case c p of
        None \<Rightarrow> None
      | Some n \<Rightarrow> if i < length (wn_level n) then Some (wn_level n ! i) else None)"

definition set_fwd :: "nodes \<Rightarrow> nat \<Rightarrow> nat \<Rightarrow> nat \<Rightarrow> nodes option" where
  "set_fwd c i p q =
     (case c p of
        None \<Rightarrow> None
      | Some n \<Rightarrow> if i < length (wn_level n) then Some (c(p \<mapsto> n\<lparr>wn_level := (wn_level n)[i := q]\<rparr>)) else None)"

definition set_backward :: "nodes \<Rightarrow> nat \<Rightarrow> nat \<Rightarrow> nodes option" where
  "set_backward c p q = (case c p of None \<Rightarrow> None | Some n \<Rightarrow> Some (c(p \<mapsto> n\<lparr>wn_backward := q\<rparr>)))"

partial_function (option) free_nodes :: "nodes \<Rightarrow> nat \<Rightarrow> nodes option" where
  [code]: "free_nodes c node =
     (if node = NULL then Some c
      else do {
        nxt \<leftarrow> fwd c 0 node;
        free_nodes (c(node := None)) nxt
      })"

definition wlcsl_free :: "wlc_skiplist \<Rightarrow> nodes \<Rightarrow> nodes option" where
  "wlcsl_free wlcsl c =
     do {
       node \<leftarrow> fwd c 0 (sl_header wlcsl);
       free_nodes (c(sl_header wlcsl := None)) node
     }"

subsection \<open>The random level\<close>

text \<open>\<open>random\<close> is the sequence of the results of \<open>random()\<close>, \<open>k\<close> the number of calls so far. The bound
  \<open>0.25 * 0xFFFF\<close> of the source is written without fractions.\<close>

partial_function (option) random_level_loop :: "(nat \<Rightarrow> int) \<Rightarrow> nat \<Rightarrow> nat \<Rightarrow> (nat \<times> nat) option" where
  [code]: "random_level_loop random k level =
     (if 4 * (random k AND 0xFFFF) < 0xFFFF then random_level_loop random (Suc k) (level + 1)
      else Some (level, Suc k))"

definition wlcsl_random_level :: "(nat \<Rightarrow> int) \<Rightarrow> nat \<Rightarrow> (nat \<times> nat) option" where
  "wlcsl_random_level random k =
     do {
       (level, k') \<leftarrow> random_level_loop random k 1;
       Some (if level < WLC_SKIPLIST_MAX_LEVEL then level else WLC_SKIPLIST_MAX_LEVEL, k')
     }"

subsection \<open>Searching\<close>

text \<open>The loop condition on the next node in \<open>wlcsl_insert\<close>, and in \<open>wlcsl_find\<close> and \<open>wlcsl_delete\<close>: the
  blocks are only read for equal weights.\<close>

definition before_insert :: "blocks \<Rightarrow> int \<Rightarrow> nat \<Rightarrow> wlc_skiplist_node \<Rightarrow> bool option" where
  "before_insert b wlc dblk n =
     (if wn_wlc n < wlc then Some True
      else if wn_wlc n = wlc then do {
        d \<leftarrow> b (wn_dblk n);
        e \<leftarrow> b dblk;
        Some (block_id d < block_id e)
      }
      else Some False)"

definition before_find :: "blocks \<Rightarrow> int \<Rightarrow> nat \<Rightarrow> wlc_skiplist_node \<Rightarrow> bool option" where
  "before_find b wlc dblk n =
     (if wn_wlc n < wlc then Some True
      else if wn_wlc n = wlc then do {
        d \<leftarrow> b (wn_dblk n);
        e \<leftarrow> b dblk;
        Some (block_id d \<noteq> block_id e)
      }
      else Some False)"

partial_function (option) advance ::
  "(wlc_skiplist_node \<Rightarrow> bool option) \<Rightarrow> nodes \<Rightarrow> nat \<Rightarrow> nat \<Rightarrow> nat option" where
  [code]: "advance test c i x =
     do {
       f \<leftarrow> fwd c i x;
       if f = NULL then Some x
       else do {
         n \<leftarrow> c f;
         t \<leftarrow> test n;
         if t then advance test c i f else Some x
       }
     }"

text \<open>The loop over the levels, from the highest down: the last node reached and the array \<open>update\<close>.\<close>

primrec descend ::
  "(wlc_skiplist_node \<Rightarrow> bool option) \<Rightarrow> nodes \<Rightarrow> nat \<Rightarrow> nat \<Rightarrow> (nat \<times> nat list) option" where
  "descend test c 0 x = Some (x, [])"
| "descend test c (Suc i) x =
     do {
       y \<leftarrow> advance test c i x;
       (z, update) \<leftarrow> descend test c i y;
       Some (z, update @ [y])
     }"

subsection \<open>Insertion\<close>

text \<open>The loop that links the node \<open>x\<close> behind \<open>update[i]\<close> on the levels from \<open>i\<close> on.\<close>

primrec link_levels :: "nat list \<Rightarrow> nat \<Rightarrow> nat \<Rightarrow> nodes \<Rightarrow> nodes option" where
  "link_levels [] x i c = Some c"
| "link_levels (u # us) x i c =
     do {
       f \<leftarrow> fwd c i u;
       c1 \<leftarrow> set_fwd c i x f;
       c2 \<leftarrow> set_fwd c1 i u x;
       link_levels us x (Suc i) c2
     }"

definition wlcsl_insert ::
  "(nat \<Rightarrow> int) \<Rightarrow> nat \<Rightarrow> blocks \<Rightarrow> wlc_skiplist \<Rightarrow> int \<Rightarrow> nat \<Rightarrow> wlc_skiplist_node heap \<Rightarrow>
   (nat \<times> wlc_skiplist \<times> wlc_skiplist_node heap \<times> nat) option" where
  "wlcsl_insert random k b wlcsl wlc dblk h =
     do {
       (_, update) \<leftarrow> descend (before_insert b wlc dblk) (cells h) (sl_level wlcsl) (sl_header wlcsl);
       (level, k') \<leftarrow> wlcsl_random_level random k;
       let update = update @ replicate (level - sl_level wlcsl) (sl_header wlcsl);
       let wlcsl = (if level > sl_level wlcsl then wlcsl\<lparr>sl_level := level\<rparr> else wlcsl);
       (x, h1) \<leftarrow> wlcsl_node_new level wlc dblk h;
       c1 \<leftarrow> link_levels (take level update) x 0 (cells h1);
       c2 \<leftarrow> set_backward c1 x (if hd update = sl_header wlcsl then NULL else hd update);
       f \<leftarrow> fwd c2 0 x;
       c3 \<leftarrow> (if f \<noteq> NULL then set_backward c2 f x else Some c2);
       let wlcsl = (if f \<noteq> NULL then wlcsl else wlcsl\<lparr>sl_tail := x\<rparr>);
       Some (x, wlcsl\<lparr>sl_length := sl_length wlcsl + 1\<rparr>, h1\<lparr>cells := c3\<rparr>, k')
     }"

subsection \<open>Deletion\<close>

primrec unlink_levels :: "nat list \<Rightarrow> nat \<Rightarrow> nat \<Rightarrow> nodes \<Rightarrow> nodes option" where
  "unlink_levels [] x i c = Some c"
| "unlink_levels (u # us) x i c =
     do {
       f \<leftarrow> fwd c i u;
       c1 \<leftarrow> (if f = x then do { g \<leftarrow> fwd c i x; set_fwd c i u g } else Some c);
       unlink_levels us x (Suc i) c1
     }"

text \<open>\<open>while(level > 1 && header->level[level - 1].forward == NULL) level--\<close>.\<close>

primrec lower_level :: "nodes \<Rightarrow> nat \<Rightarrow> nat \<Rightarrow> nat option" where
  "lower_level c hdr 0 = Some 0"
| "lower_level c hdr (Suc l) =
     (if Suc l > 1 then do {
        f \<leftarrow> fwd c l hdr;
        if f = NULL then lower_level c hdr l else Some (Suc l)
      }
      else Some (Suc l))"

definition wlcsl_node_delete ::
  "wlc_skiplist \<Rightarrow> nat \<Rightarrow> nat list \<Rightarrow> nodes \<Rightarrow> (wlc_skiplist \<times> nodes) option" where
  "wlcsl_node_delete wlcsl x update c =
     do {
       c1 \<leftarrow> unlink_levels (take (sl_level wlcsl) update) x 0 c;
       f \<leftarrow> fwd c1 0 x;
       n \<leftarrow> c1 x;
       c2 \<leftarrow> (if f \<noteq> NULL then set_backward c1 f (wn_backward n) else Some c1);
       let wlcsl = (if f \<noteq> NULL then wlcsl else wlcsl\<lparr>sl_tail := wn_backward n\<rparr>);
       l \<leftarrow> lower_level c2 (sl_header wlcsl) (sl_level wlcsl);
       Some (wlcsl\<lparr>sl_level := l, sl_length := sl_length wlcsl - 1\<rparr>, c2)
     }"

text \<open>The callers in the sources pass \<open>NULL\<close> for \<open>node\<close>, so that the node is freed; \<open>keep\<close> is the other
  case. The result is the return value, with the node when it is handed out.\<close>

definition wlcsl_delete ::
  "blocks \<Rightarrow> bool \<Rightarrow> wlc_skiplist \<Rightarrow> int \<Rightarrow> nat \<Rightarrow> wlc_skiplist_node heap \<Rightarrow>
   (int \<times> nat \<times> wlc_skiplist \<times> wlc_skiplist_node heap) option" where
  "wlcsl_delete b keep wlcsl wlc dblk h =
     do {
       (z, update) \<leftarrow> descend (before_find b wlc dblk) (cells h) (sl_level wlcsl) (sl_header wlcsl);
       x \<leftarrow> fwd (cells h) 0 z;
       if x = NULL then Some (0, NULL, wlcsl, h)
       else do {
         n \<leftarrow> cells h x;
         e \<leftarrow> (if wn_wlc n = wlc then do { d \<leftarrow> b (wn_dblk n); t \<leftarrow> b dblk; Some (block_id d = block_id t) } else Some False);
         if e then do {
           (wlcsl, c) \<leftarrow> wlcsl_node_delete wlcsl x update (cells h);
           Some (1, if keep then x else NULL, wlcsl, h\<lparr>cells := if keep then c else c(x := None)\<rparr>)
         }
         else Some (0, NULL, wlcsl, h)
       }
     }"

definition wlcsl_find :: "blocks \<Rightarrow> nodes \<Rightarrow> wlc_skiplist \<Rightarrow> int \<Rightarrow> nat \<Rightarrow> nat option" where
  "wlcsl_find b c wlcsl wlc dblk =
     do {
       (z, _) \<leftarrow> descend (before_find b wlc dblk) c (sl_level wlcsl) (sl_header wlcsl);
       x \<leftarrow> fwd c 0 z;
       if x = NULL then Some NULL
       else do {
         n \<leftarrow> c x;
         e \<leftarrow> (if wlc = wn_wlc n then do { d \<leftarrow> b (wn_dblk n); t \<leftarrow> b dblk; Some (block_id d = block_id t) } else Some False);
         Some (if e then x else NULL)
       }
     }"

subsection \<open>The operations of the tracker\<close>

definition cluster_wlc_block_add ::
  "(nat \<Rightarrow> int) \<Rightarrow> nat \<Rightarrow> blocks \<Rightarrow> wlc_skiplist \<Rightarrow> wlc_ctx \<Rightarrow> wlc_skiplist_node heap \<Rightarrow>
   (int \<times> wlc_skiplist \<times> wlc_skiplist_node heap \<times> nat) option" where
  "cluster_wlc_block_add random k b wlcsl wctx h =
     (if old_wlc wctx = new_wlc wctx then Some (LFS_OK, wlcsl, h, k)
      else do {
        node \<leftarrow> wlcsl_find b (cells h) wlcsl (old_wlc wctx) (ctx_dblk wctx);
        (wlcsl, h) \<leftarrow>
          (if node \<noteq> NULL then do {
             n \<leftarrow> cells h node;
             (_, _, wlcsl, h) \<leftarrow> wlcsl_delete b False wlcsl (wn_wlc n) (wn_dblk n) h;
             Some (wlcsl, h)
           }
           else Some (wlcsl, h));
        (x, wlcsl, h, k) \<leftarrow> wlcsl_insert random k b wlcsl (new_wlc wctx) (ctx_dblk wctx) h;
        Some (if x = NULL then LFS_ERROR else LFS_OK, wlcsl, h, k)
      })"

text \<open>\<open>time(NULL)\<close> is read once per round: \<open>now i\<close> is its value in round \<open>i\<close>; \<open>interval\<close> is
  \<open>confitems.heart_beat_interval\<close>. The loop continues from the node that it has just deleted.\<close>

partial_function (option) write_block_loop ::
  "(nat \<Rightarrow> int) \<Rightarrow> int \<Rightarrow> nat \<Rightarrow> blocks \<Rightarrow> wlc_skiplist \<Rightarrow> wlc_skiplist_node heap \<Rightarrow> nat \<Rightarrow>
   (nat \<times> blocks \<times> wlc_skiplist \<times> wlc_skiplist_node heap) option" where
  [code]: "write_block_loop now interval i b wlcsl h x =
     do {
       f \<leftarrow> fwd (cells h) 0 x;
       if f = NULL then Some (NULL, b, wlcsl, h)
       else do {
         n \<leftarrow> cells h f;
         d \<leftarrow> b (wn_dblk n);
         if now i - last_heartbeat_time d > interval then do {
           let b = b(wn_dblk n \<mapsto> d\<lparr>blk_state := St_off_line\<rparr>);
           (_, _, wlcsl, h) \<leftarrow> wlcsl_delete b False wlcsl (wn_wlc n) (wn_dblk n) h;
           write_block_loop now interval (Suc i) b wlcsl h f
         }
         else Some (wn_dblk n, b, wlcsl, h)
       }
     }"

definition cluster_wlc_write_block_get ::
  "(nat \<Rightarrow> int) \<Rightarrow> int \<Rightarrow> blocks \<Rightarrow> wlc_skiplist \<Rightarrow> wlc_skiplist_node heap \<Rightarrow>
   (nat \<times> blocks \<times> wlc_skiplist \<times> wlc_skiplist_node heap) option" where
  "cluster_wlc_write_block_get now interval b wlcsl h =
     write_block_loop now interval 0 b wlcsl h (sl_header wlcsl)"

subsection \<open>Paths along one level\<close>

fun path :: "(nat \<Rightarrow> nat option) \<Rightarrow> nat \<Rightarrow> nat list \<Rightarrow> bool" where
  "path f p [] \<longleftrightarrow> f p = Some NULL"
| "path f p (x # xs) \<longleftrightarrow> f p = Some x \<and> x \<noteq> NULL \<and> path f x xs"

lemma path_hd: "path f p xs \<Longrightarrow> f p = Some (if xs = [] then NULL else hd xs)"
  by (cases xs) auto

lemma path_NULL: "path f p xs \<Longrightarrow> NULL \<notin> set xs"
  by (induction xs arbitrary: p) auto

lemma path_cong: "path f p xs \<Longrightarrow> (\<And>x. x \<in> set (p # xs) \<Longrightarrow> g x = f x) \<Longrightarrow> path g p xs"
  by (induction xs arbitrary: p) auto

lemma path_from:
  "path f p (us @ vs) \<Longrightarrow> y \<in> set (p # us) \<Longrightarrow>
   \<exists>us'. path f y (us' @ vs) \<and> set us' \<subseteq> set us \<and> last (y # us') = last (p # us)"
proof (induction us arbitrary: p)
  case (Cons u us)
  show ?case
  proof (cases "y = p")
    case False
    then have "y \<in> set (u # us)" using Cons.prems(2) by auto
    moreover have "path f u (us @ vs)" using Cons.prems(1) by simp
    ultimately obtain us' where "path f y (us' @ vs)" "set us' \<subseteq> set us" "last (y # us') = last (u # us)"
      using Cons.IH by blast
    then show ?thesis by (intro exI [of _ us']) auto
  qed (use Cons.prems(1) in \<open>intro exI [of _ "u # us"], simp\<close>)
qed auto

lemma path_last: "path f p (us @ vs) \<Longrightarrow> path f (last (p # us)) vs"
  by (induction us arbitrary: p) auto

lemma path_insert:
  assumes "path f p (us @ vs)" and "distinct (p # us @ vs)" and "x \<notin> set (p # us @ vs)" "x \<noteq> NULL"
    and "f' x = f (last (p # us))" and "f' (last (p # us)) = Some x"
    and "\<And>y. y \<noteq> x \<Longrightarrow> y \<noteq> last (p # us) \<Longrightarrow> f' y = f y"
  shows "path f' p (us @ x # vs)"
  using assms
proof (induction us arbitrary: p)
  case Nil
  have "path f' x vs"
  proof (cases vs)
    case Nil
    then show ?thesis using Nil.prems(1,5) by simp
  next
    case (Cons v ws)
    then have "path f v ws" "f p = Some v" "v \<noteq> NULL" using Nil.prems(1) by simp_all
    moreover have "path f' v ws"
    proof (rule path_cong [OF \<open>path f v ws\<close>])
      fix y assume "y \<in> set (v # ws)"
      then have "y \<noteq> x" "y \<noteq> p" using Nil.prems(2,3) Cons by auto
      then show "f' y = f y" using Nil.prems(7) by simp
    qed
    ultimately show ?thesis using Cons Nil.prems(5) by simp
  qed
  then show ?case using Nil.prems(4,6) by simp
next
  case (Cons u us)
  have "p \<noteq> last (u # us)" using Cons.prems(2) last_in_set [of "u # us"] by fastforce
  moreover have "p \<noteq> x" using Cons.prems(3) by simp
  ultimately have "f' p = f p" using Cons.prems(7) by simp
  moreover have "path f' u (us @ x # vs)" using Cons.prems by (intro Cons.IH) simp_all
  ultimately show ?case using Cons.prems(1) by simp
qed

lemma path_delete:
  assumes "path f p (us @ x # vs)" and "distinct (p # us @ x # vs)"
    and "f' (last (p # us)) = f x" and "\<And>y. y \<noteq> last (p # us) \<Longrightarrow> f' y = f y"
  shows "path f' p (us @ vs)"
  using assms
proof (induction us arbitrary: p)
  case Nil
  have x: "path f x vs" using Nil.prems(1) by simp
  show ?case
  proof (cases vs)
    case Nil
    then show ?thesis using x Nil.prems(3) by simp
  next
    case (Cons v ws)
    then have v: "path f v ws" "f x = Some v" "v \<noteq> NULL" using x by simp_all
    have "path f' v ws"
    proof (rule path_cong [OF v(1)])
      fix y assume "y \<in> set (v # ws)"
      then have "y \<noteq> p" using Nil.prems(2) Cons by auto
      then show "f' y = f y" using Nil.prems(4) by simp
    qed
    then show ?thesis using Cons Nil.prems(3) v by simp
  qed
next
  case (Cons u us)
  have "p \<noteq> last (u # us)" using Cons.prems(2) last_in_set [of "u # us"] by fastforce
  then have "f' p = f p" using Cons.prems(4) by simp
  moreover have "path f' u (us @ vs)" using Cons.prems by (intro Cons.IH) simp_all
  ultimately show ?case using Cons.prems(1) by simp
qed

subsection \<open>The fields of the nodes\<close>

definition core :: "nodes \<Rightarrow> nat \<Rightarrow> (nat \<times> int \<times> nat) option" where
  "core c x = map_option (\<lambda>n. (wn_dblk n, wn_wlc n, length (wn_level n))) (c x)"

definition bptr :: "nodes \<Rightarrow> nat \<Rightarrow> nat option" where
  "bptr c x = map_option wn_backward (c x)"

definition height :: "nodes \<Rightarrow> nat \<Rightarrow> nat" where
  "height c x = (case core c x of None \<Rightarrow> 0 | Some (d, w, k) \<Rightarrow> k)"

lemma fwd_None_iff: "fwd c i p = None \<longleftrightarrow> height c p \<le> i"
  by (auto simp: fwd_def height_def core_def split: option.splits)

lemma set_fwd_ok:
  assumes "i < height c p"
  shows "\<exists>c'. set_fwd c i p q = Some c' \<and> core c' = core c \<and> bptr c' = bptr c \<and>
    (\<forall>j y. fwd c' j y = (if j = i \<and> y = p then Some q else fwd c j y))"
proof -
  obtain n where n: "c p = Some n" "i < length (wn_level n)"
    using assms by (auto simp: height_def core_def split: option.splits)
  let ?c = "c(p \<mapsto> n\<lparr>wn_level := (wn_level n)[i := q]\<rparr>)"
  have "set_fwd c i p q = Some ?c" "core ?c = core c" "bptr ?c = bptr c"
    using n by (simp_all add: set_fwd_def core_def bptr_def fun_eq_iff)
  moreover have "fwd ?c j y = (if j = i \<and> y = p then Some q else fwd c j y)" for j y
    using n by (simp add: fwd_def)
  ultimately show ?thesis by blast
qed

lemma core_height: "core c' = core c \<Longrightarrow> height c' = height c"
  by (simp add: height_def fun_eq_iff)

lemma link_levels_spec:
  assumes "\<And>j. j < length us \<Longrightarrow> us ! j \<noteq> x \<and> i + j < height c (us ! j)" and "i + length us \<le> height c x"
  shows "\<exists>c'. link_levels us x i c = Some c' \<and> core c' = core c \<and> bptr c' = bptr c \<and>
    (\<forall>j y. fwd c' j y = (if i \<le> j \<and> j < i + length us
       then if y = x then fwd c j (us ! (j - i)) else if y = us ! (j - i) then Some x else fwd c j y
       else fwd c j y))"
  using assms
proof (induction us arbitrary: i c)
  case (Cons u us)
  have u: "u \<noteq> x" "i < height c u" using Cons.prems(1) [of 0] by simp_all
  then obtain f where f: "fwd c i u = Some f" using fwd_None_iff [of c i u] by fastforce
  have "i < height c x" using Cons.prems(2) by simp
  from set_fwd_ok [OF this, of f] obtain c1 where c1: "set_fwd c i x f = Some c1" "core c1 = core c" "bptr c1 = bptr c"
    and w1: "\<And>j y. fwd c1 j y = (if j = i \<and> y = x then Some f else fwd c j y)" by blast
  have "i < height c1 u" using u(2) core_height [OF c1(2)] by simp
  from set_fwd_ok [OF this, of x] obtain c2 where c2: "set_fwd c1 i u x = Some c2" "core c2 = core c1" "bptr c2 = bptr c1"
    and w2: "\<And>j y. fwd c2 j y = (if j = i \<and> y = u then Some x else fwd c1 j y)" by blast
  have h: "height c2 = height c" using core_height [OF c1(2)] core_height [OF c2(2)] by simp
  have "us ! j \<noteq> x \<and> Suc i + j < height c2 (us ! j)" if "j < length us" for j
    using Cons.prems(1) [of "Suc j"] that by (simp add: h)
  moreover have "Suc i + length us \<le> height c2 x" using Cons.prems(2) by (simp add: h)
  ultimately obtain c' where c': "link_levels us x (Suc i) c2 = Some c'" "core c' = core c2" "bptr c' = bptr c2"
    and w: "\<And>j y. fwd c' j y = (if Suc i \<le> j \<and> j < Suc i + length us
       then if y = x then fwd c2 j (us ! (j - Suc i)) else if y = us ! (j - Suc i) then Some x else fwd c2 j y
       else fwd c2 j y)"
    using Cons.IH [of "Suc i"] by blast
  have "fwd c' j y = (if i \<le> j \<and> j < i + length (u # us)
       then if y = x then fwd c j ((u # us) ! (j - i)) else if y = (u # us) ! (j - i) then Some x else fwd c j y
       else fwd c j y)" for j y
  proof (cases "j = i")
    case True
    then show ?thesis using f u by (simp add: w w1 w2)
  next
    case False
    then have "(u # us) ! (j - i) = us ! (j - Suc i)" if "i \<le> j" using that by (simp add: nth_Cons')
    then show ?thesis using False by (simp add: w w1 w2)
  qed
  then show ?case using c' c1 c2 f by (intro exI [of _ c']) simp
qed auto

lemma unlink_levels_spec:
  assumes "\<And>j. j < length us \<Longrightarrow> us ! j \<noteq> x \<and> i + j < height c (us ! j)"
    and "\<And>j. j < length us \<Longrightarrow> fwd c (i + j) (us ! j) = Some x \<Longrightarrow> i + j < height c x"
  shows "\<exists>c'. unlink_levels us x i c = Some c' \<and> core c' = core c \<and> bptr c' = bptr c \<and>
    (\<forall>j y. fwd c' j y = (if i \<le> j \<and> j < i + length us \<and> y = us ! (j - i) \<and> fwd c j y = Some x
       then fwd c j x else fwd c j y))"
  using assms
proof (induction us arbitrary: i c)
  case (Cons u us)
  have u: "u \<noteq> x" "i < height c u" using Cons.prems(1) [of 0] by simp_all
  then obtain f where f: "fwd c i u = Some f" using fwd_None_iff [of c i u] by fastforce
  obtain c1 where c1: "(if f = x then do { g \<leftarrow> fwd c i x; set_fwd c i u g } else Some c) = Some c1"
    "core c1 = core c" "bptr c1 = bptr c"
    and w1: "\<And>j y. fwd c1 j y = (if j = i \<and> y = u \<and> f = x then fwd c i x else fwd c j y)"
  proof (cases "f = x")
    case True
    then have "i < height c x" using Cons.prems(2) [of 0] f by simp
    then obtain g where g: "fwd c i x = Some g" using fwd_None_iff [of c i x] by fastforce
    from set_fwd_ok [OF u(2), of g] obtain c1 where "set_fwd c i u g = Some c1" "core c1 = core c" "bptr c1 = bptr c"
      "\<And>j y. fwd c1 j y = (if j = i \<and> y = u then Some g else fwd c j y)" by blast
    then show ?thesis using that [of c1] True g by simp
  qed (use that in simp)
  have h: "height c1 = height c" using c1(2) by (rule core_height)
  have "us ! j \<noteq> x \<and> Suc i + j < height c1 (us ! j)" if "j < length us" for j
    using Cons.prems(1) [of "Suc j"] that by (simp add: h)
  moreover have "Suc i + j < height c1 x" if "j < length us" "fwd c1 (Suc i + j) (us ! j) = Some x" for j
    using Cons.prems(2) [of "Suc j"] that by (simp add: h w1)
  ultimately obtain c' where c': "unlink_levels us x (Suc i) c1 = Some c'" "core c' = core c1" "bptr c' = bptr c1"
    and w: "\<And>j y. fwd c' j y = (if Suc i \<le> j \<and> j < Suc i + length us \<and> y = us ! (j - Suc i) \<and>
       fwd c1 j y = Some x then fwd c1 j x else fwd c1 j y)"
    using Cons.IH [of "Suc i"] by blast
  have "fwd c' j y = (if i \<le> j \<and> j < i + length (u # us) \<and> y = (u # us) ! (j - i) \<and> fwd c j y = Some x
       then fwd c j x else fwd c j y)" for j y
  proof (cases "j = i")
    case True
    then show ?thesis using f u by (auto simp: w w1)
  next
    case False
    then have "(u # us) ! (j - i) = us ! (j - Suc i)" if "i \<le> j" using that by (simp add: nth_Cons')
    then show ?thesis using False by (cases "i \<le> j") (auto simp: w w1)
  qed
  moreover have "unlink_levels (u # us) x i c = Some c'" using f c1(1) c'(1) by (simp cong: if_cong)
  ultimately show ?case using c'(2,3) c1(2,3) by (intro exI [of _ c']) simp
qed auto

lemma set_backward_ok:
  assumes "c x \<noteq> None"
  shows "\<exists>c'. set_backward c x q = Some c' \<and> core c' = core c \<and> fwd c' = fwd c \<and>
    (\<forall>y. bptr c' y = (if y = x then Some q else bptr c y))"
proof -
  obtain n where n: "c x = Some n" using assms by blast
  let ?c = "c(x \<mapsto> n\<lparr>wn_backward := q\<rparr>)"
  have "set_backward c x q = Some ?c" "core ?c = core c" "fwd ?c = fwd c"
    using n by (simp_all add: set_backward_def core_def fwd_def fun_eq_iff)
  moreover have "bptr ?c y = (if y = x then Some q else bptr c y)" for y
    by (simp add: bptr_def)
  ultimately show ?thesis by blast
qed

lemma core_None_iff: "core c x = None \<longleftrightarrow> c x = None"
  by (simp add: core_def)

subsection \<open>The representation invariant\<close>

text \<open>The nodes of a level, the order of the nodes, the backward pointers.\<close>

definition hi :: "nodes \<Rightarrow> nat \<Rightarrow> nat list \<Rightarrow> nat list" where
  "hi c i xs = filter (\<lambda>x. i < height c x) xs"

definition nkey :: "blocks \<Rightarrow> nodes \<Rightarrow> nat \<Rightarrow> int \<times> u32" where
  "nkey b c x = (case core c x of None \<Rightarrow> (0, 0) | Some (d, w, k) \<Rightarrow> (w, block_id (the (b d))))"

definition live :: "blocks \<Rightarrow> nodes \<Rightarrow> nat \<Rightarrow> bool" where
  "live b c x \<longleftrightarrow> (case core c x of None \<Rightarrow> False | Some (d, w, k) \<Rightarrow> b d \<noteq> None)"

fun backs :: "nodes \<Rightarrow> nat \<Rightarrow> nat list \<Rightarrow> nat \<Rightarrow> bool" where
  "backs c p [] t \<longleftrightarrow> t = p"
| "backs c p (x # xs) t \<longleftrightarrow> bptr c x = Some p \<and> backs c x xs t"

definition sl_rep :: "blocks \<Rightarrow> nodes \<Rightarrow> wlc_skiplist \<Rightarrow> nat list \<Rightarrow> bool" where
  "sl_rep b c wsl xs \<longleftrightarrow>
     distinct (sl_header wsl # xs) \<and> height c (sl_header wsl) = WLC_SKIPLIST_MAX_LEVEL \<and>
     1 \<le> sl_level wsl \<and> sl_level wsl \<le> WLC_SKIPLIST_MAX_LEVEL \<and>
     (\<forall>x \<in> set xs. 1 \<le> height c x \<and> height c x \<le> sl_level wsl \<and> live b c x) \<and>
     (\<forall>i < WLC_SKIPLIST_MAX_LEVEL. path (fwd c i) (sl_header wsl) (hi c i xs)) \<and>
     sorted (map (nkey b c) xs) \<and> backs c NULL xs (sl_tail wsl) \<and> sl_length wsl = length xs"

lemma hi_simps [simp]:
  "hi c i [] = []" "hi c i (xs @ ys) = hi c i xs @ hi c i ys"
  "hi c i (x # xs) = (if i < height c x then x # hi c i xs else hi c i xs)"
  "set (hi c i xs) = {x \<in> set xs. i < height c x}"
  by (simp_all add: hi_def)

lemma hi_0: "(\<And>x. x \<in> set xs \<Longrightarrow> 1 \<le> height c x) \<Longrightarrow> hi c 0 xs = xs"
  by (simp add: hi_def filter_id_conv Suc_le_eq)

lemma hi_cong: "(\<And>x. x \<in> set xs \<Longrightarrow> height c x = height d x) \<Longrightarrow> hi c i xs = hi d i xs"
  by (simp add: hi_def cong: filter_cong)

lemma hi_none: "(\<And>x. x \<in> set xs \<Longrightarrow> height c x \<le> l) \<Longrightarrow> l \<le> i \<Longrightarrow> hi c i xs = []"
  by (fastforce simp: hi_def filter_empty_conv)

lemma backs_cong: "backs c p xs t \<Longrightarrow> (\<And>x. x \<in> set xs \<Longrightarrow> bptr d x = bptr c x) \<Longrightarrow> backs d p xs t"
  by (induction xs arbitrary: p) auto

lemma backs_split: "backs c p (us @ vs) t \<longleftrightarrow> backs c p us (last (p # us)) \<and> backs c (last (p # us)) vs t"
  by (induction us arbitrary: p) auto

subsection \<open>The search loops on the representation\<close>

text \<open>\<open>us\<close> are the nodes that the loop condition passes, \<open>vs\<close> those that stop it.\<close>

definition splits_at ::
  "(wlc_skiplist_node \<Rightarrow> bool option) \<Rightarrow> nodes \<Rightarrow> nat list \<Rightarrow> nat list \<Rightarrow> bool" where
  "splits_at test c us vs \<longleftrightarrow>
     (\<forall>x \<in> set us. \<exists>n. c x = Some n \<and> test n = Some True) \<and>
     (\<forall>x \<in> set vs. \<exists>n. c x = Some n \<and> test n = Some False)"

lemma advance_path:
  "path (fwd c i) y (us @ vs) \<Longrightarrow> splits_at test c us vs \<Longrightarrow> advance test c i y = Some (last (y # us))"
proof (induction us arbitrary: y)
  case Nil
  then show ?case by (cases vs) (auto simp: splits_at_def advance.simps [of _ _ _ y])
next
  case (Cons u us)
  then obtain n where n: "fwd c i y = Some u" "u \<noteq> NULL" "c u = Some n" "test n = Some True"
    by (auto simp: splits_at_def)
  have "advance test c i u = Some (last (u # us))"
    using Cons.prems by (intro Cons.IH) (simp_all add: splits_at_def)
  then show ?case using n by (simp add: advance.simps [of _ _ _ y])
qed

lemma descend_spec:
  assumes "\<And>i. i < n \<Longrightarrow> path (fwd c i) hdr (hi c i us @ hi c i vs)" and "splits_at test c us vs"
    and "y = hdr \<or> y \<in> set us \<and> n \<le> height c y"
  shows "descend test c n y =
    Some (if n = 0 then y else last (hdr # hi c 0 us), map (\<lambda>i. last (hdr # hi c i us)) [0..<n])"
  using assms
proof (induction n arbitrary: y)
  case (Suc n)
  have "y \<in> set (hdr # hi c n us)" using Suc.prems(3) by auto
  from path_from [OF Suc.prems(1) this] obtain ws where ws: "path (fwd c n) y (ws @ hi c n vs)"
    "set ws \<subseteq> set (hi c n us)" "last (y # ws) = last (hdr # hi c n us)" by blast
  have "splits_at test c ws (hi c n vs)"
    using Suc.prems(2) ws(2) by (auto simp: splits_at_def)
  then have a: "advance test c n y = Some (last (hdr # hi c n us))"
    using advance_path [OF ws(1)] ws(3) by metis
  have "last (hdr # hi c n us) \<in> set (hdr # hi c n us)" by (rule last_in_set) simp
  then have "last (hdr # hi c n us) = hdr \<or>
      last (hdr # hi c n us) \<in> set us \<and> n \<le> height c (last (hdr # hi c n us))" by auto
  with Suc have "descend test c n (last (hdr # hi c n us)) =
      Some (if n = 0 then last (hdr # hi c n us) else last (hdr # hi c 0 us), map (\<lambda>i. last (hdr # hi c i us)) [0..<n])"
    by (intro Suc.IH) simp_all
  then show ?case using a by simp
qed simp

subsection \<open>Correctness of insertion\<close>

lemma random_level_loop_ge:
  assumes ret: "random_level_loop r k l = Some y"
  shows "l \<le> fst y"
proof (rule random_level_loop.raw_induct [where P = "\<lambda>r k l y. l \<le> fst y", OF _ ret])
  fix f :: "(nat \<Rightarrow> int) \<Rightarrow> nat \<Rightarrow> nat \<Rightarrow> (nat \<times> nat) option" and r k l y
  assume "\<And>r k l y. f r k l = Some y \<Longrightarrow> l \<le> fst y"
    and "(if 4 * (r k AND 0xFFFF) < 0xFFFF then f r (Suc k) (l + 1) else Some (l, Suc k)) = Some y"
  then show "l \<le> fst y" by (fastforce split: if_splits)
qed

lemma wlcsl_random_level_bounds:
  "wlcsl_random_level r k = Some (level, k') \<Longrightarrow> 1 \<le> level \<and> level \<le> WLC_SKIPLIST_MAX_LEVEL"
  using random_level_loop_ge [of r k 1]
  by (auto simp: wlcsl_random_level_def WLC_SKIPLIST_MAX_LEVEL_def bind_eq_Some_conv split: if_splits)

lemma update_array:
  assumes "\<And>x. x \<in> set us \<Longrightarrow> height c x \<le> l"
  shows "take level (map (\<lambda>i. last (hdr # hi c i us)) [0..<l] @ replicate (level - l) hdr)
    = map (\<lambda>i. last (hdr # hi c i us)) [0..<level]"
  by (rule nth_equalityI) (auto simp: nth_append hi_none [OF assms])

lemma backs_insert:
  assumes "backs c p (us @ vs) t" and "distinct (us @ vs)" and "x \<notin> set (us @ vs)"
    and "bptr c' x = Some (last (p # us))" and "\<And>v. v \<noteq> x \<Longrightarrow> (vs \<noteq> [] \<Longrightarrow> v \<noteq> hd vs) \<Longrightarrow> bptr c' v = bptr c v"
    and "vs \<noteq> [] \<Longrightarrow> bptr c' (hd vs) = Some x"
  shows "backs c' p (us @ x # vs) (if vs = [] then x else t)"
proof -
  have b: "backs c p us (last (p # us))" "backs c (last (p # us)) vs t"
    using assms(1) by (simp_all only: backs_split)
  have "backs c' p us (last (p # us))"
  proof (rule backs_cong [OF b(1)])
    fix u assume "u \<in> set us"
    then have "u \<noteq> x" "vs \<noteq> [] \<Longrightarrow> u \<noteq> hd vs" using assms(2,3) by auto
    then show "bptr c' u = bptr c u" using assms(5) by blast
  qed
  moreover have "backs c' x vs (if vs = [] then x else t)"
  proof (cases vs)
    case (Cons v ws)
    have "backs c' v ws t"
    proof (rule backs_cong)
      show "backs c v ws t" using b(2) Cons by simp
      fix w assume "w \<in> set ws"
      then have "w \<noteq> x" "w \<noteq> hd vs" using assms(2,3) Cons by auto
      then show "bptr c' w = bptr c w" using assms(5) by blast
    qed
    then show ?thesis using Cons assms(6) by simp
  qed simp
  ultimately show ?thesis using assms(4) by (simp add: backs_split)
qed

text \<open>The new node is linked between \<open>us\<close> and \<open>vs\<close> on its levels.\<close>

lemma insert_links:
  assumes rep: "sl_rep b c wsl (us @ vs)" and x: "c x = None" "x \<noteq> NULL"
    and level: "1 \<le> level" "level \<le> WLC_SKIPLIST_MAX_LEVEL"
    and n: "wn_level n = replicate level NULL"
    and upd: "upd = map (\<lambda>i. last (sl_header wsl # hi c i us)) [0..<level]"
  shows "\<exists>c1. link_levels upd x 0 (c(x \<mapsto> n)) = Some c1 \<and>
    core c1 = (core c)(x \<mapsto> (wn_dblk n, wn_wlc n, level)) \<and>
    (\<forall>y. y \<noteq> x \<longrightarrow> bptr c1 y = bptr c y) \<and> c1 x \<noteq> None \<and>
    (\<forall>i < WLC_SKIPLIST_MAX_LEVEL. path (fwd c1 i) (sl_header wsl) (hi c1 i (us @ x # vs)))"
proof -
  let ?h = "sl_header wsl" and ?c = "c(x \<mapsto> n)"
  have r: "distinct (?h # us @ vs)" "height c ?h = WLC_SKIPLIST_MAX_LEVEL"
    "\<And>i. i < WLC_SKIPLIST_MAX_LEVEL \<Longrightarrow> path (fwd c i) ?h (hi c i us @ hi c i vs)"
    "\<And>y. y \<in> set (us @ vs) \<Longrightarrow> 1 \<le> height c y"
    using rep by (simp_all add: sl_rep_def)
  have x_out: "x \<notin> set (?h # us @ vs)"
    using r(2) r(4) [of x] x(1) by (auto simp: height_def core_def WLC_SKIPLIST_MAX_LEVEL_def split: option.splits)
  have hc: "height ?c y = (if y = x then level else height c y)" for y
    by (simp add: height_def core_def n)
  have fc: "fwd ?c i y = (if y = x then (if i < level then Some NULL else None) else fwd c i y)" for i y
    by (simp add: fwd_def n)
  have lst: "last (?h # hi c i us) \<in> set (?h # hi c i us)" for i by (rule last_in_set) simp
  have u: "upd ! j = last (?h # hi c j us)" "last (?h # hi c j us) \<noteq> x" "j < height ?c (last (?h # hi c j us))"
    if "j < level" for j
    using that lst [of j] x_out r(2) level(2) by (auto simp: upd hc)
  have len: "length upd = level" by (simp add: upd)
  obtain c1 where c1: "link_levels upd x 0 ?c = Some c1" "core c1 = core ?c" "bptr c1 = bptr ?c"
    and w: "\<And>j y. fwd c1 j y = (if 0 \<le> j \<and> j < 0 + length upd
       then if y = x then fwd ?c j (upd ! (j - 0)) else if y = upd ! (j - 0) then Some x else fwd ?c j y
       else fwd ?c j y)"
    using link_levels_spec [of upd x 0 ?c] u len hc by auto
  have h1: "height c1 = height ?c" using c1(2) by (rule core_height)
  have hius: "hi c1 i us = hi c i us" "hi c1 i vs = hi c i vs" for i
    using x_out by (auto intro!: hi_cong simp: h1 hc)
  have "path (fwd c1 i) ?h (hi c1 i (us @ x # vs))" if i: "i < WLC_SKIPLIST_MAX_LEVEL" for i
  proof (cases "i < level")
    case True
    have "path (fwd c1 i) ?h (hi c i us @ x # hi c i vs)"
    proof (rule path_insert [OF r(3) [OF i] _ _ x(2)])
      show "distinct (?h # hi c i us @ hi c i vs)" using r(1) by (auto simp: hi_def)
      show "x \<notin> set (?h # hi c i us @ hi c i vs)" using x_out by auto
      show "fwd c1 i x = fwd c i (last (?h # hi c i us))" "fwd c1 i (last (?h # hi c i us)) = Some x"
        using True u [of i] by (simp_all add: w len fc)
      show "\<And>y. y \<noteq> x \<Longrightarrow> y \<noteq> last (?h # hi c i us) \<Longrightarrow> fwd c1 i y = fwd c i y"
        using True u(1) [of i] by (simp add: w len fc)
    qed
    then show ?thesis using True by (simp add: hius h1 hc)
  next
    case False
    have "path (fwd c1 i) ?h (hi c i us @ hi c i vs)"
    proof (rule path_cong [OF r(3) [OF i]])
      fix y assume "y \<in> set (?h # hi c i us @ hi c i vs)"
      then have "y \<noteq> x" using x_out by auto
      then show "fwd c1 i y = fwd c i y" using False by (simp add: w len fc)
    qed
    then show ?thesis using False by (simp add: hius h1 hc)
  qed
  moreover have "core c1 = (core c)(x \<mapsto> (wn_dblk n, wn_wlc n, level))"
    using c1(2) by (simp add: core_def fun_eq_iff n)
  moreover have "c1 x \<noteq> None" using core_None_iff [of c1 x] c1(2) by (simp add: core_def)
  moreover have "bptr c1 y = bptr c y" if "y \<noteq> x" for y using that c1(3) by (simp add: bptr_def)
  ultimately show ?thesis using c1(1) by blast
qed

lemma live_node: "live b c x \<Longrightarrow> \<exists>n d. c x = Some n \<and> b (wn_dblk n) = Some d \<and> nkey b c x = (wn_wlc n, block_id d)"
  by (auto simp: live_def nkey_def core_def split: option.splits)

lemma core_cong:
  assumes "core c' x = core c x"
  shows "nkey b c' x = nkey b c x" "live b c' x = live b c x" "height c' x = height c x"
  using assms by (simp_all add: nkey_def live_def height_def)

lemma sl_repD:
  assumes "sl_rep b c wsl (us @ vs)"
  shows "distinct (sl_header wsl # us @ vs)" "height c (sl_header wsl) = WLC_SKIPLIST_MAX_LEVEL"
    "1 \<le> sl_level wsl" "sl_level wsl \<le> WLC_SKIPLIST_MAX_LEVEL"
    "\<And>i. i < WLC_SKIPLIST_MAX_LEVEL \<Longrightarrow> path (fwd c i) (sl_header wsl) (hi c i us @ hi c i vs)"
    "\<And>y. y \<in> set (us @ vs) \<Longrightarrow> 1 \<le> height c y \<and> height c y \<le> sl_level wsl \<and> live b c y"
    "sorted (map (nkey b c) (us @ vs))" "backs c NULL (us @ vs) (sl_tail wsl)" "sl_length wsl = length (us @ vs)"
    "hi c 0 us = us" "hi c 0 vs = vs"
  using assms unfolding sl_rep_def by (auto intro!: hi_0)

lemma sl_rep_descend:
  assumes rep: "sl_rep b c wsl (us @ vs)" and spl: "splits_at test c us vs"
  shows "descend test c (sl_level wsl) (sl_header wsl)
    = Some (last (sl_header wsl # us), map (\<lambda>i. last (sl_header wsl # hi c i us)) [0..<sl_level wsl])"
    and "fwd c 0 (last (sl_header wsl # us)) = Some (if vs = [] then NULL else hd vs)"
proof -
  note r = sl_repD [OF rep]
  show "descend test c (sl_level wsl) (sl_header wsl)
    = Some (last (sl_header wsl # us), map (\<lambda>i. last (sl_header wsl # hi c i us)) [0..<sl_level wsl])"
    using descend_spec [of "sl_level wsl" c "sl_header wsl" us vs, OF r(5) spl] r(3,4) by (simp add: r(10))
  have "path (fwd c 0) (sl_header wsl) (us @ vs)"
    using r(5) [of 0] by (simp add: r(10,11) WLC_SKIPLIST_MAX_LEVEL_def)
  from path_last [OF this] show "fwd c 0 (last (sl_header wsl # us)) = Some (if vs = [] then NULL else hd vs)"
    by (rule path_hd)
qed

lemma insert_splits:
  assumes rep: "sl_rep b c wsl (us @ vs)" and e: "b dblk = Some e"
    and us: "\<And>x. x \<in> set us \<Longrightarrow> nkey b c x < (w, block_id e)"
    and vs: "\<And>x. x \<in> set vs \<Longrightarrow> (w, block_id e) \<le> nkey b c x"
  shows "splits_at (before_insert b w dblk) c us vs"
  unfolding splits_at_def
proof (intro conjI ballI)
  fix y assume y: "y \<in> set us"
  then have "live b c y" using sl_repD(6) [OF rep, of y] by simp
  then obtain n d where "c y = Some n" "b (wn_dblk n) = Some d" "nkey b c y = (wn_wlc n, block_id d)"
    using live_node by blast
  then show "\<exists>n. c y = Some n \<and> before_insert b w dblk n = Some True"
    using us [OF y] e by (intro exI [of _ n]) (auto simp: before_insert_def)
next
  fix y assume y: "y \<in> set vs"
  then have "live b c y" using sl_repD(6) [OF rep, of y] by simp
  then obtain n d where "c y = Some n" "b (wn_dblk n) = Some d" "nkey b c y = (wn_wlc n, block_id d)"
    using live_node by blast
  then show "\<exists>n. c y = Some n \<and> before_insert b w dblk n = Some False"
    using vs [OF y] e by (intro exI [of _ n]) (auto simp: before_insert_def)
qed

text \<open>The assignments of \<open>wlcsl_insert\<close> after the search.\<close>

lemma insert_assignments:
  assumes rep: "sl_rep b c wsl (us @ vs)" and x: "c x = None" "x \<noteq> NULL"
    and level: "1 \<le> level" "level \<le> WLC_SKIPLIST_MAX_LEVEL"
    and n: "wn_level n = replicate level NULL"
    and upd: "upd = map (\<lambda>i. last (sl_header wsl # hi c i us)) [0..<sl_level wsl] @ replicate (level - sl_level wsl) (sl_header wsl)"
  shows "\<exists>c1 c2 c3. link_levels (take level upd) x 0 (c(x \<mapsto> n)) = Some c1 \<and>
    set_backward c1 x (if hd upd = sl_header wsl then NULL else hd upd) = Some c2 \<and>
    fwd c2 0 x = Some (if vs = [] then NULL else hd vs) \<and> (vs \<noteq> [] \<longrightarrow> hd vs \<noteq> NULL) \<and>
    (if vs \<noteq> [] then set_backward c2 (hd vs) x else Some c2) = Some c3 \<and>
    core c3 = (core c)(x \<mapsto> (wn_dblk n, wn_wlc n, level)) \<and>
    (\<forall>i < WLC_SKIPLIST_MAX_LEVEL. path (fwd c3 i) (sl_header wsl) (hi c3 i (us @ x # vs))) \<and>
    backs c3 NULL (us @ x # vs) (if vs = [] then x else sl_tail wsl)"
proof -
  let ?hdr = "sl_header wsl"
  note r = sl_repD [OF rep]
  have tk: "take level upd = map (\<lambda>i. last (?hdr # hi c i us)) [0..<level]"
    unfolding upd by (rule update_array) (use r(6) in simp)
  have "hd upd = last (?hdr # us)" using r(3,10) by (simp add: upd hd_append hd_map)
  then have hd: "(if hd upd = ?hdr then NULL else hd upd) = last (NULL # us)"
    using r(1) by (cases us rule: rev_cases) auto
  have x_out: "x \<notin> set (us @ vs)" using r(6) [of x] x(1) by (auto simp: live_def core_def)
  obtain c1 where c1: "link_levels (take level upd) x 0 (c(x \<mapsto> n)) = Some c1"
    "core c1 = (core c)(x \<mapsto> (wn_dblk n, wn_wlc n, level))" "\<And>y. y \<noteq> x \<Longrightarrow> bptr c1 y = bptr c y" "c1 x \<noteq> None"
    "\<And>i. i < WLC_SKIPLIST_MAX_LEVEL \<Longrightarrow> path (fwd c1 i) ?hdr (hi c1 i (us @ x # vs))"
    using insert_links [OF rep x level n tk] by auto
  obtain c2 where c2: "set_backward c1 x (last (NULL # us)) = Some c2" "core c2 = core c1" "fwd c2 = fwd c1"
    "\<And>y. bptr c2 y = (if y = x then Some (last (NULL # us)) else bptr c1 y)"
    using set_backward_ok [of c1 x, OF c1(4)] by blast
  have "hi c1 0 (us @ x # vs) = us @ x # vs"
    using r(6) level(1) by (intro hi_0) (auto simp: height_def c1(2))
  with c1(5) [of 0] have p0: "path (fwd c1 0) ?hdr (us @ x # vs)" by (simp add: WLC_SKIPLIST_MAX_LEVEL_def)
  then have "path (fwd c1 0) x vs" using path_last [of "fwd c1 0" ?hdr "us @ [x]" vs] by simp
  then have f: "fwd c2 0 x = Some (if vs = [] then NULL else hd vs)" by (simp add: c2(3) path_hd)
  have vN: "hd vs \<noteq> NULL" if "vs \<noteq> []" using path_NULL [OF p0] that by (cases vs) auto
  have "c2 (hd vs) \<noteq> None" if "vs \<noteq> []"
    using r(6) [of "hd vs"] that c1(2) c2(2) core_None_iff [of c2 "hd vs"]
    by (auto simp: live_def split: if_splits option.splits)
  then obtain c3 where c3: "(if vs \<noteq> [] then set_backward c2 (hd vs) x else Some c2) = Some c3"
    "core c3 = core c1" "fwd c3 = fwd c1"
    "\<And>y. bptr c3 y = (if vs \<noteq> [] \<and> y = hd vs then Some x else bptr c2 y)"
    using set_backward_ok [of c2 "hd vs" x] c2(2,3) by (cases "vs = []") auto
  have "backs c3 NULL (us @ x # vs) (if vs = [] then x else sl_tail wsl)"
  proof (rule backs_insert [OF r(8) _ x_out])
    have "vs = [] \<or> x \<noteq> hd vs" using x_out by (cases vs) auto
    then show "bptr c3 x = Some (last (NULL # us))" by (auto simp: c3(4) c2(4))
  qed (use r(1) in \<open>auto simp: c3(4) c2(4) c1(3)\<close>)
  moreover have "path (fwd c3 i) ?hdr (hi c3 i (us @ x # vs))" if "i < WLC_SKIPLIST_MAX_LEVEL" for i
    using c1(5) [OF that] by (simp only: hi_def core_height [OF c3(2)] c3(3))
  moreover have "core c3 = (core c)(x \<mapsto> (wn_dblk n, wn_wlc n, level))" using c3(2) c1(2) by simp
  ultimately show ?thesis using c1(1) c2(1) c3(1) f vN unfolding hd by blast
qed

text \<open>Insertion finds the place of the new key and links a node there.\<close>

lemma wlcsl_insert_spec:
  assumes rep: "sl_rep b (cells h) wsl (us @ vs)" and h: "heap_ok h" "\<not> oom h (nalloc h)"
    and e: "b dblk = Some e" and level: "wlcsl_random_level random k = Some (level, k')"
    and us: "\<And>x. x \<in> set us \<Longrightarrow> nkey b (cells h) x < (w, block_id e)"
    and vs: "\<And>x. x \<in> set vs \<Longrightarrow> (w, block_id e) \<le> nkey b (cells h) x"
  shows "\<exists>x wsl' h'. wlcsl_insert random k b wsl w dblk h = Some (x, wsl', h', k') \<and>
    heap_ok h' \<and> x \<noteq> NULL \<and> cells h x = None \<and> sl_header wsl' = sl_header wsl \<and>
    sl_rep b (cells h') wsl' (us @ x # vs) \<and>
    core (cells h') = (core (cells h))(x \<mapsto> (dblk, w, level))"
proof -
  let ?c = "cells h" and ?hdr = "sl_header wsl" and ?x = "brk h"
  let ?n = "\<lparr>wn_dblk = dblk, wn_wlc = w, wn_backward = NULL, wn_level = replicate level NULL\<rparr>"
  let ?l = "max level (sl_level wsl)"
  define m where "m = map (\<lambda>i. last (?hdr # hi ?c i us)) [0..<sl_level wsl]"
  define upd where "upd = m @ replicate (level - sl_level wsl) ?hdr"
  define wsl' where "wsl' = wsl\<lparr>sl_level := ?l, sl_tail := if vs = [] then ?x else sl_tail wsl, sl_length := sl_length wsl + 1\<rparr>"
  note r = sl_repD [OF rep]
  have x: "?c ?x = None" "?x \<noteq> NULL" using h(1) by (fastforce simp: heap_ok_def)+
  have lv: "1 \<le> level" "level \<le> WLC_SKIPLIST_MAX_LEVEL" using wlcsl_random_level_bounds [OF level] by simp_all
  obtain c1 c2 c3 where c: "link_levels (take level upd) ?x 0 (?c(?x \<mapsto> ?n)) = Some c1"
    "set_backward c1 ?x (if hd upd = ?hdr then NULL else hd upd) = Some c2"
    "fwd c2 0 ?x = Some (if vs = [] then NULL else hd vs)" "vs \<noteq> [] \<longrightarrow> hd vs \<noteq> NULL"
    "(if vs \<noteq> [] then set_backward c2 (hd vs) ?x else Some c2) = Some c3"
    and d: "core c3 = (core ?c)(?x \<mapsto> (dblk, w, level))"
    "\<forall>i < WLC_SKIPLIST_MAX_LEVEL. path (fwd c3 i) ?hdr (hi c3 i (us @ ?x # vs))"
    "backs c3 NULL (us @ ?x # vs) (if vs = [] then ?x else sl_tail wsl)"
    using insert_assignments [OF rep x lv, of ?n, OF _ upd_def [unfolded m_def]] by auto
  let ?h = "h\<lparr>brk := Suc (brk h), nalloc := Suc (nalloc h), cells := c3\<rparr>"
  note s = sl_rep_descend(1) [OF rep insert_splits [OF rep e us vs], folded m_def]
  have "wlcsl_insert random k b wsl w dblk h = Some (?x, wsl', ?h, k')"
    using s level c h(2) x(2) by (cases "vs = []")
      (auto simp: wlcsl_insert_def wlcsl_node_new_def malloc_def wsl'_def Let_def upd_def [symmetric] max_def simp del: take_append)
  moreover have dom: "dom c3 = insert ?x (dom ?c)"
    using fun_cong [OF d(1)] by (auto simp: dom_def core_None_iff [symmetric] split: if_splits)
  then have "heap_ok ?h" using h(1) by (auto simp: heap_ok_def less_Suc_eq)
  moreover have x_out: "?x \<notin> set (?hdr # us @ vs)"
    using r(2) r(6) [of ?x] x(1) by (auto simp: height_def live_def core_def WLC_SKIPLIST_MAX_LEVEL_def split: option.splits)
  have "sl_rep b c3 wsl' (us @ ?x # vs)"
  proof -
    have k: "y \<noteq> ?x \<Longrightarrow> core c3 y = core ?c y" for y by (simp add: d(1))
    have kx: "nkey b c3 ?x = (w, block_id e)" "live b c3 ?x" "height c3 ?x = level"
      using e by (simp_all add: nkey_def live_def height_def d(1))
    have keys: "map (nkey b c3) us = map (nkey b ?c) us" "map (nkey b c3) vs = map (nkey b ?c) vs"
      using x_out by (auto intro!: core_cong(1) [OF k])
    have "sorted (map (nkey b c3) (us @ ?x # vs))"
      using r(7) us vs by (auto simp: keys kx sorted_append less_imp_le)
    moreover have "1 \<le> height c3 y \<and> height c3 y \<le> ?l \<and> live b c3 y" if "y \<in> set (us @ ?x # vs)" for y
      using that kx lv(1) r(6) [of y] core_cong [OF k, of y] by (cases "y = ?x") auto
    moreover have "height c3 ?hdr = WLC_SKIPLIST_MAX_LEVEL"
      using core_cong(3) [OF k, of ?hdr] r(2) x_out by auto
    ultimately show ?thesis
      using r(1,3,4,9) x_out d(2,3) lv(2) unfolding sl_rep_def by (auto simp: wsl'_def)
  qed
  ultimately show ?thesis using x d(1) by (intro exI [of _ ?x] exI [of _ wsl'] exI [of _ ?h]) (simp add: wsl'_def)
qed

subsection \<open>Correctness of deletion\<close>

lemma backs_delete:
  assumes "backs c p (us @ x # vs) t" and "distinct (us @ x # vs)"
    and "\<And>v. (vs \<noteq> [] \<Longrightarrow> v \<noteq> hd vs) \<Longrightarrow> bptr c' v = bptr c v"
    and "vs \<noteq> [] \<Longrightarrow> bptr c' (hd vs) = Some (last (p # us))"
  shows "backs c' p (us @ vs) (if vs = [] then last (p # us) else t)"
proof -
  have b: "backs c p us (last (p # us))" "backs c x vs t" using assms(1) by (auto simp: backs_split)
  have "backs c' p us (last (p # us))"
  proof (rule backs_cong [OF b(1)])
    fix u assume "u \<in> set us"
    then have "vs \<noteq> [] \<Longrightarrow> u \<noteq> hd vs" using assms(2) by auto
    then show "bptr c' u = bptr c u" using assms(3) by blast
  qed
  moreover have "backs c' (last (p # us)) vs (if vs = [] then last (p # us) else t)"
  proof (cases vs)
    case (Cons v ws)
    have "backs c' v ws t"
    proof (rule backs_cong)
      show "backs c v ws t" using b(2) Cons by simp
      fix w assume "w \<in> set ws"
      then have "w \<noteq> hd vs" using assms(2) Cons by auto
      then show "bptr c' w = bptr c w" using assms(3) by blast
    qed
    then show ?thesis using Cons assms(4) by simp
  qed simp
  ultimately show ?thesis by (simp add: backs_split)
qed

lemma delete_links:
  assumes rep: "sl_rep b c wsl (us @ x # vs)"
    and upd: "upd = map (\<lambda>i. last (sl_header wsl # hi c i us)) [0..<sl_level wsl]"
  shows "\<exists>c1. unlink_levels upd x 0 c = Some c1 \<and> core c1 = core c \<and> bptr c1 = bptr c \<and> fwd c1 0 x = fwd c 0 x \<and>
    (\<forall>i < WLC_SKIPLIST_MAX_LEVEL. path (fwd c1 i) (sl_header wsl) (hi c1 i (us @ vs)))"
proof -
  let ?hdr = "sl_header wsl"
  note r = sl_repD [OF rep]
  have lst: "last (?hdr # hi c i us) \<in> set (?hdr # hi c i us)" for i by (rule last_in_set) simp
  have fl: "fwd c i (last (?hdr # hi c i us)) = Some x \<longleftrightarrow> i < height c x" if "i < WLC_SKIPLIST_MAX_LEVEL" for i
  proof -
    have p: "path (fwd c i) (last (?hdr # hi c i us)) (hi c i (x # vs))" by (rule path_last [OF r(5) [OF that]])
    have "hd (hi c i vs) \<noteq> x" if "hi c i vs \<noteq> []" using hd_in_set [OF that] r(1) by auto
    moreover have "x \<noteq> NULL" using path_NULL [OF r(5) [of 0]] r(11) by (simp add: WLC_SKIPLIST_MAX_LEVEL_def)
    ultimately show ?thesis using path_hd [OF p] by auto
  qed
  have u: "upd ! j \<noteq> x \<and> j < height c (upd ! j)" "upd ! j = last (?hdr # hi c j us)" if "j < length upd" for j
    using that lst [of j] r(1,2,4) by (auto simp: upd)
  have len: "length upd = sl_level wsl" by (simp add: upd)
  obtain c1 where c1: "unlink_levels upd x 0 c = Some c1" "core c1 = core c" "bptr c1 = bptr c"
    and w: "\<And>j y. fwd c1 j y = (if 0 \<le> j \<and> j < 0 + length upd \<and> y = upd ! (j - 0) \<and> fwd c j y = Some x
       then fwd c j x else fwd c j y)"
    using unlink_levels_spec [of upd x 0 c] u fl r(4) len by fastforce
  have "path (fwd c1 i) ?hdr (hi c i us @ hi c i vs)" if i: "i < WLC_SKIPLIST_MAX_LEVEL" for i
  proof (cases "i < height c x")
    case True
    then have iu: "i < length upd" using r(6) [of x] by (simp add: len)
    show ?thesis
    proof (rule path_delete)
      show "path (fwd c i) ?hdr (hi c i us @ x # hi c i vs)" using r(5) [OF i] True by simp
      show "distinct (?hdr # hi c i us @ x # hi c i vs)" using r(1) by (auto simp: hi_def)
      show "fwd c1 i (last (?hdr # hi c i us)) = fwd c i x" using True fl [OF i] iu u(2) [OF iu] by (simp add: w)
      show "\<And>y. y \<noteq> last (?hdr # hi c i us) \<Longrightarrow> fwd c1 i y = fwd c i y" using u(2) [OF iu] by (simp add: w)
    qed
  next
    case False
    have "fwd c1 i = fwd c i" using False fl [OF i] u(2) by (auto simp: w fun_eq_iff)
    then show ?thesis using r(5) [OF i] False by simp
  qed
  moreover have "fwd c1 0 x = fwd c 0 x" using u(1) [of 0] by (auto simp: w)
  moreover have "hi c1 i (us @ vs) = hi c i us @ hi c i vs" for i by (simp add: hi_def core_height [OF c1(2)])
  ultimately show ?thesis using c1 by metis
qed

lemma lower_level_spec:
  assumes "1 \<le> l" "l \<le> WLC_SKIPLIST_MAX_LEVEL" and "\<And>x. x \<in> set xs \<Longrightarrow> height c x \<le> l"
    and "\<And>i. i < WLC_SKIPLIST_MAX_LEVEL \<Longrightarrow> path (fwd c i) hdr (hi c i xs)"
  shows "\<exists>l'. lower_level c hdr l = Some l' \<and> 1 \<le> l' \<and> l' \<le> l \<and> (\<forall>x \<in> set xs. height c x \<le> l')"
  using assms(1-3)
proof (induction l)
  case (Suc l)
  have f: "fwd c l hdr = Some (if hi c l xs = [] then NULL else hd (hi c l xs))"
    using path_hd [OF assms(4) [of l]] Suc.prems(2) by simp
  have n: "hi c l xs \<noteq> [] \<Longrightarrow> hd (hi c l xs) \<noteq> NULL"
    using path_NULL [OF assms(4) [of l]] Suc.prems(2) by (cases "hi c l xs") auto
  show ?case
  proof (cases "l = 0 \<or> hi c l xs \<noteq> []")
    case True
    then show ?thesis using f n Suc.prems by auto
  next
    case False
    then have "\<And>x. x \<in> set xs \<Longrightarrow> height c x \<le> l" by (auto simp: hi_def filter_empty_conv)
    then obtain l' where "lower_level c hdr l = Some l'" "1 \<le> l'" "l' \<le> l" "\<forall>x \<in> set xs. height c x \<le> l'"
      using Suc.IH Suc.prems(2) False by auto
    then show ?thesis using f False by auto
  qed
qed simp

lemma wlcsl_node_delete_spec:
  assumes rep: "sl_rep b c wsl (us @ x # vs)"
    and upd: "upd = map (\<lambda>i. last (sl_header wsl # hi c i us)) [0..<sl_level wsl]"
  shows "\<exists>wsl' c'. wlcsl_node_delete wsl x upd c = Some (wsl', c') \<and> sl_header wsl' = sl_header wsl \<and>
    core c' = core c \<and> sl_rep b c' wsl' (us @ vs)"
proof -
  let ?hdr = "sl_header wsl"
  note r = sl_repD [OF rep]
  obtain c1 where c1: "unlink_levels upd x 0 c = Some c1" "core c1 = core c" "bptr c1 = bptr c" "fwd c1 0 x = fwd c 0 x"
    "\<And>i. i < WLC_SKIPLIST_MAX_LEVEL \<Longrightarrow> path (fwd c1 i) ?hdr (hi c1 i (us @ vs))"
    using delete_links [OF rep upd] by blast
  have p0: "path (fwd c 0) ?hdr (us @ x # vs)" using r(5) [of 0] by (simp only: r(10,11)) (simp add: WLC_SKIPLIST_MAX_LEVEL_def)
  have f: "fwd c1 0 x = Some (if vs = [] then NULL else hd vs)"
    using path_hd [OF path_last [of _ _ "us @ [x]" vs]] p0 c1(4) by simp
  have vN: "hd vs \<noteq> NULL" if "vs \<noteq> []" using path_NULL [OF p0] that by (cases vs) auto
  have bx: "bptr c x = Some (last (NULL # us))" using r(8) by (simp add: backs_split)
  then have "bptr c1 x = Some (last (NULL # us))" by (simp only: c1(3))
  then obtain n where n: "c1 x = Some n" "wn_backward n = last (NULL # us)" by (auto simp: bptr_def)
  have "c1 (hd vs) \<noteq> None" if "vs \<noteq> []"
    using r(6) [of "hd vs"] that c1(2) core_None_iff [of c1 "hd vs"] by (auto simp: live_def split: option.splits)
  then obtain c2 where c2: "(if vs \<noteq> [] then set_backward c1 (hd vs) (last (NULL # us)) else Some c1) = Some c2"
    "core c2 = core c1" "fwd c2 = fwd c1"
    "\<And>y. bptr c2 y = (if vs \<noteq> [] \<and> y = hd vs then Some (last (NULL # us)) else bptr c1 y)"
    using set_backward_ok [of c1 "hd vs" "last (NULL # us)"] by (cases "vs = []") auto
  have cc: "core c2 = core c" using c1(2) c2(2) by simp
  have k: "nkey b c2 = nkey b c" "live b c2 = live b c" "height c2 = height c"
    using cc by (simp_all add: nkey_def live_def height_def fun_eq_iff)
  have pth: "path (fwd c2 i) ?hdr (hi c2 i (us @ vs))" if "i < WLC_SKIPLIST_MAX_LEVEL" for i
    using c1(5) [OF that] by (simp only: hi_def core_height [OF c2(2)] c2(3))
  obtain l' where l': "lower_level c2 ?hdr (sl_level wsl) = Some l'" "1 \<le> l'" "l' \<le> sl_level wsl"
    "\<forall>y \<in> set (us @ vs). height c2 y \<le> l'"
    using lower_level_spec [OF r(3,4), of "us @ vs" c2 ?hdr] pth r(6) k(3) by auto
  have bk: "backs c2 NULL (us @ vs) (if vs = [] then last (NULL # us) else sl_tail wsl)"
    by (rule backs_delete [OF r(8)]) (use r(1) in \<open>auto simp: c2(4) c1(3)\<close>)
  define wsl' where "wsl' = wsl\<lparr>sl_tail := if vs = [] then last (NULL # us) else sl_tail wsl, sl_level := l', sl_length := sl_length wsl - 1\<rparr>"
  have "length upd = sl_level wsl" by (simp add: upd)
  then have "wlcsl_node_delete wsl x upd c = Some (wsl', c2)"
    using c1(1) f n vN c2(1) l'(1) by (cases "vs = []") (simp_all add: wlcsl_node_delete_def wsl'_def Let_def)
  moreover have "sl_rep b c2 wsl' (us @ vs)"
    using r(1,2,4,6,7,9) l'(2,3,4) bk pth k unfolding sl_rep_def
    by (auto simp: wsl'_def sorted_append simp del: hi_simps)
  ultimately show ?thesis using cc by (auto simp: wsl'_def)
qed

subsection \<open>Searching and deleting\<close>

lemma sorted_key_split:
  fixes f :: "'a \<Rightarrow> 'b::linorder"
  assumes "sorted (map f xs)"
  shows "\<And>x. x \<in> set (takeWhile (\<lambda>x. f x < k) xs) \<Longrightarrow> f x < k"
    and "\<And>x. x \<in> set (dropWhile (\<lambda>x. f x < k) xs) \<Longrightarrow> k \<le> f x"
proof -
  show "\<And>x. x \<in> set (takeWhile (\<lambda>x. f x < k) xs) \<Longrightarrow> f x < k" by (auto dest: set_takeWhileD)
  fix x assume x: "x \<in> set (dropWhile (\<lambda>x. f x < k) xs)"
  show "k \<le> f x"
  proof (cases "dropWhile (\<lambda>x. f x < k) xs")
    case (Cons y ys)
    then have "k \<le> f y" using hd_dropWhile [of "\<lambda>x. f x < k" xs] by (auto simp: not_less)
    moreover have "sorted (map f (y # ys))"
      using assms Cons takeWhile_dropWhile_id [of "\<lambda>x. f x < k" xs] by (metis map_append sorted_append)
    ultimately show ?thesis using x Cons by (auto intro: order_trans)
  next
    case Nil
    with x show ?thesis by (metis empty_iff empty_set)
  qed
qed

lemma find_splits:
  assumes rep: "sl_rep b c wsl (us @ vs)" and e: "b dblk = Some e"
    and us: "\<And>x. x \<in> set us \<Longrightarrow> nkey b c x < (w, block_id e)"
    and vs: "\<And>x. x \<in> set vs \<Longrightarrow> w < fst (nkey b c x) \<or> nkey b c x = (w, block_id e)"
  shows "splits_at (before_find b w dblk) c us vs"
  unfolding splits_at_def
proof (intro conjI ballI)
  fix y assume y: "y \<in> set us"
  then have "live b c y" using sl_repD(6) [OF rep, of y] by simp
  then obtain n d where "c y = Some n" "b (wn_dblk n) = Some d" "nkey b c y = (wn_wlc n, block_id d)"
    using live_node by blast
  then show "\<exists>n. c y = Some n \<and> before_find b w dblk n = Some True"
    using us [OF y] e by (intro exI [of _ n]) (auto simp: before_find_def)
next
  fix y assume y: "y \<in> set vs"
  then have "live b c y" using sl_repD(6) [OF rep, of y] by simp
  then obtain n d where "c y = Some n" "b (wn_dblk n) = Some d" "nkey b c y = (wn_wlc n, block_id d)"
    using live_node by blast
  then show "\<exists>n. c y = Some n \<and> before_find b w dblk n = Some False"
    using vs [OF y] e by (intro exI [of _ n]) (auto simp: before_find_def)
qed

lemma sl_rep_cong:
  assumes rep: "sl_rep b c wsl xs" and eq: "\<And>y. y \<in> set (sl_header wsl # xs) \<Longrightarrow> c' y = c y"
  shows "sl_rep b c' wsl xs"
proof -
  have co: "core c' y = core c y" "bptr c' y = bptr c y" "\<And>i. fwd c' i y = fwd c i y" if "y \<in> set (sl_header wsl # xs)" for y
    using eq [OF that] by (simp_all add: core_def bptr_def fwd_def)
  have k: "height c' y = height c y" "nkey b c' y = nkey b c y" "live b c' y = live b c y"
    if "y \<in> set (sl_header wsl # xs)" for y
    using core_cong [OF co(1) [OF that]] by simp_all
  have hi: "hi c' i xs = hi c i xs" for i by (rule hi_cong) (simp add: k)
  have "path (fwd c' i) (sl_header wsl) (hi c' i xs)" if "i < WLC_SKIPLIST_MAX_LEVEL" for i
    unfolding hi
  proof (rule path_cong)
    show "path (fwd c i) (sl_header wsl) (hi c i xs)" using rep that by (simp add: sl_rep_def)
  qed (auto simp: co(3))
  moreover have "sorted (map (nkey b c') xs)" using rep by (simp add: sl_rep_def k cong: map_cong)
  moreover have "backs c' NULL xs (sl_tail wsl)"
    by (rule backs_cong [of c]) (use rep in \<open>simp_all add: sl_rep_def co(2)\<close>)
  ultimately show ?thesis using rep k unfolding sl_rep_def by simp
qed

text \<open>The condition under which the search cannot run past a node: no node of the same weight has a
  larger identifier.\<close>

definition top_of_weight :: "blocks \<Rightarrow> nodes \<Rightarrow> nat list \<Rightarrow> int \<Rightarrow> u32 \<Rightarrow> bool" where
  "top_of_weight b c xs w i \<longleftrightarrow> (\<forall>x \<in> set xs. fst (nkey b c x) = w \<longrightarrow> snd (nkey b c x) \<le> i)"

lemma top_split:
  assumes rep: "sl_rep b c wsl xs" and top: "top_of_weight b c xs w i"
    and ex: "\<exists>x \<in> set xs. nkey b c x = (w, i)"
  obtains us x vs where "xs = us @ x # vs" "nkey b c x = (w, i)" "\<And>u. u \<in> set us \<Longrightarrow> nkey b c u < (w, i)"
    "\<And>v. v \<in> set (x # vs) \<Longrightarrow> w < fst (nkey b c v) \<or> nkey b c v = (w, i)"
proof -
  let ?f = "nkey b c" and ?k = "(w, i)"
  have s: "sorted (map ?f xs)" using rep by (simp add: sl_rep_def)
  note sp = sorted_key_split [OF s, where k = ?k]
  obtain z where z: "z \<in> set xs" "?f z = ?k" using ex by blast
  have xs: "xs = takeWhile (\<lambda>x. ?f x < ?k) xs @ dropWhile (\<lambda>x. ?f x < ?k) xs" by simp
  with z sp(1) have zd: "z \<in> set (dropWhile (\<lambda>x. ?f x < ?k) xs)" by (metis Un_iff order_less_irrefl set_append)
  then obtain x vs where d: "dropWhile (\<lambda>x. ?f x < ?k) xs = x # vs" by (cases "dropWhile (\<lambda>x. ?f x < ?k) xs") auto
  have v: "w < fst (?f y) \<or> ?f y = ?k" if "y \<in> set (x # vs)" for y
  proof -
    have "?k \<le> ?f y" using sp(2) that d by metis
    moreover have "y \<in> set xs" using that d set_dropWhileD [of y] by metis
    ultimately show ?thesis using top by (cases "?f y") (auto simp: top_of_weight_def)
  qed
  have "sorted (map ?f (x # vs))" using s xs d by (metis map_append sorted_append)
  then have "?f x \<le> ?k" using zd z(2) d by auto
  then have "?f x = ?k" using sp(2) [of x] d by (simp add: antisym)
  then show ?thesis using that [of "takeWhile (\<lambda>x. ?f x < ?k) xs" x vs] xs d v sp(1) by metis
qed

lemma wlcsl_find_found:
  assumes rep: "sl_rep b c wsl (us @ x # vs)" and e: "b dblk = Some e" and x: "nkey b c x = (w, block_id e)"
    and us: "\<And>u. u \<in> set us \<Longrightarrow> nkey b c u < (w, block_id e)"
    and vs: "\<And>v. v \<in> set (x # vs) \<Longrightarrow> w < fst (nkey b c v) \<or> nkey b c v = (w, block_id e)"
  shows "wlcsl_find b c wsl w dblk = Some x" and "x \<noteq> NULL"
proof -
  note s = sl_rep_descend [OF rep find_splits [OF rep e us vs]]
  have "live b c x" using sl_repD(6) [OF rep, of x] by simp
  then obtain n d where n: "c x = Some n" "b (wn_dblk n) = Some d" "nkey b c x = (wn_wlc n, block_id d)"
    using live_node by blast
  show xN: "x \<noteq> NULL" using path_NULL [OF sl_repD(5) [OF rep, of 0]] sl_repD(11) [OF rep]
    by (simp add: WLC_SKIPLIST_MAX_LEVEL_def)
  show "wlcsl_find b c wsl w dblk = Some x"
    using s n x e xN by (simp add: wlcsl_find_def)
qed

lemma wlcsl_delete_found:
  assumes rep: "sl_rep b (cells h) wsl (us @ x # vs)" and e: "b dblk = Some e" and x: "nkey b (cells h) x = (w, block_id e)"
    and us: "\<And>u. u \<in> set us \<Longrightarrow> nkey b (cells h) u < (w, block_id e)"
    and vs: "\<And>v. v \<in> set (x # vs) \<Longrightarrow> w < fst (nkey b (cells h) v) \<or> nkey b (cells h) v = (w, block_id e)"
  shows "\<exists>wsl' h'. wlcsl_delete b False wsl w dblk h = Some (1, NULL, wsl', h') \<and> sl_header wsl' = sl_header wsl \<and>
    sl_rep b (cells h') wsl' (us @ vs) \<and> core (cells h') = (core (cells h))(x := None) \<and> h' = h\<lparr>cells := cells h'\<rparr>"
proof -
  define m where "m = map (\<lambda>i. last (sl_header wsl # hi (cells h) i us)) [0..<sl_level wsl]"
  note s = sl_rep_descend [OF rep find_splits [OF rep e us vs], folded m_def]
  have "live b (cells h) x" using sl_repD(6) [OF rep, of x] by simp
  then obtain n d where n: "cells h x = Some n" "b (wn_dblk n) = Some d" "nkey b (cells h) x = (wn_wlc n, block_id d)"
    using live_node by blast
  note xN = wlcsl_find_found(2) [OF rep e x us vs]
  obtain wsl' c' where d: "wlcsl_node_delete wsl x m (cells h) = Some (wsl', c')" "sl_header wsl' = sl_header wsl"
    "core c' = core (cells h)" "sl_rep b c' wsl' (us @ vs)"
    using wlcsl_node_delete_spec [OF rep m_def] by blast
  let ?h = "h\<lparr>cells := c'(x := None)\<rparr>"
  have "wlcsl_delete b False wsl w dblk h = Some (1, NULL, wsl', ?h)"
    using s n x e xN d(1) by (simp add: wlcsl_delete_def)
  moreover have c: "core (c'(x := None)) = (core (cells h))(x := None)"
    using d(3) by (auto simp: core_def fun_eq_iff)
  moreover have "sl_rep b (c'(x := None)) wsl' (us @ vs)"
  proof (rule sl_rep_cong [OF d(4)])
    fix y assume "y \<in> set (sl_header wsl' # us @ vs)"
    then have "y \<noteq> x" using sl_repD(1) [OF rep] d(2) by auto
    then show "(c'(x := None)) y = c' y" by simp
  qed
  ultimately show ?thesis using d(2) by (intro exI [of _ wsl'] exI [of _ ?h]) simp
qed

lemma wlcsl_find_absent:
  assumes rep: "sl_rep b c wsl xs" and e: "b dblk = Some e"
    and top: "top_of_weight b c xs w (block_id e)" and ex: "\<not> (\<exists>x \<in> set xs. nkey b c x = (w, block_id e))"
  shows "wlcsl_find b c wsl w dblk = Some NULL"
proof -
  let ?p = "\<lambda>x. nkey b c x < (w, block_id e)"
  define us vs where uv: "us = takeWhile ?p xs" "vs = dropWhile ?p xs"
  have rep': "sl_rep b c wsl (us @ vs)" using rep by (simp add: uv)
  have s: "sorted (map (nkey b c) xs)" using rep by (simp add: sl_rep_def)
  have v: "w < fst (nkey b c x)" if x: "x \<in> set vs" for x
  proof -
    have "x \<in> set xs" using x set_dropWhileD unfolding uv by metis
    moreover have "(w, block_id e) \<le> nkey b c x" using sorted_key_split(2) [OF s] x unfolding uv by metis
    ultimately show ?thesis using top ex by (cases "nkey b c x") (force simp: top_of_weight_def)
  qed
  have "splits_at (before_find b w dblk) c us vs"
    using v sorted_key_split(1) [OF s] by (intro find_splits [OF rep' e]) (auto simp: uv)
  note d = sl_rep_descend [OF rep' this]
  show ?thesis
  proof (cases vs)
    case Nil
    then show ?thesis using d by (simp add: wlcsl_find_def)
  next
    case (Cons x ws)
    have "live b c x" using sl_repD(6) [OF rep', of x] Cons by simp
    then obtain n y where "c x = Some n" "b (wn_dblk n) = Some y" "nkey b c x = (wn_wlc n, block_id y)"
      using live_node by blast
    then show ?thesis using d Cons v [of x] by (simp add: wlcsl_find_def)
  qed
qed

lemma wlcsl_insert_keys:
  assumes rep: "sl_rep b (cells h) wsl xs" and h: "heap_ok h" "\<not> oom h (nalloc h)"
    and e: "b dblk = Some e" and level: "wlcsl_random_level random k = Some (level, k')"
  shows "\<exists>x wsl' h'. wlcsl_insert random k b wsl w dblk h = Some (x, wsl', h', k') \<and>
    heap_ok h' \<and> x \<noteq> NULL \<and> cells h x = None \<and> core (cells h') x = Some (dblk, w, level) \<and>
    (\<forall>y. y \<noteq> x \<longrightarrow> core (cells h') y = core (cells h) y) \<and>
    sl_rep b (cells h') wsl' (takeWhile (\<lambda>y. nkey b (cells h) y < (w, block_id e)) xs @ x #
      dropWhile (\<lambda>y. nkey b (cells h) y < (w, block_id e)) xs)"
proof -
  have "sorted (map (nkey b (cells h)) xs)" using rep by (simp add: sl_rep_def)
  note sp = sorted_key_split [OF this, where k = "(w, block_id e)"]
  have "sl_rep b (cells h) wsl (takeWhile (\<lambda>y. nkey b (cells h) y < (w, block_id e)) xs @
      dropWhile (\<lambda>y. nkey b (cells h) y < (w, block_id e)) xs)" using rep by simp
  from wlcsl_insert_spec [OF this h e level sp] show ?thesis by auto
qed

text \<open>The keys of the list after an insertion or a deletion.\<close>

lemma map_nkey_cong: "(\<And>y. y \<in> set xs \<Longrightarrow> core c' y = core c y) \<Longrightarrow> map (nkey b c') xs = map (nkey b c) xs"
  by (simp add: nkey_def)

lemma sl_rep_live: "sl_rep b c wsl xs \<Longrightarrow> x \<in> set xs \<Longrightarrow> c x \<noteq> None"
  using live_node [of b c x] by (auto simp: sl_rep_def)

lemma heap_ok_cells:
  "heap_ok h \<Longrightarrow> h' = h\<lparr>cells := cells h'\<rparr> \<Longrightarrow> (\<And>x. cells h x = None \<Longrightarrow> cells h' x = None) \<Longrightarrow> heap_ok h'"
proof -
  assume a: "heap_ok h" "h' = h\<lparr>cells := cells h'\<rparr>" "\<And>x. cells h x = None \<Longrightarrow> cells h' x = None"
  have "brk h' = brk h" using arg_cong [OF a(2), of brk] by simp
  moreover have "dom (cells h') \<subseteq> dom (cells h)" using a(3) by force
  ultimately show ?thesis using a(1) unfolding heap_ok_def by auto
qed

text \<open>The first half of \<open>cluster_wlc_block_add\<close>: the node of the old weight disappears.\<close>

lemma block_add_removes:
  assumes rep: "sl_rep b (cells h) wsl xs" and h: "heap_ok h" "\<not> oom h (nalloc h)" and e: "b dblk = Some e"
    and top: "top_of_weight b (cells h) xs w (block_id e)"
  shows "\<exists>node wsl1 h1 xs1. wlcsl_find b (cells h) wsl w dblk = Some node \<and>
      (if node \<noteq> NULL then do {
             n \<leftarrow> cells h node;
             (_, _, wlcsl, h) \<leftarrow> wlcsl_delete b False wsl (wn_wlc n) (wn_dblk n) h;
             Some (wlcsl, h)
           } else Some (wsl, h)) = Some (wsl1, h1) \<and> sl_rep b (cells h1) wsl1 xs1 \<and> heap_ok h1 \<and> \<not> oom h1 (nalloc h1) \<and>
      mset (map (nkey b (cells h1)) xs1) = mset (map (nkey b (cells h)) xs) - {#(w, block_id e)#}"
proof (cases "\<exists>x \<in> set xs. nkey b (cells h) x = (w, block_id e)")
  case False
  then have "(w, block_id e) \<notin># mset (map (nkey b (cells h)) xs)" by auto
  then have "mset (map (nkey b (cells h)) xs) - {#(w, block_id e)#} = mset (map (nkey b (cells h)) xs)"
    by (rule diff_single_trivial)
  then show ?thesis using wlcsl_find_absent [OF rep e top False] rep h by auto
next
  case True
  obtain us x vs where s: "xs = us @ x # vs" "nkey b (cells h) x = (w, block_id e)"
    "\<And>u. u \<in> set us \<Longrightarrow> nkey b (cells h) u < (w, block_id e)"
    "\<And>v. v \<in> set (x # vs) \<Longrightarrow> w < fst (nkey b (cells h) v) \<or> nkey b (cells h) v = (w, block_id e)"
    using top_split [OF rep top True] by metis
  note rep' = rep [unfolded s(1)]
  note f = wlcsl_find_found [OF rep' e s(2-4)]
  have "live b (cells h) x" using sl_repD(6) [OF rep', of x] by simp
  then obtain n d where n: "cells h x = Some n" "b (wn_dblk n) = Some d" "(w, block_id e) = (wn_wlc n, block_id d)"
    using live_node [of b "cells h" x] s(2) by auto
  note s' = s(2-4) [unfolded n(3)]
  obtain wsl1 h1 where d: "wlcsl_delete b False wsl (wn_wlc n) (wn_dblk n) h = Some (1, NULL, wsl1, h1)"
    "sl_rep b (cells h1) wsl1 (us @ vs)" "core (cells h1) = (core (cells h))(x := None)" "h1 = h\<lparr>cells := cells h1\<rparr>"
    using wlcsl_delete_found [OF rep' n(2) s'(1,2)] s'(3) n(3) by auto
  have "cells h y = None \<Longrightarrow> cells h1 y = None" for y
    using core_None_iff [of "cells h1" y] core_None_iff [of "cells h" y] d(3) by (auto split: if_splits)
  then have "heap_ok h1" by (rule heap_ok_cells [OF h(1) d(4)])
  moreover have "\<not> oom h1 (nalloc h1)" using h(2) arg_cong [OF d(4), of oom] arg_cong [OF d(4), of nalloc] by simp
  moreover have m: "map (nkey b (cells h1)) (us @ vs) = map (nkey b (cells h)) (us @ vs)"
    by (rule map_nkey_cong) (use sl_repD(1) [OF rep'] d(3) in auto)
  have "mset (map (nkey b (cells h1)) (us @ vs)) = mset (map (nkey b (cells h)) xs) - {#(w, block_id e)#}"
    unfolding m by (simp add: s(1,2))
  ultimately show ?thesis using f n(1) d(1,2) by (intro exI [of _ x] exI [of _ wsl1] exI [of _ h1] exI [of _ "us @ vs"]) simp
qed

subsection \<open>Properties\<close>

text \<open>C5: Inserting a data server into the skip list ends (once the random level does) without touching
  memory outside of the list, keeps every level, the order by weight and identifier, the backward
  pointers and the length consistent, and places the new node exactly before the first node whose
  key is not smaller.\<close>

theorem wlcsl_insert_sorted:
  assumes "sl_rep b (cells h) wsl xs" and "heap_ok h" "\<not> oom h (nalloc h)" and "b dblk = Some e"
    and "wlcsl_random_level random k = Some (level, k')"
  shows "\<exists>x wsl' h'. wlcsl_insert random k b wsl w dblk h = Some (x, wsl', h', k') \<and> heap_ok h' \<and>
    cells h x = None \<and> core (cells h') x = Some (dblk, w, level) \<and>
    sl_rep b (cells h') wsl' (takeWhile (\<lambda>y. nkey b (cells h) y < (w, block_id e)) xs @ x #
      dropWhile (\<lambda>y. nkey b (cells h) y < (w, block_id e)) xs)"
  using wlcsl_insert_keys [OF assms] by blast

lemma wlcsl_create_rep:
  assumes "heap_ok h" and "wlcsl_create h = Some (wsl, h')"
  shows "sl_rep b (cells h') wsl []" "heap_ok h'" "oom h' = oom h" "nalloc h' = nalloc h + 2"
  using assms
  by (auto simp: wlcsl_create_def wlcsl_node_new_def reserve_def malloc_def Let_def sl_rep_def height_def core_def
      fwd_def heap_ok_def less_Suc_eq WLC_SKIPLIST_MAX_LEVEL_def split: if_splits)

definition demo_pool :: blocks where
  "demo_pool = [1 \<mapsto> zero_block\<lparr>block_id := 1\<rparr>, 2 \<mapsto> zero_block\<lparr>block_id := 7\<rparr>]"

text \<open>The sequence of random numbers of the examples: the first insertion draws level 1, the second
  level 2, the later ones level 1.\<close>

definition demo_random :: "nat \<Rightarrow> int" where
  "demo_random k = (if k = 1 then 0 else 0xFFFF)"

theorem wlcsl_insert_sorted_witness:
  "\<exists>wsl h x wsl' h'. wlcsl_create (heap_init (\<lambda>_. False)) = Some (wsl, h) \<and>
     wlcsl_insert demo_random 0 demo_pool wsl 5 1 h = Some (x, wsl', h', 1) \<and>
     sl_rep demo_pool (cells h') wsl' [x]"
proof -
  obtain wsl h where c: "wlcsl_create (heap_init (\<lambda>_. False) :: wlc_skiplist_node heap) = Some (wsl, h)"
    by (simp add: wlcsl_create_def wlcsl_node_new_def reserve_def malloc_def heap_init_def)
  note r = wlcsl_create_rep [OF heap_ok_init c]
  have "wlcsl_random_level demo_random 0 = Some (1, 1)"
    by (simp add: wlcsl_random_level_def random_level_loop.simps demo_random_def WLC_SKIPLIST_MAX_LEVEL_def)
  moreover have "demo_pool 1 = Some (zero_block\<lparr>block_id := 1\<rparr>)" by (simp add: demo_pool_def)
  moreover have "\<not> oom h (nalloc h)" using r(3) by (simp add: heap_init_def)
  ultimately show ?thesis
    using wlcsl_insert_sorted [OF r(1) [of demo_pool] r(2), of 1 "zero_block\<lparr>block_id := 1\<rparr>" demo_random 0 1 1 5] c by auto
qed

text \<open>C26: When no node of the same weight has a larger identifier, a search finds a node with the
  wanted weight and identifier exactly when there is one.\<close>

theorem wlcsl_find_correct:
  assumes "sl_rep b c wsl xs" and "b dblk = Some e" and "top_of_weight b c xs w (block_id e)"
  shows "\<exists>x. wlcsl_find b c wsl w dblk = Some x \<and>
    (if \<exists>y \<in> set xs. nkey b c y = (w, block_id e)
     then x \<noteq> NULL \<and> x \<in> set xs \<and> nkey b c x = (w, block_id e) else x = NULL)"
proof (cases "\<exists>y \<in> set xs. nkey b c y = (w, block_id e)")
  case True
  obtain us x vs where s: "xs = us @ x # vs" "nkey b c x = (w, block_id e)"
    "\<And>u. u \<in> set us \<Longrightarrow> nkey b c u < (w, block_id e)"
    "\<And>v. v \<in> set (x # vs) \<Longrightarrow> w < fst (nkey b c v) \<or> nkey b c v = (w, block_id e)"
    using top_split [OF assms(1,3) True] by metis
  from wlcsl_find_found [OF assms(1) [unfolded s(1)] assms(2) s(2-4)] True show ?thesis
    using s(1,2) by auto
qed (use wlcsl_find_absent [OF assms] in auto)

theorem wlcsl_find_correct_witness:
  "\<exists>wsl h. wlcsl_create (heap_init (\<lambda>_. False)) = Some (wsl, h) \<and>
     wlcsl_find demo_pool (cells h) wsl 5 1 = Some NULL"
proof -
  obtain wsl h where c: "wlcsl_create (heap_init (\<lambda>_. False) :: wlc_skiplist_node heap) = Some (wsl, h)"
    by (simp add: wlcsl_create_def wlcsl_node_new_def reserve_def malloc_def heap_init_def)
  note r = wlcsl_create_rep(1) [OF heap_ok_init c]
  have "demo_pool 1 = Some (zero_block\<lparr>block_id := 1\<rparr>)" by (simp add: demo_pool_def)
  then show ?thesis
    using wlcsl_find_correct [OF r [of demo_pool], of 1 "zero_block\<lparr>block_id := 1\<rparr>" 5] c
    by (simp add: top_of_weight_def)
qed

definition demo_run :: "(nat \<times> nat \<times> nat) option" where
  "demo_run =
     do {
       (wsl, h) \<leftarrow> wlcsl_create (heap_init (\<lambda>_. False));
       (x, wsl, h, k) \<leftarrow> wlcsl_insert demo_random 0 demo_pool wsl 5 1 h;
       (y, wsl, h, k) \<leftarrow> wlcsl_insert demo_random k demo_pool wsl 5 2 h;
       z \<leftarrow> wlcsl_find demo_pool (cells h) wsl 5 1;
       (ret, wsl, h, k) \<leftarrow>
         cluster_wlc_block_add demo_random k demo_pool wsl \<lparr>ctx_dblk = 1, old_wlc = 5, new_wlc = 6\<rparr> h;
       Some (x, z, sl_length wsl)
     }"




lemma demo_list:
  "\<exists>wsl (h :: wlc_skiplist_node heap) x n. sl_rep demo_pool (cells h) wsl [x] \<and> cells h x = Some n \<and> wn_dblk n = 1 \<and> wn_wlc n = 5"
proof -
  obtain wsl h where c: "wlcsl_create (heap_init (\<lambda>_. False) :: wlc_skiplist_node heap) = Some (wsl, h)"
    by (simp add: wlcsl_create_def wlcsl_node_new_def reserve_def malloc_def heap_init_def)
  note r = wlcsl_create_rep [OF heap_ok_init c]
  have "wlcsl_random_level demo_random 0 = Some (1, 1)"
    by (simp add: wlcsl_random_level_def random_level_loop.simps demo_random_def WLC_SKIPLIST_MAX_LEVEL_def)
  moreover have "demo_pool 1 = Some (zero_block\<lparr>block_id := 1\<rparr>)" by (simp add: demo_pool_def)
  moreover have "\<not> oom h (nalloc h)" using r(3) by (simp add: heap_init_def)
  ultimately show ?thesis
    using wlcsl_insert_keys [OF r(1) [of demo_pool] r(2), of 1 "zero_block\<lparr>block_id := 1\<rparr>" demo_random 0 1 1 5]
    by (auto simp: core_def)
qed

text \<open>C28: The data server chosen for a write is the first node of the list, as long as its heart beat is
  recent: no other data server has a smaller weight, and nothing is changed.\<close>

theorem write_block_least_weight:
  assumes "sl_rep b (cells h) wsl (x # xs)" and "cells h x = Some n" and "b (wn_dblk n) = Some d"
    and "now 0 - last_heartbeat_time d \<le> interval"
  shows "cluster_wlc_write_block_get now interval b wsl h = Some (wn_dblk n, b, wsl, h) \<and>
    (\<forall>y \<in> set (x # xs). wn_wlc n \<le> wn_wlc (the (cells h y)))"
proof
  have rep: "sl_rep b (cells h) wsl ([] @ x # xs)" using assms(1) by simp
  have "fwd (cells h) 0 (sl_header wsl) = Some x" "x \<noteq> NULL"
    using sl_repD(5) [OF rep, of 0] sl_repD(11) [OF rep] by (simp_all add: WLC_SKIPLIST_MAX_LEVEL_def)
  then show "cluster_wlc_write_block_get now interval b wsl h = Some (wn_dblk n, b, wsl, h)"
    using assms(2-4) by (simp add: cluster_wlc_write_block_get_def write_block_loop.simps [of _ _ 0])
  show "\<forall>y \<in> set (x # xs). wn_wlc n \<le> wn_wlc (the (cells h y))"
  proof
    fix y assume y: "y \<in> set (x # xs)"
    have k: "fst (nkey b (cells h) z) = wn_wlc (the (cells h z))" if "z \<in> set (x # xs)" for z
      using live_node [of b "cells h" z] sl_repD(6) [OF rep, of z] that by auto
    have "sorted (map (nkey b (cells h)) (x # xs))" using assms(1) by (simp add: sl_rep_def)
    then have "nkey b (cells h) x \<le> nkey b (cells h) y" using y by auto
    then have "fst (nkey b (cells h) x) \<le> fst (nkey b (cells h) y)" by (auto simp: less_eq_prod_def)
    then show "wn_wlc n \<le> wn_wlc (the (cells h y))" using k [OF y] k [of x] assms(2) by simp
  qed
qed

theorem write_block_least_weight_witness:
  "\<exists>wsl (h :: wlc_skiplist_node heap) x n. sl_rep demo_pool (cells h) wsl [x] \<and> cells h x = Some n \<and>
     cluster_wlc_write_block_get (\<lambda>_. 9) 10 demo_pool wsl h = Some (1, demo_pool, wsl, h) \<and>
     (\<forall>y \<in> set [x]. wn_wlc n \<le> wn_wlc (the (cells h y)))"
proof -
  obtain wsl and h :: "wlc_skiplist_node heap" and x n where "sl_rep demo_pool (cells h) wsl [x]" "cells h x = Some n" "wn_dblk n = 1"
    using demo_list by blast
  moreover have "demo_pool 1 = Some (zero_block\<lparr>block_id := 1\<rparr>)" "9 - last_heartbeat_time (zero_block\<lparr>block_id := 1\<rparr>) \<le> 10"
    by (simp_all add: demo_pool_def zero_block_def)
  ultimately show ?thesis
    using write_block_least_weight [of demo_pool h wsl x "[]" n "zero_block\<lparr>block_id := 1\<rparr>" "\<lambda>_. 9" 10]
    by (intro exI [of _ wsl] exI [of _ h] exI [of _ x] exI [of _ n]) auto
qed



end
