(* ===== verification/Ts_Cluster.thy ===== *)
theory Ts_Cluster
  imports Ts_Wlc Buckets
begin

unbundle bit_operations_syntax

text \<open>
  The table of volumes of the tracker (\<open>src/trackerserver/ts_cluster.c\<close>, \<open>ts_cluster_datasevr.c\<close>): an
  array of chains of volumes whose size is a power of two. It grows incrementally: a maintenance
  thread moves one bucket at a time from the old array to the new one while the other threads keep
  inserting and searching. An operation under a bucket lock is one atomic step here; the relation
  \<open>cl_step\<close> interleaves insertions with the steps of the maintenance thread. The lemmas show that
  every interleaving keeps the invariant \<open>cl_inv\<close>, under which a search finds exactly the inserted
  volumes, and that an expansion ends; one insertion during an expansion writes outside of the old
  array, which \<open>insert_out_of_range\<close> characterises.
\<close>

subsection \<open>Data\<close>

text \<open>The arrays are lists of addresses, \<open>[]\<close> for \<open>NULL\<close>; \<open>hash_size\<close> is the exponent.\<close>

record datasevr_cluster =
  old_volume_count :: int
  primary_volume_count :: int
  curr_volume_id :: u32
  hash_size :: nat
  expand_bucket :: nat
  is_started_expanding :: bool
  expanding :: bool
  old_volumes :: "nat list"
  primary_volumes :: "nat list"
  cl_wlcsl :: wlc_skiplist

type_synonym volumes = "nat \<rightharpoonup> datasevr_volume"

definition DEFAULT_CLUSTER_HASH_POWER :: nat where
  "DEFAULT_CLUSTER_HASH_POWER = 2"

definition hashsize :: "nat \<Rightarrow> u64" where
  "hashsize n = push_bit n 1"

definition hashmask :: "nat \<Rightarrow> u64" where
  "hashmask n = hashsize n - 1"

text \<open>\<open>vid & hashmask(n)\<close>.\<close>

definition bucket_ix :: "nat \<Rightarrow> u32 \<Rightarrow> nat" where
  "bucket_ix n vid = unat ((ucast vid :: u64) AND hashmask n)"

text \<open>Access to an array of pointers, \<open>None\<close> outside of it.\<close>

definition arr_get :: "nat list \<Rightarrow> nat \<Rightarrow> nat option" where
  "arr_get xs i = (if i < length xs then Some (xs ! i) else None)"

subsection \<open>Initialisation\<close>

definition cluster_table_init ::
  "nat \<Rightarrow> bool \<Rightarrow> wlc_skiplist_node heap \<Rightarrow> (int \<times> datasevr_cluster \<times> wlc_skiplist_node heap) option" where
  "cluster_table_init init_hashsize ok h =
     (let pw = (if init_hashsize \<noteq> 0 then init_hashsize else DEFAULT_CLUSTER_HASH_POWER);
          cl = \<lparr>old_volume_count = 0, primary_volume_count = 0, curr_volume_id = 0, hash_size = pw,
                expand_bucket = 0, is_started_expanding = False, expanding = False, old_volumes = [],
                primary_volumes = (if ok then replicate (unat (hashsize pw)) NULL else []),
                cl_wlcsl = \<lparr>sl_header = NULL, sl_tail = NULL, sl_length = 0, sl_level = 0\<rparr>\<rparr> in
      if \<not> ok then Some (LFS_ERROR, cl, h)
      else do {
        (wsl, h') \<leftarrow> wlcsl_create h;
        Some (LFS_OK, cl\<lparr>cl_wlcsl := wsl\<rparr>, h')
      })"

text \<open>The number of locks; the division by the number of threads comes first. The result is the
  exponent \<open>cluster_lock_hashpower\<close>.\<close>

definition cluster_lock_init :: "datasevr_cluster \<Rightarrow> nat \<Rightarrow> bool \<Rightarrow> (int \<times> nat) option" where
  "cluster_lock_init cl work_threads ok =
     (if work_threads = 0 then None
      else let lkc = unat (hashsize (hash_size cl)) div work_threads in
           Some (if ok then LFS_OK else LFS_ERROR, lkc))"

definition cluster_lock_ix :: "nat \<Rightarrow> u32 \<Rightarrow> nat" where
  "cluster_lock_ix lkc hv = bucket_ix lkc hv"

subsection \<open>Insertion and search\<close>

definition cluster_start_expand :: "datasevr_cluster \<Rightarrow> datasevr_cluster" where
  "cluster_start_expand cl = (if is_started_expanding cl then cl else cl\<lparr>is_started_expanding := True\<rparr>)"

definition set_dv_next :: "nat \<Rightarrow> datasevr_volume \<Rightarrow> datasevr_volume" where
  "set_dv_next q dv = dv\<lparr>dv_next := q\<rparr>"

definition do_cluster_insert ::
  "nat \<Rightarrow> datasevr_cluster \<Rightarrow> volumes \<Rightarrow> (int \<times> datasevr_cluster \<times> volumes) option" where
  "do_cluster_insert p cl c =
     do {
       dv \<leftarrow> c p;
       let bukt = bucket_ix (hash_size cl) (volume_id dv);
       (cl, c) \<leftarrow>
         (if expanding cl \<and> bukt \<ge> expand_bucket cl then do {
            q \<leftarrow> arr_get (old_volumes cl) bukt;
            Some (cl\<lparr>old_volumes := (old_volumes cl)[bukt := p]\<rparr>, c(p \<mapsto> set_dv_next q dv))
          }
          else do {
            q \<leftarrow> arr_get (primary_volumes cl) bukt;
            Some (cl\<lparr>primary_volumes := (primary_volumes cl)[bukt := p]\<rparr>, c(p \<mapsto> set_dv_next q dv))
          });
       let cl = cl\<lparr>primary_volume_count := primary_volume_count cl + 1\<rparr>;
       Some (LFS_OK,
             if \<not> expanding cl \<and> (of_int (primary_volume_count cl) :: u64) > hashsize (hash_size cl) div 2
             then cluster_start_expand cl else cl,
             c)
     }"

definition do_find :: "datasevr_cluster \<Rightarrow> volumes \<Rightarrow> u32 \<Rightarrow> nat option" where
  "do_find cl c vid =
     do {
       let oldbkt = bucket_ix (hash_size cl - 1) vid;
       ite \<leftarrow> (if expanding cl \<and> oldbkt \<ge> expand_bucket cl then arr_get (old_volumes cl) oldbkt
              else arr_get (primary_volumes cl) (bucket_ix (hash_size cl) vid));
       walk (\<lambda>dv. volume_id dv = vid) dv_next c ite
     }"

definition do_cluster_find :: "datasevr_cluster \<Rightarrow> volumes \<Rightarrow> u32 \<Rightarrow> nat option" where
  "do_cluster_find cl c vid = do_find cl c vid"

subsection \<open>Expansion\<close>

text \<open>\<open>ok\<close> is the outcome of the allocation of the new array.\<close>

definition cluster_expand :: "bool \<Rightarrow> datasevr_cluster \<Rightarrow> datasevr_cluster" where
  "cluster_expand ok cl =
     (let cl = cl\<lparr>old_volumes := primary_volumes cl, old_volume_count := primary_volume_count cl\<rparr> in
      if ok then
        cl\<lparr>primary_volumes := replicate (unat (hashsize (hash_size cl + 1))) NULL, expand_bucket := 0,
           primary_volume_count := 0, hash_size := hash_size cl + 1, expanding := True\<rparr>
      else cl\<lparr>primary_volumes := old_volumes cl, primary_volume_count := old_volume_count cl\<rparr>)"

definition volume_bucket :: "nat \<Rightarrow> datasevr_volume \<Rightarrow> nat" where
  "volume_bucket n dv = bucket_ix n (volume_id dv)"

text \<open>One round of the inner loop of the maintenance thread, when it gets the lock of the bucket.\<close>

definition expand_step :: "datasevr_cluster \<Rightarrow> volumes \<Rightarrow> (datasevr_cluster \<times> volumes) option" where
  "expand_step cl c =
     do {
       it \<leftarrow> arr_get (old_volumes cl) (expand_bucket cl);
       (ps, c, n) \<leftarrow> relink dv_next set_dv_next (volume_bucket (hash_size cl)) (primary_volumes cl) c
         (primary_volume_count cl) it;
       let cl = cl\<lparr>primary_volumes := ps, primary_volume_count := n,
                   old_volumes := (old_volumes cl)[expand_bucket cl := NULL], expand_bucket := expand_bucket cl + 1\<rparr>;
       Some (if of_nat (expand_bucket cl) = hashsize (hash_size cl - 1)
             then cl\<lparr>expanding := False, old_volumes := [], old_volume_count := 0\<rparr> else cl, c)
     }"

text \<open>The body of the outer loop of the maintenance thread: while an expansion is under way, one step
  of it per lock acquired (\<open>locked\<close>); otherwise wait for the signal and start the next expansion.\<close>

definition maintenance_step ::
  "bool \<Rightarrow> bool \<Rightarrow> datasevr_cluster \<Rightarrow> volumes \<Rightarrow> (datasevr_cluster \<times> volumes) option" where
  "maintenance_step locked ok cl c =
     (if expanding cl then if locked then expand_step cl c else Some (cl, c)
      else Some (cluster_expand ok (cl\<lparr>is_started_expanding := False\<rparr>), c))"

subsection \<open>Release\<close>

text \<open>\<open>volume_free\<close> keeps the volume (see \<open>Ts_Datasevr\<close>), so the loop only walks the chain.\<close>

definition free_bucket :: "volumes \<Rightarrow> nat \<Rightarrow> nat option" where
  "free_bucket c it = walk (\<lambda>dv. dv_blocks dv = [] \<and> block_count dv > 0) dv_next c it"

text \<open>\<open>locked i\<close> is the outcome of \<open>cluster_trylock(i)\<close>. The result lists the buckets that are left.\<close>

primrec free_table :: "(nat \<Rightarrow> bool) \<Rightarrow> volumes \<Rightarrow> nat \<Rightarrow> nat list \<Rightarrow> nat list option" where
  "free_table locked c i [] = Some []"
| "free_table locked c i (p # ps) =
     do {
       q \<leftarrow> (if locked i then do {
              bad \<leftarrow> free_bucket c p;
              if bad \<noteq> NULL then None else Some NULL
            }
            else Some p);
       qs \<leftarrow> free_table locked c (Suc i) ps;
       Some (q # qs)
     }"

definition cluster_free :: "(nat \<Rightarrow> bool) \<Rightarrow> datasevr_cluster \<Rightarrow> volumes \<Rightarrow> datasevr_cluster option" where
  "cluster_free locked cl c =
     (if primary_volumes cl = [] then Some cl
      else do {
        ps \<leftarrow> free_table locked c 0 (primary_volumes cl);
        Some (cl\<lparr>primary_volumes := ps\<rparr>)
      })"

subsection \<open>Buckets\<close>

lemma hashsize_pow: "n < 64 \<Longrightarrow> unat (hashsize n) = 2 ^ n"
proof -
  assume n: "n < 64"
  then have "(2::nat) ^ n < 2 ^ 64" by (rule power_strict_increasing) simp
  then show ?thesis 
    unfolding hashsize_def unsigned_push_bit_eq by (simp add: push_bit_eq_mult take_bit_eq_mod)
qed

lemma bucket_ix_mod: "n < 64 \<Longrightarrow> bucket_ix n vid = unat vid mod 2 ^ n"
proof -
  have "hashmask n = mask n"
    by (simp add: hashmask_def hashsize_def push_bit_eq_mult mask_eq_decr_exp)
  then have m: "(ucast vid :: u64) AND hashmask n = take_bit n (ucast vid)" by (simp add: take_bit_eq_mask)
  have "unat vid < 2 ^ 64" using unsigned_less [of vid, where 'a = nat] by simp
  then have "unat (ucast vid :: u64) = unat vid" by (simp add: unsigned_ucast_eq take_bit_nat_eq_self)
  then show ?thesis unfolding bucket_ix_def m unsigned_take_bit_eq by (simp add: take_bit_eq_mod)
qed

lemma bucket_ix_less: "n < 64 \<Longrightarrow> bucket_ix n vid < 2 ^ n"
  by (simp add: bucket_ix_mod)

text \<open>With one more bit a bucket splits in two.\<close>

lemma bucket_ix_Suc:
  assumes "Suc n < 64"
  shows "bucket_ix (Suc n) vid = bucket_ix n vid \<or> bucket_ix (Suc n) vid = bucket_ix n vid + 2 ^ n"
proof -
  have "unat vid mod (2 * 2 ^ n) = unat vid mod 2 ^ n + 2 ^ n * (unat vid div 2 ^ n mod 2)"
    by (metis add.commute mod_mult2_eq mult.commute)
  moreover have "unat vid div 2 ^ n mod 2 = 0 \<or> unat vid div 2 ^ n mod 2 = 1" by arith
  ultimately show ?thesis using assms by (auto simp: bucket_ix_mod)
qed

lemma bucket_ix_low:
  "Suc n < 64 \<Longrightarrow> bucket_ix (Suc n) vid < 2 ^ n \<Longrightarrow> bucket_ix (Suc n) vid = bucket_ix n vid"
  using bucket_ix_Suc [of n vid] by auto

interpretation dv: link_node dv_next set_dv_next
  by unfold_locales (simp_all add: set_dv_next_def)

lemma set_dv_next_sel [simp]:
  "volume_id (set_dv_next q dv) = volume_id dv" "dv_next (set_dv_next q dv) = q"
  "dv_blocks (set_dv_next q dv) = dv_blocks dv" "block_count (set_dv_next q dv) = block_count dv"
  "master_block_index (set_dv_next q dv) = master_block_index dv"
  by (simp_all add: set_dv_next_def)

subsection \<open>The invariant\<close>

text \<open>\<open>os\<close> and \<open>ps\<close> are the chains of the old and of the new array. During an expansion the buckets of
  the old array below \<open>expand_bucket\<close> have been moved.\<close>

definition vid_at :: "volumes \<Rightarrow> nat \<Rightarrow> u32" where
  "vid_at c x = volume_id (the (c x))"

definition cl_inv :: "datasevr_cluster \<Rightarrow> volumes \<Rightarrow> nat list list \<Rightarrow> nat list list \<Rightarrow> bool" where
  "cl_inv cl c os ps \<longleftrightarrow>
     hash_size cl < 63 \<and> length (primary_volumes cl) = 2 ^ hash_size cl \<and>
     list_all2 (chain dv_next c) (primary_volumes cl) ps \<and>
     (\<forall>i < length ps. \<forall>x \<in> set (ps ! i). bucket_ix (hash_size cl) (vid_at c x) = i) \<and>
     distinct (concat os @ concat ps) \<and>
     (if expanding cl then
        0 < hash_size cl \<and> length (old_volumes cl) = 2 ^ (hash_size cl - 1) \<and>
        expand_bucket cl < 2 ^ (hash_size cl - 1) \<and>
        list_all2 (chain dv_next c) (old_volumes cl) os \<and>
        (\<forall>i < length os. \<forall>x \<in> set (os ! i). bucket_ix (hash_size cl - 1) (vid_at c x) = i) \<and>
        (\<forall>i < expand_bucket cl. os ! i = []) \<and>
        (\<forall>x \<in> set (concat ps). bucket_ix (hash_size cl - 1) (vid_at c x) < expand_bucket cl)
      else os = [])"

text \<open>The volumes of the table.\<close>

definition members :: "nat list list \<Rightarrow> nat list list \<Rightarrow> nat set" where
  "members os ps = set (concat os) \<union> set (concat ps)"

lemma concat_nth: "x \<in> set (concat xss) \<longleftrightarrow> (\<exists>i < length xss. x \<in> set (xss ! i))"
  by (fastforce simp: in_set_conv_nth)

subsection \<open>Searching\<close>

lemma walk_member:
  assumes "chain nxt c p xs"
  shows "\<exists>q. walk P nxt c p = Some q \<and>
    (if \<exists>x \<in> set xs. P (the (c x)) then q \<in> set xs \<and> P (the (c q)) else q = NULL)"
proof -
  have n: "node_sat P c x \<longleftrightarrow> P (the (c x))" if "x \<in> set xs" for x
    using chain_in_dom [OF assms that] by (auto simp: node_sat_def)
  show ?thesis
  proof (cases "find (node_sat P c) xs")
    case None
    then have "walk P nxt c p = Some NULL" using walk_chain [OF assms, of P] by simp
    moreover have "\<not> (\<exists>x \<in> set xs. P (the (c x)))" using None n by (auto simp: find_None_iff)
    ultimately show ?thesis by simp
  next
    case (Some x)
    then have "x \<in> set xs" "node_sat P c x" by (auto simp: find_Some_iff)
    then show ?thesis using walk_chain [OF assms, of P] n Some by auto
  qed
qed

lemma do_cluster_find_spec:
  assumes inv: "cl_inv cl c os ps"
  shows "\<exists>p. do_cluster_find cl c vid = Some p \<and>
    (if \<exists>x \<in> members os ps. vid_at c x = vid then p \<in> members os ps \<and> vid_at c p = vid else p = NULL)"
proof -
  let ?n = "hash_size cl"
  have n: "?n < 63" using inv by (simp add: cl_inv_def)
  have ps: "list_all2 (chain dv_next c) (primary_volumes cl) ps" "length ps = 2 ^ ?n"
    "\<And>i x. i < length ps \<Longrightarrow> x \<in> set (ps ! i) \<Longrightarrow> bucket_ix ?n (vid_at c x) = i"
    using inv list_all2_lengthD [of "chain dv_next c" "primary_volumes cl" ps] by (auto simp: cl_inv_def)
  show ?thesis
  proof (cases "expanding cl \<and> bucket_ix (?n - 1) vid \<ge> expand_bucket cl")
    case True
    let ?b = "bucket_ix (?n - 1) vid"
    have os: "list_all2 (chain dv_next c) (old_volumes cl) os" "length (old_volumes cl) = 2 ^ (?n - 1)"
      "\<And>i x. i < length os \<Longrightarrow> x \<in> set (os ! i) \<Longrightarrow> bucket_ix (?n - 1) (vid_at c x) = i"
      "\<And>x. x \<in> set (concat ps) \<Longrightarrow> bucket_ix (?n - 1) (vid_at c x) < expand_bucket cl"
      using inv True by (auto simp: cl_inv_def)
    have b: "?b < length (old_volumes cl)" using bucket_ix_less [of "?n - 1" vid] n os(2) by simp
    then have ch: "chain dv_next c (old_volumes cl ! ?b) (os ! ?b)" by (rule list_all2_nthD [OF os(1)])
    have "x \<in> set (os ! ?b)" if "x \<in> members os ps" "vid_at c x = vid" for x
      using that os(3,4) True unfolding members_def Un_iff concat_nth by (metis not_less)
    moreover have "set (os ! ?b) \<subseteq> members os ps"
      using b list_all2_lengthD [OF os(1)] by (auto simp: members_def)
    moreover have "do_cluster_find cl c vid = walk (\<lambda>dv. volume_id dv = vid) dv_next c (old_volumes cl ! ?b)"
      using True b by (simp add: do_cluster_find_def do_find_def Let_def arr_get_def)
    ultimately show ?thesis using walk_member [OF ch, of "\<lambda>dv. volume_id dv = vid"] unfolding vid_at_def
      by (metis (mono_tags, lifting) subsetD)
  next
    case False
    let ?b = "bucket_ix ?n vid"
    have b: "?b < length (primary_volumes cl)"
      using bucket_ix_less [of ?n vid] n list_all2_lengthD [OF ps(1)] ps(2) by simp
    then have ch: "chain dv_next c (primary_volumes cl ! ?b) (ps ! ?b)" by (rule list_all2_nthD [OF ps(1)])
    have "x \<in> set (ps ! ?b)" if x: "x \<in> members os ps" "vid_at c x = vid" for x
    proof -
      have "x \<notin> set (concat os)"
      proof
        assume o: "x \<in> set (concat os)"
        then have e: "expanding cl" using inv by (auto simp: cl_inv_def split: if_splits)
        from o obtain i where i: "i < length os" "x \<in> set (os ! i)" unfolding concat_nth by blast
        then have "bucket_ix (?n - 1) vid = i" using inv e x(2) by (auto simp: cl_inv_def)
        moreover have "\<not> i < expand_bucket cl" using inv e i(2) by (auto simp: cl_inv_def)
        ultimately show False using False e by simp
      qed
      then show ?thesis using x ps(3) unfolding members_def Un_iff concat_nth by metis
    qed
    moreover have "set (ps ! ?b) \<subseteq> members os ps"
      using b list_all2_lengthD [OF ps(1)] by (auto simp: members_def)
    moreover have "do_cluster_find cl c vid = walk (\<lambda>dv. volume_id dv = vid) dv_next c (primary_volumes cl ! ?b)"
      using False b by (auto simp: do_cluster_find_def do_find_def Let_def arr_get_def)
    ultimately show ?thesis using walk_member [OF ch, of "\<lambda>dv. volume_id dv = vid"] unfolding vid_at_def
      by (metis (mono_tags, lifting) subsetD)
  qed
qed

subsection \<open>Insertion\<close>

lemma push_bucket:
  assumes "list_all2 (chain nxt c) nt bs" and "i < length nt" and "nxt d = nt ! i" and "x \<noteq> NULL"
    and "distinct (as @ concat bs)" "x \<notin> set (as @ concat bs)"
  shows "list_all2 (chain nxt (c(x \<mapsto> d))) (nt[i := x]) (bs[i := x # bs ! i])"
    and "set (concat (bs[i := x # bs ! i])) = insert x (set (concat bs))"
    and "distinct (as @ concat (bs[i := x # bs ! i]))"
    and "\<And>j y. j < length bs \<Longrightarrow> y \<in> set (bs[i := x # bs ! i] ! j) \<Longrightarrow> y \<in> set (bs ! j) \<or> y = x \<and> j = i"
proof -
  show "list_all2 (chain nxt (c(x \<mapsto> d))) (nt[i := x]) (bs[i := x # bs ! i])"
    using assms by (intro chains_push) simp_all
  have i: "i < length bs" using assms(1,2) by (simp add: list_all2_lengthD)
  note m = mset_concat_update [OF i, of x]
  show "set (concat (bs[i := x # bs ! i])) = insert x (set (concat bs))"
    using arg_cong [OF m, of set_mset] by (simp only: set_mset_mset set_mset_add_mset_insert)
  have "mset (as @ concat (bs[i := x # bs ! i])) = mset (x # as @ concat bs)" using m by simp
  then show "distinct (as @ concat (bs[i := x # bs ! i]))"
    using assms(5,6) by (metis mset_eq_imp_distinct_iff distinct.simps(2))
  show "\<And>j y. j < length bs \<Longrightarrow> y \<in> set (bs[i := x # bs ! i] ! j) \<Longrightarrow> y \<in> set (bs ! j) \<or> y = x \<and> j = i"
    using i by (auto simp: nth_list_update split: if_splits)
qed

text \<open>The table after the new volume has been linked, before the counter changes.\<close>

lemma insert_primary:
  assumes inv: "cl_inv cl c os ps" and p: "c p = Some dv" "p \<noteq> NULL" "p \<notin> members os ps"
    and b: "b = bucket_ix (hash_size cl) (volume_id dv)"
    and low: "expanding cl \<Longrightarrow> bucket_ix (hash_size cl - 1) (volume_id dv) < expand_bucket cl"
  shows "cl_inv (cl\<lparr>primary_volumes := (primary_volumes cl)[b := p]\<rparr>)
      (c(p \<mapsto> set_dv_next (primary_volumes cl ! b) dv)) os (ps[b := p # ps ! b])"
    and "members os (ps[b := p # ps ! b]) = insert p (members os ps)" and "b < length (primary_volumes cl)"
proof -
  let ?c = "c(p \<mapsto> set_dv_next (primary_volumes cl ! b) dv)"
  have i: "hash_size cl < 63" "length (primary_volumes cl) = 2 ^ hash_size cl"
    "list_all2 (chain dv_next c) (primary_volumes cl) ps"
    "\<And>i x. i < length ps \<Longrightarrow> x \<in> set (ps ! i) \<Longrightarrow> bucket_ix (hash_size cl) (vid_at c x) = i"
    "distinct (concat os @ concat ps)"
    "\<And>x. expanding cl \<Longrightarrow> x \<in> set (concat ps) \<Longrightarrow> bucket_ix (hash_size cl - 1) (vid_at c x) < expand_bucket cl"
    "expanding cl \<Longrightarrow> list_all2 (chain dv_next c) (old_volumes cl) os"
    using inv by (auto simp: cl_inv_def)
  show bl: "b < length (primary_volumes cl)" using bucket_ix_less [of "hash_size cl" "volume_id dv"] i(1,2) b by simp
  have out: "p \<notin> set (concat os @ concat ps)" using p(3) by (auto simp: members_def)
  have nx: "dv_next (set_dv_next (primary_volumes cl ! b) dv) = primary_volumes cl ! b" by simp
  note pb = push_bucket [OF i(3) bl nx p(2) i(5) out]
  show "members os (ps[b := p # ps ! b]) = insert p (members os ps)" by (auto simp: members_def pb(2) simp del: set_concat)
  have v: "vid_at ?c x = vid_at c x" for x using p(1) by (simp add: vid_at_def)
  have "vid_at c p = volume_id dv" using p(1) by (simp add: vid_at_def)
  then have ix: "bucket_ix (hash_size cl) (vid_at ?c x) = j"
    if "j < length (ps[b := p # ps ! b])" "x \<in> set (ps[b := p # ps ! b] ! j)" for x j
    unfolding v using pb(4) [of j x] that i(4) [of j x] b by auto
  have lo: "bucket_ix (hash_size cl - 1) (vid_at ?c x) < expand_bucket cl"
    if "expanding cl" "x \<in> set (concat (ps[b := p # ps ! b]))" for x
    using that i(6) [of x] low \<open>vid_at c p = volume_id dv\<close> unfolding pb(2) v by auto
  have "list_all2 (chain dv_next ?c) (old_volumes cl) os" if "expanding cl"
    by (rule chains_cong [OF i(7) [OF that]]) (use out in auto)
  with inv pb(1,3) i ix lo show "cl_inv (cl\<lparr>primary_volumes := (primary_volumes cl)[b := p]\<rparr>) ?c os (ps[b := p # ps ! b])"
    by (cases "expanding cl") (simp_all add: cl_inv_def v del: set_concat)
qed

lemma insert_old:
  assumes inv: "cl_inv cl c os ps" and p: "c p = Some dv" "p \<noteq> NULL" "p \<notin> members os ps"
    and b: "b = bucket_ix (hash_size cl - 1) (volume_id dv)" "b \<ge> expand_bucket cl" and e: "expanding cl"
  shows "cl_inv (cl\<lparr>old_volumes := (old_volumes cl)[b := p]\<rparr>)
      (c(p \<mapsto> set_dv_next (old_volumes cl ! b) dv)) (os[b := p # os ! b]) ps"
    and "members (os[b := p # os ! b]) ps = insert p (members os ps)" and "b < length (old_volumes cl)"
proof -
  let ?c = "c(p \<mapsto> set_dv_next (old_volumes cl ! b) dv)"
  have i: "hash_size cl < 63" "length (old_volumes cl) = 2 ^ (hash_size cl - 1)"
    "list_all2 (chain dv_next c) (old_volumes cl) os"
    "\<And>i x. i < length os \<Longrightarrow> x \<in> set (os ! i) \<Longrightarrow> bucket_ix (hash_size cl - 1) (vid_at c x) = i"
    "distinct (concat ps @ concat os)" "list_all2 (chain dv_next c) (primary_volumes cl) ps"
    using inv e by (auto simp: cl_inv_def)
  show bl: "b < length (old_volumes cl)" using bucket_ix_less [of "hash_size cl - 1" "volume_id dv"] i(1,2) b by simp
  have out: "p \<notin> set (concat ps @ concat os)" using p(3) by (auto simp: members_def)
  have nx: "dv_next (set_dv_next (old_volumes cl ! b) dv) = old_volumes cl ! b" by simp
  note pb = push_bucket [OF i(3) bl nx p(2) i(5) out]
  show "members (os[b := p # os ! b]) ps = insert p (members os ps)" by (auto simp: members_def pb(2) simp del: set_concat)
  have v: "vid_at ?c x = vid_at c x" for x using p(1) by (simp add: vid_at_def)
  have "vid_at c p = volume_id dv" using p(1) by (simp add: vid_at_def)
  then have ix: "bucket_ix (hash_size cl - 1) (vid_at ?c x) = j"
    if "j < length (os[b := p # os ! b])" "x \<in> set (os[b := p # os ! b] ! j)" for x j
    unfolding v using pb(4) [of j x] that i(4) [of j x] b by auto
  have "list_all2 (chain dv_next ?c) (primary_volumes cl) ps"
    by (rule chains_cong [OF i(6)]) (use out in auto)
  moreover have "distinct (concat (os[b := p # os ! b]) @ concat ps)" using pb(3) by (auto simp: Int_commute simp del: set_concat)
  ultimately show "cl_inv (cl\<lparr>old_volumes := (old_volumes cl)[b := p]\<rparr>) ?c (os[b := p # os ! b]) ps"
    using inv pb(1) ix b(2) e by (simp add: cl_inv_def v del: set_concat distinct_append)
qed

text \<open>The invariant does not look at the counters.\<close>

lemma cl_inv_counters [simp]:
  "cl_inv (cl\<lparr>primary_volume_count := n\<rparr>) c os ps = cl_inv cl c os ps"
  "cl_inv (cl\<lparr>is_started_expanding := b\<rparr>) c os ps = cl_inv cl c os ps"
  "cl_inv (cluster_start_expand cl) c os ps = cl_inv cl c os ps"
  by (simp_all add: cl_inv_def cluster_start_expand_def)

text \<open>When the array is being expanded, the bucket of the new array is used as an index of the old one,
  which is half as long.\<close>

definition insert_out_of_range :: "datasevr_cluster \<Rightarrow> datasevr_volume \<Rightarrow> bool" where
  "insert_out_of_range cl dv \<longleftrightarrow>
     expanding cl \<and> bucket_ix (hash_size cl) (volume_id dv) \<ge> 2 ^ (hash_size cl - 1)"

lemma do_cluster_insert_out_of_range:
  assumes "cl_inv cl c os ps" and "c p = Some dv" and "insert_out_of_range cl dv"
  shows "do_cluster_insert p cl c = None"
  using assms by (auto simp: do_cluster_insert_def insert_out_of_range_def cl_inv_def arr_get_def Let_def)

lemma do_cluster_insert_spec:
  assumes inv: "cl_inv cl c os ps" and p: "c p = Some dv" "p \<noteq> NULL" "p \<notin> members os ps"
    and ok: "\<not> insert_out_of_range cl dv"
  shows "\<exists>cl' q os' ps'. do_cluster_insert p cl c = Some (LFS_OK, cl', c(p \<mapsto> set_dv_next q dv)) \<and>
    cl_inv cl' (c(p \<mapsto> set_dv_next q dv)) os' ps' \<and> members os' ps' = insert p (members os ps) \<and>
    hash_size cl' = hash_size cl \<and> expanding cl' = expanding cl \<and> cl_wlcsl cl' = cl_wlcsl cl"
proof (cases "expanding cl \<and> bucket_ix (hash_size cl) (volume_id dv) \<ge> expand_bucket cl")
  case True
  let ?b = "bucket_ix (hash_size cl) (volume_id dv)"
  have "Suc (hash_size cl - 1) = hash_size cl" "hash_size cl < 63" using inv True by (auto simp: cl_inv_def)
  then have b: "?b = bucket_ix (hash_size cl - 1) (volume_id dv)"
    using ok True bucket_ix_low [of "hash_size cl - 1" "volume_id dv"] by (simp add: insert_out_of_range_def)
  note i = insert_old [OF inv p b]
  have "do_cluster_insert p cl c = Some (LFS_OK, cl\<lparr>old_volumes := (old_volumes cl)[?b := p],
      primary_volume_count := primary_volume_count cl + 1\<rparr>, c(p \<mapsto> set_dv_next (old_volumes cl ! ?b) dv))"
    using True i(3) p(1) by (simp add: do_cluster_insert_def Let_def arr_get_def)
  then show ?thesis using i True
    by (intro exI [of _ "cl\<lparr>old_volumes := (old_volumes cl)[?b := p], primary_volume_count := primary_volume_count cl + 1\<rparr>"]
        exI [of _ "old_volumes cl ! ?b"] exI [of _ "os[?b := p # os ! ?b]"] exI [of _ ps]) simp
next
  case False
  let ?b = "bucket_ix (hash_size cl) (volume_id dv)"
  have low: "bucket_ix (hash_size cl - 1) (volume_id dv) < expand_bucket cl" if e: "expanding cl"
  proof -
    have "Suc (hash_size cl - 1) = hash_size cl" "hash_size cl < 63" "expand_bucket cl < 2 ^ (hash_size cl - 1)"
      using inv e by (auto simp: cl_inv_def)
    then show ?thesis using bucket_ix_low [of "hash_size cl - 1" "volume_id dv"] False e by simp
  qed
  note i = insert_primary [OF inv p refl low]
  let ?cl = "cl\<lparr>primary_volumes := (primary_volumes cl)[?b := p], primary_volume_count := primary_volume_count cl + 1\<rparr>"
  let ?full = "\<not> expanding cl \<and> (of_int (primary_volume_count cl + 1) :: u64) > hashsize (hash_size cl) div 2"
  have "do_cluster_insert p cl c = Some (LFS_OK, if ?full then cluster_start_expand ?cl else ?cl,
      c(p \<mapsto> set_dv_next (primary_volumes cl ! ?b) dv))"
    using False i(3) p(1) by (auto simp: do_cluster_insert_def Let_def arr_get_def)
  then show ?thesis using i
    by (intro exI [of _ "if ?full then cluster_start_expand ?cl else ?cl"]
        exI [of _ "primary_volumes cl ! ?b"] exI [of _ os] exI [of _ "ps[?b := p # ps ! ?b]"])
      (simp add: cluster_start_expand_def)
qed

subsection \<open>Expansion\<close>

lemma cluster_expand_spec:
  assumes inv: "cl_inv cl c os ps" and e: "\<not> expanding cl" and n: "hash_size cl < 62"
  shows "\<exists>os' ps'. cl_inv (cluster_expand ok cl) c os' ps' \<and> members os' ps' = members os ps"
proof (cases ok)
  case False
  then show ?thesis using inv e by (intro exI [of _ os] exI [of _ ps]) (simp add: cl_inv_def cluster_expand_def)
next
  case True
  let ?ps = "replicate (2 ^ (hash_size cl + 1)) ([] :: nat list)"
  have "list_all2 (chain dv_next c) (replicate (2 ^ (hash_size cl + 1)) NULL) ?ps"
    by (simp add: list_all2_conv_all_nth)
  moreover have "os = []" using inv e by (simp add: cl_inv_def)
  moreover have "concat ?ps = []" by simp
  ultimately have "cl_inv (cluster_expand ok cl) c ps ?ps" using inv e n True
    by (simp add: cl_inv_def cluster_expand_def hashsize_pow)
  then show ?thesis using \<open>os = []\<close> by (intro exI [of _ ps] exI [of _ ?ps]) (simp add: members_def)
qed

lemma mset_concat_clear: "i < length bs \<Longrightarrow> mset (concat bs) = mset (bs ! i) + mset (concat (bs[i := []]))"
proof (induction bs arbitrary: i)
  case (Cons b bs)
  then show ?case by (cases i) auto
qed simp

lemma unat_of_nat_small: "n < 2 ^ LENGTH('a) \<Longrightarrow> unat (of_nat n :: 'a::len word) = n"
  by (simp add: unsigned_of_nat take_bit_nat_eq_self)

lemma distinct_concat_nth_disjoint:
  "distinct (concat xss) \<Longrightarrow> i < length xss \<Longrightarrow> j < length xss \<Longrightarrow> i \<noteq> j \<Longrightarrow> x \<in> set (xss ! i) \<Longrightarrow> x \<notin> set (xss ! j)"
proof (induction xss arbitrary: i j)
  case (Cons xs xss)
  have no: "y \<notin> set xs" if "k < length xss" "y \<in> set (xss ! k)" for y k
  proof
    assume "y \<in> set xs"
    moreover have "y \<in> set (concat xss)" using that by (auto simp: concat_nth simp del: set_concat)
    ultimately show False using Cons.prems(1) by auto
  qed
  show ?case
  proof (cases i)
    case 0
    then show ?thesis using Cons.prems no by (cases j) auto
  next
    case (Suc i')
    then show ?thesis using Cons.prems no Cons.IH [of i'] by (cases j) auto
  qed
qed simp

text \<open>The chains after one bucket has been moved.\<close>

lemma expand_moves:
  assumes inv: "cl_inv cl c os ps" and e: "expanding cl"
  shows "\<exists>nt c'. relink dv_next set_dv_next (volume_bucket (hash_size cl)) (primary_volumes cl) c
        (primary_volume_count cl) (old_volumes cl ! expand_bucket cl)
      = Some (nt, c', primary_volume_count cl + int (length (os ! expand_bucket cl))) \<and>
    length nt = length (primary_volumes cl) \<and> (\<forall>x. map_option (set_dv_next 0) (c' x) = map_option (set_dv_next 0) (c x)) \<and>
    list_all2 (chain dv_next c') nt (fold (push_node (node_ix (volume_bucket (hash_size cl)) c)) (os ! expand_bucket cl) ps) \<and>
    list_all2 (chain dv_next c') ((old_volumes cl)[expand_bucket cl := NULL]) (os[expand_bucket cl := []])"
proof -
  let ?n = "hash_size cl" and ?eb = "expand_bucket cl"
  let ?xs = "os ! ?eb"
  have i: "?n < 63" "length (primary_volumes cl) = 2 ^ ?n" "list_all2 (chain dv_next c) (primary_volumes cl) ps"
    "distinct (concat os @ concat ps)" "list_all2 (chain dv_next c) (old_volumes cl) os" "?eb < length os"
    using inv e list_all2_lengthD [of "chain dv_next c" "old_volumes cl" os] by (auto simp: cl_inv_def)
  have len: "length (old_volumes cl) = length os" using i(5) by (rule list_all2_lengthD)
  have ch: "chain dv_next c (old_volumes cl ! ?eb) ?xs" by (rule list_all2_nthD [OF i(5)]) (simp add: len i(6))
  have "set ?xs \<subseteq> set (concat os)" using nth_mem [OF i(6)] by auto
  then have d: "distinct (?xs @ concat ps)" using chain_distinct [OF ch] i(4) by auto
  have ix: "volume_bucket ?n dv < length (primary_volumes cl)" for dv
    using bucket_ix_less [of ?n] i(1,2) by (simp add: volume_bucket_def)
  have ixs: "volume_bucket ?n (set_dv_next q dv) = volume_bucket ?n dv" for q dv by (simp add: volume_bucket_def)
  obtain nt c' where r: "relink dv_next set_dv_next (volume_bucket ?n) (primary_volumes cl) c (primary_volume_count cl)
        (old_volumes cl ! ?eb) = Some (nt, c', primary_volume_count cl + int (length ?xs))"
    and l: "list_all2 (chain dv_next c') nt (fold (push_node (node_ix (volume_bucket ?n) c)) ?xs ps)"
    and k: "length nt = length (primary_volumes cl)" "\<And>x. x \<notin> set ?xs \<Longrightarrow> c' x = c x"
      "\<And>x. x \<in> set ?xs \<Longrightarrow> \<exists>dv q. c x = Some dv \<and> c' x = Some (set_dv_next q dv)"
    using dv.relink_spec [OF ch i(3) d ix ixs, of "primary_volume_count cl"] by blast
  have same: "map_option (set_dv_next 0) (c' x) = map_option (set_dv_next 0) (c x)" for x
    using k(2,3) [of x] by (cases "x \<in> set ?xs") (auto simp: set_dv_next_def)
  have "list_all2 (chain dv_next c') ((old_volumes cl)[?eb := NULL]) (os[?eb := []])"
  proof (rule list_all2_all_nthI)
    show "length ((old_volumes cl)[?eb := NULL]) = length (os[?eb := []])" by (simp add: len)
    fix j assume "j < length ((old_volumes cl)[?eb := NULL])"
    then have j: "j < length os" by (simp add: len)
    show "chain dv_next c' ((old_volumes cl)[?eb := NULL] ! j) (os[?eb := []] ! j)"
    proof (cases "j = ?eb")
      case False
      have "x \<notin> set ?xs" if "x \<in> set (os ! j)" for x
        using that i(4,6) j False distinct_concat_nth_disjoint by (metis distinct_append)
      then have "chain dv_next c' (old_volumes cl ! j) (os ! j) = chain dv_next c (old_volumes cl ! j) (os ! j)"
        by (intro chain_cong k(2))
      moreover have "chain dv_next c (old_volumes cl ! j) (os ! j)" using j by (intro list_all2_nthD [OF i(5)]) (simp add: len)
      ultimately show ?thesis using False by simp
    qed (use j len in simp)
  qed
  with r l k(1) same show ?thesis by blast
qed

text \<open>What a step does besides moving volumes.\<close>

definition same_volumes :: "volumes \<Rightarrow> volumes \<Rightarrow> bool" where
  "same_volumes c c' \<longleftrightarrow> (\<forall>x. map_option (set_dv_next 0) (c' x) = map_option (set_dv_next 0) (c x))"

lemma same_volumes_vid: "same_volumes c c' \<Longrightarrow> vid_at c' x = vid_at c x"
proof -
  assume "same_volumes c c'"
  then have "map_option (set_dv_next 0) (c' x) = map_option (set_dv_next 0) (c x)" by (simp add: same_volumes_def)
  then show ?thesis
    by (cases "c x"; cases "c' x") (auto simp: vid_at_def dest: arg_cong [of _ _ volume_id])
qed

lemma same_volumes_refl [simp]: "same_volumes c c"
  by (simp add: same_volumes_def)

lemma expand_step_spec:
  assumes inv: "cl_inv cl c os ps" and e: "expanding cl"
  shows "\<exists>cl' c' os' ps'. expand_step cl c = Some (cl', c') \<and> cl_inv cl' c' os' ps' \<and>
    members os' ps' = members os ps \<and> same_volumes c c' \<and> hash_size cl' = hash_size cl \<and>
    expand_bucket cl' = expand_bucket cl + 1 \<and> (expanding cl' \<longleftrightarrow> expand_bucket cl + 1 < 2 ^ (hash_size cl - 1))"
proof -
  let ?n = "hash_size cl" and ?eb = "expand_bucket cl"
  let ?xs = "os ! ?eb" and ?ix = "node_ix (volume_bucket ?n) c"
  let ?os = "os[?eb := []]" and ?ps = "fold (push_node ?ix) ?xs ps"
  define k where "k = ?n - 1"
  have kk: "?n - Suc 0 = k" "hashsize k = 2 ^ k" by (simp_all add: k_def hashsize_def push_bit_eq_mult)
  have i: "?n < 63" "0 < ?n" "length (primary_volumes cl) = 2 ^ ?n" "length ps = 2 ^ ?n"
    "\<And>i x. i < length ps \<Longrightarrow> x \<in> set (ps ! i) \<Longrightarrow> bucket_ix ?n (vid_at c x) = i"
    "distinct (concat os @ concat ps)" "length (old_volumes cl) = 2 ^ k" "length os = 2 ^ k" "?eb < 2 ^ k"
    "\<And>i x. i < length os \<Longrightarrow> x \<in> set (os ! i) \<Longrightarrow> bucket_ix k (vid_at c x) = i"
    "\<And>i. i < ?eb \<Longrightarrow> os ! i = []"
    "\<And>x. x \<in> set (concat ps) \<Longrightarrow> bucket_ix k (vid_at c x) < ?eb"
    using inv e list_all2_lengthD [of "chain dv_next c" "old_volumes cl" os]
      list_all2_lengthD [of "chain dv_next c" "primary_volumes cl" ps] by (auto simp: cl_inv_def k_def)
  obtain nt c' where r: "relink dv_next set_dv_next (volume_bucket ?n) (primary_volumes cl) c (primary_volume_count cl)
        (old_volumes cl ! ?eb) = Some (nt, c', primary_volume_count cl + int (length ?xs))"
    and l: "length nt = length (primary_volumes cl)" "list_all2 (chain dv_next c') nt ?ps"
      "list_all2 (chain dv_next c') ((old_volumes cl)[?eb := NULL]) ?os"
    and same: "same_volumes c c'"
    using expand_moves [OF inv e] unfolding same_volumes_def by blast
  have ixv: "?ix x = bucket_ix ?n (vid_at c x)" for x by (simp add: node_ix_def volume_bucket_def vid_at_def)
  have lt: "?ix x < length ps" for x using bucket_ix_less [of ?n] i(1,4) by (simp add: ixv)
  have m: "mset (concat ?ps) = mset ?xs + mset (concat ps)" by (rule mset_concat_fold_push) (simp add: lt)
  have mo: "mset (concat os) = mset ?xs + mset (concat ?os)" by (rule mset_concat_clear) (simp add: i(8,9))
  have mm: "mset (concat ?os @ concat ?ps) = mset (concat os @ concat ps)" by (simp add: m mo)
  then have dist: "distinct (concat ?os @ concat ?ps)" using i(6) by (metis mset_eq_imp_distinct_iff)
  have mem: "members ?os ?ps = members os ps" using arg_cong [OF mm, of set_mset] by (simp add: members_def del: set_concat)
  have sps: "set (concat ?ps) = set ?xs \<union> set (concat ps)" using arg_cong [OF m, of set_mset] by (simp del: set_concat)
  have pix: "bucket_ix ?n (vid_at c x) = j" if "j < length ?ps" "x \<in> set (?ps ! j)" for x j
    using fold_push_index [of ps ?ix j x ?xs] that i(5) by (simp add: ixv)
  have oix: "bucket_ix k (vid_at c x) = j" if "j < length ?os" "x \<in> set (?os ! j)" for x j
    using that i(10) [of j x] by (cases "j = ?eb") (auto simp: i(8,9))
  have low: "bucket_ix k (vid_at c x) < ?eb + 1" if "x \<in> set (concat ?ps)" for x
    using that i(10) [of ?eb x] i(12) [of x] i(8,9) unfolding sps
    by (auto simp: less_Suc_eq simp del: set_concat)
  have emp: "?os ! j = []" if "j < ?eb + 1" for j using that i(8,9) i(11) [of j] by (cases "j = ?eb") auto
  let ?cl = "cl\<lparr>primary_volumes := nt, primary_volume_count := primary_volume_count cl + int (length ?xs),
      old_volumes := (old_volumes cl)[?eb := NULL], expand_bucket := ?eb + 1\<rparr>"
  have eq: "(of_nat (?eb + 1) = hashsize k) \<longleftrightarrow> ?eb + 1 = 2 ^ k"
  proof -
    have "unat (hashsize k) = 2 ^ k" using i(1) kk(1) by (simp add: hashsize_pow)
    moreover have "(2::nat) ^ k < 2 ^ 64" using i(1) kk by (intro power_strict_increasing) auto
    then have "unat (of_nat (?eb + 1) :: u64) = ?eb + 1" using i(9) by (intro unat_of_nat_small) simp
    ultimately show ?thesis by (metis unsigned_word_eqI)
  qed
  show ?thesis
  proof (cases "?eb + 1 = 2 ^ k")
    case True
    have "concat ?os = []" using emp i(8) True by (auto simp: concat_eq_Nil_conv in_set_conv_nth)
    then have "members [] ?ps = members os ps" using mem unfolding members_def by (simp only: concat.simps)
    moreover have "cl_inv (?cl\<lparr>expanding := False, old_volumes := [], old_volume_count := 0\<rparr>) c' [] ?ps"
      using i(1,3,4) l pix dist by (simp add: cl_inv_def kk same_volumes_vid [OF same] del: set_concat)
    moreover have "expand_step cl c = Some (?cl\<lparr>expanding := False, old_volumes := [], old_volume_count := 0\<rparr>, c')"
      using r eq True i(7,9) by (simp add: expand_step_def arr_get_def Let_def kk)
    ultimately show ?thesis using same True kk by fastforce
  next
    case False
    then have "?eb + 1 < 2 ^ k" using i(9) by simp
    then have "cl_inv ?cl c' ?os ?ps"
      using i l pix oix low emp dist e by (simp add: cl_inv_def kk same_volumes_vid [OF same] del: set_concat distinct_append)
    moreover have "expand_step cl c = Some (?cl, c')"
      using r eq False i(7,9) by (simp add: expand_step_def arr_get_def Let_def kk)
    ultimately show ?thesis using same mem e kk \<open>?eb + 1 < 2 ^ k\<close> by fastforce
  qed
qed

subsection \<open>Interleaved runs\<close>

text \<open>\<open>cl_run s is s'\<close>: from \<open>s\<close> the table reaches \<open>s'\<close> by inserting the new volumes \<open>is\<close> (addresses and
  identifiers, in order), interleaved in any way with steps of the maintenance thread, which may fail
  to get a lock or to allocate an array.\<close>

inductive cl_run ::
  "datasevr_cluster \<times> volumes \<Rightarrow> (nat \<times> u32) list \<Rightarrow> datasevr_cluster \<times> volumes \<Rightarrow> bool" where
  start: "cl_run s [] s"
| insertion: "cl_run s is (cl, c) \<Longrightarrow> p \<noteq> NULL \<Longrightarrow> c p = None \<Longrightarrow>
    do_cluster_insert p cl (c(p \<mapsto> dv)) = Some (ret, cl', c') \<Longrightarrow>
    cl_run s (is @ [(p, volume_id dv)]) (cl', c')"
| maintenance: "cl_run s is (cl, c) \<Longrightarrow> hash_size cl < 62 \<Longrightarrow>
    maintenance_step locked ok cl c = Some (cl', c') \<Longrightarrow> cl_run s is (cl', c')"

text \<open>The loop of the maintenance thread over one expansion, when it gets every lock.\<close>

partial_function (option) expand_loop ::
  "datasevr_cluster \<Rightarrow> volumes \<Rightarrow> (datasevr_cluster \<times> volumes) option" where
  [code]: "expand_loop cl c =
     (if expanding cl then do { (cl', c') \<leftarrow> expand_step cl c; expand_loop cl' c' } else Some (cl, c))"

text \<open>The table holds exactly the volumes of the list.\<close>

definition cl_holds :: "(nat \<times> u32) list \<Rightarrow> datasevr_cluster \<times> volumes \<Rightarrow> bool" where
  "cl_holds is s \<longleftrightarrow> (\<exists>os ps. cl_inv (fst s) (snd s) os ps \<and> members os ps = fst ` set is \<and>
     (\<forall>x v. (x, v) \<in> set is \<longrightarrow> vid_at (snd s) x = v))"

lemma members_alloc: "cl_inv cl c os ps \<Longrightarrow> x \<in> members os ps \<Longrightarrow> c x \<noteq> None"
proof -
  assume inv: "cl_inv cl c os ps" and x: "x \<in> members os ps"
  have ch: "c x \<noteq> None" if a: "list_all2 (chain dv_next c) qs xss" and b: "x \<in> set (concat xss)" for qs xss
  proof -
    obtain i where i: "i < length xss" "x \<in> set (xss ! i)" using b unfolding concat_nth by blast
    then have "chain dv_next c (qs ! i) (xss ! i)"
      by (intro list_all2_nthD [OF a]) (simp add: list_all2_lengthD [OF a])
    from chain_in_dom [OF this i(2)] show ?thesis by auto
  qed
  show "c x \<noteq> None"
    using x ch [of "primary_volumes cl" ps] ch [of "old_volumes cl" os] inv
    by (cases "expanding cl") (auto simp: members_def cl_inv_def simp del: set_concat)
qed

lemma vid_at_upd: "vid_at (c(p \<mapsto> dv)) x = (if x = p then volume_id dv else vid_at c x)"
  by (simp add: vid_at_def)

lemma cl_inv_fresh:
  assumes inv: "cl_inv cl c os ps" and p: "p \<notin> members os ps"
  shows "cl_inv cl (c(p \<mapsto> dv)) os ps"
proof -
  let ?c = "c(p \<mapsto> dv)"
  have ps: "p \<notin> set (concat os)" "p \<notin> set (concat ps)" using p by (auto simp: members_def)
  have ch: "list_all2 (chain dv_next ?c) qs xss" if "list_all2 (chain dv_next c) qs xss" "p \<notin> set (concat xss)" for qs xss
    by (rule chains_cong [OF that(1)]) (use that(2) in auto)
  have v: "vid_at ?c x = vid_at c x" if "x \<in> members os ps" for x using that p by (auto simp: vid_at_upd)
  have "x \<in> members os ps" if "i < length os" "x \<in> set (os ! i)" for x i
    unfolding members_def Un_iff concat_nth using that by blast
  moreover have "x \<in> members os ps" if "i < length ps" "x \<in> set (ps ! i)" for x i
    unfolding members_def Un_iff concat_nth using that by blast
  moreover have "x \<in> members os ps" if "x \<in> set (concat ps)" for x using that by (simp add: members_def)
  ultimately show ?thesis using inv ch ps v
    by (cases "expanding cl") (simp_all add: cl_inv_def del: set_concat)
qed

lemma cl_holds_insert:
  assumes h: "cl_holds is (cl, c)" and p: "p \<noteq> NULL" "c p = None"
    and i: "do_cluster_insert p cl (c(p \<mapsto> dv)) = Some (ret, cl', c')"
  shows "cl_holds (is @ [(p, volume_id dv)]) (cl', c')"
proof -
  obtain os ps where inv: "cl_inv cl c os ps" and m: "members os ps = fst ` set is"
    and v: "\<And>x w. (x, w) \<in> set is \<Longrightarrow> vid_at c x = w" using h unfolding cl_holds_def by auto
  have np: "p \<notin> members os ps" using members_alloc [OF inv] p(2) by blast
  note inv' = cl_inv_fresh [OF inv np, of dv]
  have dv: "(c(p \<mapsto> dv)) p = Some dv" by simp
  have "\<not> insert_out_of_range cl dv" using do_cluster_insert_out_of_range [OF inv', of p dv] i by auto
  from do_cluster_insert_spec [OF inv', of p dv, OF dv p(1) np this] i obtain q os' ps' where
    c': "c' = c(p \<mapsto> set_dv_next q dv)" and n: "cl_inv cl' c' os' ps'" "members os' ps' = insert p (members os ps)"
    by auto
  have "vid_at c' x = w" if "(x, w) \<in> set (is @ [(p, volume_id dv)])" for x w
  proof (cases "x = p")
    case True
    then have "(x, w) \<notin> set is" using np m by force
    then show ?thesis using that True by (simp add: c' vid_at_upd)
  qed (use that v in \<open>auto simp: c' vid_at_upd\<close>)
  then show ?thesis using n m unfolding cl_holds_def by auto
qed

lemma cl_holds_maintenance:
  assumes h: "cl_holds is (cl, c)" and n: "hash_size cl < 62"
    and s: "maintenance_step locked ok cl c = Some (cl', c')"
  shows "cl_holds is (cl', c')"
proof -
  obtain os ps where inv: "cl_inv cl c os ps" and m: "members os ps = fst ` set is"
    and v: "\<And>x w. (x, w) \<in> set is \<Longrightarrow> vid_at c x = w" using h unfolding cl_holds_def by auto
  show ?thesis
  proof (cases "expanding cl \<and> locked")
    case True
    then obtain os' ps' where "cl_inv cl' c' os' ps'" "members os' ps' = members os ps" "same_volumes c c'"
      using expand_step_spec [OF inv] s by (auto simp: maintenance_step_def)
    then show ?thesis using m v unfolding cl_holds_def by (auto simp: same_volumes_vid)
  next
    case False
    show ?thesis
    proof (cases "expanding cl")
      case True
      then show ?thesis using False s h by (simp add: maintenance_step_def)
    next
      case e: False
      then have s': "cl' = cluster_expand ok (cl\<lparr>is_started_expanding := False\<rparr>)" "c' = c"
        using s by (simp_all add: maintenance_step_def)
      have "cl_inv (cl\<lparr>is_started_expanding := False\<rparr>) c os ps" "\<not> expanding (cl\<lparr>is_started_expanding := False\<rparr>)"
        "hash_size (cl\<lparr>is_started_expanding := False\<rparr>) < 62" using inv e n by simp_all
      from cluster_expand_spec [OF this] obtain os' ps' where "cl_inv cl' c os' ps'" "members os' ps' = members os ps"
        unfolding s' by blast
      then show ?thesis using m v s'(2) unfolding cl_holds_def by auto
    qed
  qed
qed

lemma cl_run_holds:
  assumes "cl_run s is s'" and "cl_holds [] s"
  shows "cl_holds is s'"
  using assms
proof (induction rule: cl_run.induct)
  case (insertion s "is" cl c p dv ret cl' c')
  then show ?case using cl_holds_insert by simp
next
  case (maintenance s "is" cl c locked ok cl' c')
  then show ?case using cl_holds_maintenance by simp
qed simp

lemma cluster_table_init_holds:
  assumes "cluster_table_init n True h = Some (ret, cl, h')" and "n < 63"
  shows "cl_holds [] (cl, Map.empty)"
proof -
  let ?n = "if n \<noteq> 0 then n else DEFAULT_CLUSTER_HASH_POWER"
  have n: "?n < 63" using assms(2) by (simp add: DEFAULT_CLUSTER_HASH_POWER_def)
  have "hash_size cl = ?n" "primary_volumes cl = replicate (unat (hashsize ?n)) NULL" "\<not> expanding cl"
    using assms(1) by (auto simp: cluster_table_init_def Let_def bind_eq_Some_conv)
  then have "cl_inv cl Map.empty [] (replicate (2 ^ hash_size cl) [])"
    using n by (simp add: cl_inv_def hashsize_pow list_all2_conv_all_nth)
  then show ?thesis unfolding cl_holds_def
    by (intro exI [of _ "[]"] exI [of _ "replicate (2 ^ hash_size cl) []"]) (simp add: members_def)
qed

lemma expand_loop_ends:
  assumes "cl_inv cl c os ps"
  shows "\<exists>cl' c' os' ps'. expand_loop cl c = Some (cl', c') \<and> \<not> expanding cl' \<and> cl_inv cl' c' os' ps' \<and>
    members os' ps' = members os ps \<and> same_volumes c c'"
  using assms
proof (induction "2 ^ (hash_size cl - 1) - expand_bucket cl" arbitrary: cl c os ps rule: less_induct)
  case less
  show ?case
  proof (cases "expanding cl")
    case False
    then show ?thesis using less.prems by (auto simp: expand_loop.simps [of cl])
  next
    case True
    obtain cl1 c1 os1 ps1 where s: "expand_step cl c = Some (cl1, c1)" "cl_inv cl1 c1 os1 ps1"
      "members os1 ps1 = members os ps" "same_volumes c c1" "hash_size cl1 = hash_size cl"
      "expand_bucket cl1 = expand_bucket cl + 1"
      using expand_step_spec [OF less.prems True] by blast
    have "expand_bucket cl < 2 ^ (hash_size cl - 1)" using less.prems True by (simp add: cl_inv_def)
    then have "2 ^ (hash_size cl1 - 1) - expand_bucket cl1 < 2 ^ (hash_size cl - 1) - expand_bucket cl"
      using s(5,6) by simp
    from less.hyps [OF this s(2)] obtain cl' c' os' ps' where
      "expand_loop cl1 c1 = Some (cl', c')" "\<not> expanding cl'" "cl_inv cl' c' os' ps'"
      "members os' ps' = members os1 ps1" "same_volumes c1 c'" by blast
    then show ?thesis using s True by (auto simp: expand_loop.simps [of cl] same_volumes_def)
  qed
qed

subsection \<open>Properties\<close>



text \<open>A table in the middle of its first expansion.\<close>

lemma demo_expanding: "\<exists>cl os ps. cl_inv cl Map.empty os ps \<and> members os ps = {} \<and> expanding cl \<and> hash_size cl = 3"
proof -
  let ?h = "heap_init (\<lambda>_. False) :: wlc_skiplist_node heap"
  obtain cl0 h where i: "cluster_table_init 0 True ?h = Some (LFS_OK, cl0, h)"
    by (auto simp: cluster_table_init_def wlcsl_create_def wlcsl_node_new_def reserve_def malloc_def heap_init_def Let_def)
  then obtain os ps where inv: "cl_inv cl0 Map.empty os ps" "members os ps = {}"
    using cluster_table_init_holds [of 0 ?h LFS_OK cl0 h] by (auto simp: cl_holds_def)
  have c: "\<not> expanding cl0" "hash_size cl0 = 2"
    using i by (auto simp: cluster_table_init_def Let_def bind_eq_Some_conv DEFAULT_CLUSTER_HASH_POWER_def)
  from cluster_expand_spec [OF inv(1) c(1), of True] c(2) obtain os' ps' where
    "cl_inv (cluster_expand True cl0) Map.empty os' ps'" "members os' ps' = members os ps" by auto
  moreover have "expanding (cluster_expand True cl0)" "hash_size (cluster_expand True cl0) = 3"
    using c(2) by (simp_all add: cluster_expand_def)
  ultimately show ?thesis using inv(2) by blast
qed

text \<open>C2: The loop of the maintenance thread over an expansion ends, and afterwards the table holds the
  same volumes, all of them in the new array, so that every search gives the same answer.\<close>

theorem expansion_completes:
  assumes "cl_inv cl c os ps"
  shows "\<exists>cl' c'. expand_loop cl c = Some (cl', c') \<and> \<not> expanding cl' \<and>
    (\<exists>ps'. cl_inv cl' c' [] ps' \<and> set (concat ps') = members os ps) \<and> (\<forall>x. vid_at c' x = vid_at c x)"
proof -
  obtain cl' c' os' ps' where e: "expand_loop cl c = Some (cl', c')" "\<not> expanding cl'" "cl_inv cl' c' os' ps'"
    "members os' ps' = members os ps" "same_volumes c c'" using expand_loop_ends [OF assms] by blast
  moreover have "os' = []" using e(2,3) by (simp add: cl_inv_def)
  ultimately show ?thesis by (auto simp: members_def same_volumes_vid simp del: set_concat)
qed

theorem expansion_completes_witness:
  "\<exists>cl cl' c'. expanding cl \<and> expand_loop cl Map.empty = Some (cl', c') \<and> \<not> expanding cl'"
proof -
  obtain cl os ps where "cl_inv cl Map.empty os ps" "expanding cl" using demo_expanding by blast
  then show ?thesis using expansion_completes [of cl Map.empty os ps] by blast
qed

text \<open>C36: Inserting a new volume is undefined exactly when an expansion is under way and the bucket of the
  volume lies in the upper half of the new array: the bucket is computed with the mask of the new
  array and used as an index of the old one, which is half as long.\<close>

theorem insert_undefined_iff:
  assumes "cl_inv cl c os ps" and "c p = Some dv" "p \<noteq> NULL" "p \<notin> members os ps"
  shows "do_cluster_insert p cl c = None \<longleftrightarrow>
    expanding cl \<and> bucket_ix (hash_size cl) (volume_id dv) \<ge> 2 ^ (hash_size cl - 1)"
proof (cases "insert_out_of_range cl dv")
  case True
  then show ?thesis using do_cluster_insert_out_of_range [OF assms(1,2)] by (simp add: insert_out_of_range_def)
next
  case False
  then obtain cl' q where "do_cluster_insert p cl c = Some (LFS_OK, cl', c(p \<mapsto> set_dv_next q dv))"
    using do_cluster_insert_spec [OF assms False] by blast
  then show ?thesis using False by (simp add: insert_out_of_range_def)
qed

theorem insert_undefined_iff_witness:
  "\<exists>cl. expanding cl \<and> do_cluster_insert 1 cl [1 \<mapsto> empty_volume\<lparr>volume_id := 4\<rparr>] = None \<and>
     do_cluster_insert 1 cl [1 \<mapsto> empty_volume\<lparr>volume_id := 3\<rparr>] \<noteq> None"
proof -
  obtain cl os ps where d: "cl_inv cl Map.empty os ps" "members os ps = {}" "expanding cl" "hash_size cl = 3"
    using demo_expanding by blast
  have i: "cl_inv cl [1 \<mapsto> dv] os ps" for dv using d by (intro cl_inv_fresh) simp_all
  have "bucket_ix 3 4 = 4" "bucket_ix 3 3 = 3" by (simp_all add: bucket_ix_mod)
  then show ?thesis
    using insert_undefined_iff [OF i [of "empty_volume\<lparr>volume_id := 4\<rparr>"], of 1 "empty_volume\<lparr>volume_id := 4\<rparr>"]
      insert_undefined_iff [OF i [of "empty_volume\<lparr>volume_id := 3\<rparr>"], of 1 "empty_volume\<lparr>volume_id := 3\<rparr>"] d
    by (intro exI [of _ cl]) simp
qed

end
