(* ===== verification/Ts_Cluster_Datasevr.thy ===== *)
theory Ts_Cluster_Datasevr
  imports Ts_Cluster
begin

text \<open>
  The operations on data servers that the service of the tracker calls
  (\<open>src/trackerserver/ts_cluster_datasevr.c\<close>): they search the table of volumes and the arrays of
  blocks of the volumes. The lemmas compose the invariants of the table and of the volumes: inserting
  a data server keeps both, and the servers that the tracker names for reading and writing are
  servers of the wanted volume.
\<close>

text \<open>The state of the tracker: the table and the stores that it points into.\<close>

record tracker_db =
  db_cluster :: datasevr_cluster
  db_vols :: "datasevr_volume heap"
  db_blks :: "datasevr_block heap"
  db_nodes :: "wlc_skiplist_node heap"

subsection \<open>Operations\<close>

text \<open>The second half of \<open>__do_insert\<close>: the first block of a volume becomes its master.\<close>

definition append_block :: "nat \<Rightarrow> nat \<Rightarrow> datasevr_block \<Rightarrow> tracker_db \<Rightarrow> (int \<times> tracker_db) option" where
  "append_block dv dblk b t =
     do {
       v \<leftarrow> cells (db_vols t) dv;
       let first = (block_count v = 0 \<or> master_block_index v = -1);
       let v = (if first then v\<lparr>master_block_index := 0\<rparr> else v);
       let t = (if first then t\<lparr>db_blks := store dblk (b\<lparr>blk_type := Ty_master_server\<rparr>) (db_blks t)\<rparr> else t);
       let (ok, vh) = (if block_count v \<ge> allocs_size v then reserve (db_vols t) else (True, db_vols t));
       let (ret, v) = do_block_insert ok v dblk;
       Some (if ret \<noteq> 0 then ret else LFS_OK, t\<lparr>db_vols := store dv v vh\<rparr>)
     }"

definition do_insert :: "nat \<Rightarrow> nat \<Rightarrow> tracker_db \<Rightarrow> (int \<times> tracker_db) option" where
  "do_insert dv dblk t =
     do {
       b \<leftarrow> cells (db_blks t) dblk;
       (dv, t) \<leftarrow>
         (if dv = NULL then
            let (p, vh) = volume_new (db_vols t) in
            if p = NULL then Some (NULL, t\<lparr>db_vols := vh\<rparr>)
            else do {
              v \<leftarrow> cells vh p;
              (_, cl, c) \<leftarrow> do_cluster_insert p (db_cluster t) ((cells vh)(p \<mapsto> v\<lparr>volume_id := parent_volume_id b\<rparr>));
              Some (p, t\<lparr>db_cluster := cl, db_vols := vh\<lparr>cells := c\<rparr>\<rparr>)
            }
          else Some (dv, t));
       if dv = NULL then Some (LFS_ERROR, t) else append_block dv dblk b t
     }"

definition cluster_datasevrblock_insert :: "nat \<Rightarrow> tracker_db \<Rightarrow> (int \<times> tracker_db) option" where
  "cluster_datasevrblock_insert dblk t =
     do {
       b \<leftarrow> cells (db_blks t) dblk;
       dv \<leftarrow> do_cluster_find (db_cluster t) (cells (db_vols t)) (parent_volume_id b);
       (_, t) \<leftarrow> do_insert dv dblk t;
       Some (LFS_OK, t)
     }"

text \<open>\<open>hash_func\<close> is the hash function chosen at start-up (a function pointer).\<close>

definition cluster_datasevrvolume_find :: "(cstr \<Rightarrow> u32) \<Rightarrow> cstr \<Rightarrow> tracker_db \<Rightarrow> nat option" where
  "cluster_datasevrvolume_find hash_func vn t = do_cluster_find (db_cluster t) (cells (db_vols t)) (hash_func vn)"

text \<open>The access \<open>dv->blocks[i]\<close> with an \<open>int\<close> index; \<open>None\<close> outside of the array.\<close>

definition block_at :: "datasevr_volume \<Rightarrow> int \<Rightarrow> nat option" where
  "block_at v i = (if 0 \<le> i \<and> nat i < length (dv_blocks v) then Some (dv_blocks v ! nat i) else None)"

definition cluster_datasevrmasterblock_get :: "(cstr \<Rightarrow> u32) \<Rightarrow> cstr \<Rightarrow> tracker_db \<Rightarrow> nat option" where
  "cluster_datasevrmasterblock_get hash_func vn t =
     do {
       dv \<leftarrow> do_cluster_find (db_cluster t) (cells (db_vols t)) (hash_func vn);
       if dv = NULL then Some NULL
       else do {
         v \<leftarrow> cells (db_vols t) dv;
         if master_block_index v \<ge> 0 then do {
           p \<leftarrow> block_at v (master_block_index v);
           b \<leftarrow> cells (db_blks t) p;
           Some p
         }
         else Some NULL
       }
     }"

definition cluster_wlc_writedatasevrblock_get ::
  "(nat \<Rightarrow> int) \<Rightarrow> int \<Rightarrow> tracker_db \<Rightarrow> (nat \<times> tracker_db) option" where
  "cluster_wlc_writedatasevrblock_get now interval t =
     do {
       (p, b, wsl, h) \<leftarrow>
         cluster_wlc_write_block_get now interval (cells (db_blks t)) (cl_wlcsl (db_cluster t)) (db_nodes t);
       Some (p, t\<lparr>db_blks := (db_blks t)\<lparr>cells := b\<rparr>, db_cluster := (db_cluster t)\<lparr>cl_wlcsl := wsl\<rparr>, db_nodes := h\<rparr>)
     }"

text \<open>The loop over the blocks; \<open>now i\<close> is the time read in round \<open>i\<close>. The result is the index of the
  chosen block.\<close>

primrec read_block_loop ::
  "(nat \<rightharpoonup> datasevr_block) \<Rightarrow> (nat \<Rightarrow> int) \<Rightarrow> int \<Rightarrow> int \<Rightarrow> datasevr_volume \<Rightarrow> nat \<Rightarrow> nat list \<Rightarrow> nat option option" where
  "read_block_loop c now interval sequence v i [] = Some None"
| "read_block_loop c now interval sequence v i (p # ps) =
     (if int i = master_block_index v \<or> int i = last_read_block_index v
      then read_block_loop c now interval sequence v (Suc i) ps
      else if p = NULL then read_block_loop c now interval sequence v (Suc i) ps
      else do {
        b \<leftarrow> c p;
        if now i - last_heartbeat_time b \<le> interval \<and> last_sync_sequence b \<ge> sequence then Some (Some i)
        else read_block_loop c now interval sequence v (Suc i) ps
      })"

definition cluster_readdatasevrblock_get ::
  "(cstr \<Rightarrow> u32) \<Rightarrow> (nat \<Rightarrow> int) \<Rightarrow> int \<Rightarrow> cstr \<Rightarrow> int \<Rightarrow> tracker_db \<Rightarrow> (nat \<times> tracker_db) option" where
  "cluster_readdatasevrblock_get hash_func now interval vn sequence t =
     do {
       dv \<leftarrow> do_cluster_find (db_cluster t) (cells (db_vols t)) (hash_func vn);
       if dv = NULL then Some (NULL, t)
       else do {
         v \<leftarrow> cells (db_vols t) dv;
         if dv_blocks v = [] then Some (NULL, t)
         else do {
           r \<leftarrow> read_block_loop (cells (db_blks t)) now interval sequence v 0 (take (block_count v) (dv_blocks v));
           case r of
             Some i \<Rightarrow> do {
               p \<leftarrow> block_at v (int i);
               Some (p, t\<lparr>db_vols := store dv (v\<lparr>last_read_block_index := int i\<rparr>) (db_vols t)\<rparr>)
             }
           | None \<Rightarrow> do {
               p \<leftarrow> block_at v (master_block_index v);
               Some (p, t)
             }
         }
       }
     }"

definition cluster_datasevrblock_byid_find :: "u32 \<Rightarrow> u32 \<Rightarrow> tracker_db \<Rightarrow> nat option" where
  "cluster_datasevrblock_byid_find vid bid t =
     do {
       dv \<leftarrow> do_cluster_find (db_cluster t) (cells (db_vols t)) vid;
       v \<leftarrow> (if dv = NULL then Some None else do { v \<leftarrow> cells (db_vols t) dv; Some (Some v) });
       do_block_find (db_blks t) v bid
     }"

definition cluster_datasevrblock_find :: "(cstr \<Rightarrow> u32) \<Rightarrow> cstr \<Rightarrow> cstr \<Rightarrow> tracker_db \<Rightarrow> nat option" where
  "cluster_datasevrblock_find hash_func vn bip t =
     do {
       let vid = hash_func vn;
       let bid = hash_func bip;
       dv \<leftarrow> do_cluster_find (db_cluster t) (cells (db_vols t)) vid;
       v \<leftarrow> (if dv = NULL then Some None else do { v \<leftarrow> cells (db_vols t) dv; Some (Some v) });
       do_block_find (db_blks t) v bid
     }"

subsection \<open>The invariant of the database\<close>

definition vol_live :: "(nat \<rightharpoonup> datasevr_block) \<Rightarrow> datasevr_volume \<Rightarrow> bool" where
  "vol_live c v \<longleftrightarrow> vol_ok c v \<and> 0 \<le> master_block_index v \<and> 1 \<le> block_count v"

definition db_inv :: "tracker_db \<Rightarrow> nat list list \<Rightarrow> nat list list \<Rightarrow> bool" where
  "db_inv t os ps \<longleftrightarrow>
     cl_inv (db_cluster t) (cells (db_vols t)) os ps \<and> heap_ok (db_vols t) \<and>
     inj_on (vid_at (cells (db_vols t))) (members os ps) \<and>
     (\<forall>x \<in> members os ps. vol_live (cells (db_blks t)) (the (cells (db_vols t) x)))"

lemma vol_ok_dom: "vol_ok c v \<Longrightarrow> dom c \<subseteq> dom d \<Longrightarrow> vol_ok d v"
  unfolding vol_ok_def by blast

lemma vol_live_dom: "vol_live c v \<Longrightarrow> dom c \<subseteq> dom d \<Longrightarrow> vol_live d v"
  by (auto simp: vol_live_def intro: vol_ok_dom)

text \<open>Updates of a volume that keep its link and its identifier keep the table.\<close>

lemma cl_inv_update:
  assumes inv: "cl_inv cl c os ps" and p: "c p = Some v" "dv_next v' = dv_next v" "volume_id v' = volume_id v"
  shows "cl_inv cl (c(p \<mapsto> v')) os ps"
proof -
  have v: "vid_at (c(p \<mapsto> v')) x = vid_at c x" for x using p by (simp add: vid_at_def)
  have ch: "chain dv_next (c(p \<mapsto> v')) q xs = chain dv_next c q xs" for q xs
    by (rule chain_links) (use p in auto)
  have e: "chain dv_next (c(p \<mapsto> v')) = chain dv_next c" using ch by (simp add: fun_eq_iff)
  show ?thesis using inv unfolding cl_inv_def v e .
qed

lemma append_first:
  assumes v: "cells (db_vols t) dv = Some v" "block_count v = 0" "0 < allocs_size v" "length (dv_blocks v) = allocs_size v"
  shows "append_block dv dblk b t = Some (LFS_OK,
    t\<lparr>db_blks := store dblk (b\<lparr>blk_type := Ty_master_server\<rparr>) (db_blks t),
      db_vols := store dv (v\<lparr>master_block_index := 0, dv_blocks := (dv_blocks v)[0 := dblk], block_count := 1\<rparr>) (db_vols t)\<rparr>)"
  using v by (simp add: append_block_def do_block_insert_def datasevrvolume_insert_def Let_def)

lemma append_more:
  assumes v: "cells (db_vols t) dv = Some v" "vol_live (cells (db_blks t)) v"
    and b: "dblk \<noteq> NULL" "cells (db_blks t) dblk = Some b"
  shows "\<exists>ret v' vh. append_block dv dblk b t = Some (ret, t\<lparr>db_vols := vh\<rparr>) \<and>
    cells vh = (cells (db_vols t))(dv \<mapsto> v') \<and> (heap_ok (db_vols t) \<longrightarrow> heap_ok vh) \<and>
    dv_next v' = dv_next v \<and> volume_id v' = volume_id v \<and> vol_live (cells (db_blks t)) v' \<and>
    (if ret = LFS_OK then vol_blocks v' = vol_blocks v @ [dblk] else v' = v) \<and>
    (oom (db_vols t) = (\<lambda>_. False) \<longrightarrow> ret = LFS_OK)"
proof -
  define r where "r = (if block_count v \<ge> allocs_size v then reserve (db_vols t) else (True, db_vols t))"
  obtain ok vh where r1: "r = (ok, vh)" by (cases r)
  obtain ret v' where d: "do_block_insert ok v dblk = (ret, v')" by fastforce
  have vk: "vol_ok (cells (db_blks t)) v" "0 \<le> master_block_index v" "1 \<le> block_count v"
    using v(2) by (simp_all add: vol_live_def)
  have nf: "\<not> (block_count v = 0 \<or> master_block_index v = -1)" using vk by auto
  have dom: "dblk \<in> dom (cells (db_blks t))" using b(2) by auto
  note s = datasevrvolume_insert_spec [OF vk(1) b(1) dom d [unfolded do_block_insert_def]]
  have f: "dv_next v' = dv_next v" "volume_id v' = volume_id v" "master_block_index v' = master_block_index v"
    "block_count v \<le> block_count v'"
    using d by (auto simp: do_block_insert_def datasevrvolume_insert_def datasevrvolume_resize_def Let_def split: if_splits)
  have c: "cells vh = cells (db_vols t)" using r1 by (auto simp: r_def reserve_def split: if_splits)
  have hp: "heap_ok (store dv v' vh)" if "heap_ok (db_vols t)"
  proof -
    have "heap_ok vh" using that r1 by (auto simp: r_def split: if_splits)
    then show ?thesis using v(1) c by (intro heap_ok_store) auto
  qed
  have "append_block dv dblk b t = Some (ret, t\<lparr>db_vols := store dv v' vh\<rparr>)"
    using v(1) nf r1 d by (cases "allocs_size v \<le> block_count v") (auto simp: append_block_def Let_def r_def)
  moreover have "vol_live (cells (db_blks t)) v'"
    using s(1,2) f vk v(2) by (cases "ret = LFS_OK") (auto simp: vol_live_def)
  moreover have "ret = LFS_OK" if "oom (db_vols t) = (\<lambda>_. False)"
    using s(3) r1 that by (auto simp: r_def reserve_def split: if_splits)
  ultimately show ?thesis using f s(1,2) c hp
    by (intro exI [of _ ret] exI [of _ v'] exI [of _ "store dv v' vh"]) (auto simp: store_def)
qed

lemma db_find:
  assumes "db_inv t os ps"
  shows "\<exists>p. do_cluster_find (db_cluster t) (cells (db_vols t)) vid = Some p \<and>
    (if \<exists>x \<in> members os ps. vid_at (cells (db_vols t)) x = vid
     then p \<in> members os ps \<and> vid_at (cells (db_vols t)) p = vid else p = NULL)"
  using assms do_cluster_find_spec unfolding db_inv_def by blast

lemma db_member:
  assumes "db_inv t os ps" and "x \<in> members os ps"
  shows "x \<noteq> NULL" "\<exists>v. cells (db_vols t) x = Some v \<and> vol_live (cells (db_blks t)) v"
proof -
  have c: "cells (db_vols t) x \<noteq> None" using members_alloc assms unfolding db_inv_def by blast
  then show "x \<noteq> NULL" using heap_ok_NULL [of "db_vols t"] assms(1) unfolding db_inv_def by metis
  show "\<exists>v. cells (db_vols t) x = Some v \<and> vol_live (cells (db_blks t)) v"
    using c assms unfolding db_inv_def by auto
qed

text \<open>A volume of the table can be replaced by one with the same link and identifier.\<close>

lemma db_inv_update:
  assumes inv: "db_inv t os ps" and x: "x \<in> members os ps" "cells (db_vols t) x = Some v"
    and vh: "cells vh = (cells (db_vols t))(x \<mapsto> v')" "heap_ok vh"
    and v': "dv_next v' = dv_next v" "volume_id v' = volume_id v" "vol_live (cells (db_blks t)) v'"
  shows "db_inv (t\<lparr>db_vols := vh\<rparr>) os ps"
proof -
  have "vid_at (cells vh) y = vid_at (cells (db_vols t)) y" for y using vh(1) v'(2) x(2) by (simp add: vid_at_def)
  then have e: "vid_at (cells vh) = vid_at (cells (db_vols t))" by auto
  have "cl_inv (db_cluster t) (cells vh) os ps" unfolding vh(1)
    using inv x(2) v'(1,2) by (intro cl_inv_update) (auto simp: db_inv_def)
  moreover have "vol_live (cells (db_blks t)) (the (cells vh y))" if "y \<in> members os ps" for y
    using that inv v'(3) by (auto simp: vh(1) db_inv_def)
  ultimately show ?thesis using inv vh(2) unfolding db_inv_def by (simp add: e)
qed

lemma insert_existing:
  assumes inv: "db_inv t os ps" and b: "dblk \<noteq> NULL" "cells (db_blks t) dblk = Some b"
    and f: "x \<in> members os ps" "vid_at (cells (db_vols t)) x = parent_volume_id b"
  shows "\<exists>ret t' v. do_insert x dblk t = Some (ret, t') \<and> db_inv t' os ps \<and>
    cells (db_vols t') x = Some v \<and> volume_id v = parent_volume_id b \<and>
    db_cluster t' = db_cluster t \<and> db_blks t' = db_blks t \<and>
    (oom (db_vols t) = (\<lambda>_. False) \<longrightarrow> ret = LFS_OK \<and> dblk \<in> set (vol_blocks v))"
proof -
  obtain v where v: "cells (db_vols t) x = Some v" "vol_live (cells (db_blks t)) v" "x \<noteq> NULL"
    using db_member [OF inv f(1)] by blast
  obtain ret v' vh where a: "append_block x dblk b t = Some (ret, t\<lparr>db_vols := vh\<rparr>)"
    "cells vh = (cells (db_vols t))(x \<mapsto> v')" "heap_ok vh"
    "dv_next v' = dv_next v" "volume_id v' = volume_id v" "vol_live (cells (db_blks t)) v'"
    "if ret = LFS_OK then vol_blocks v' = vol_blocks v @ [dblk] else v' = v"
    "oom (db_vols t) = (\<lambda>_. False) \<longrightarrow> ret = LFS_OK"
    using append_more [OF v(1,2) b] inv unfolding db_inv_def by blast
  have "do_insert x dblk t = Some (ret, t\<lparr>db_vols := vh\<rparr>)" using a(1) v(3) b(2) by (simp add: do_insert_def)
  moreover have "db_inv (t\<lparr>db_vols := vh\<rparr>) os ps" by (rule db_inv_update [OF inv f(1) v(1) a(2-6)])
  moreover have "cells vh x = Some v'" "volume_id v' = parent_volume_id b"
    using a(2,5) f(2) v(1) by (simp_all add: vid_at_def)
  ultimately show ?thesis using a(7,8)
    by (intro exI [of _ ret] exI [of _ "t\<lparr>db_vols := vh\<rparr>"] exI [of _ v']) auto
qed

lemma volume_new_cases:
  assumes "heap_ok h" and "volume_new h = (p, h')"
  shows "heap_ok h'" and "\<And>x. cells h x \<noteq> None \<Longrightarrow> cells h' x = cells h x"
    and "p \<noteq> NULL \<Longrightarrow> cells h p = None \<and> cells h' = (cells h)(p \<mapsto> empty_volume)"
    and "oom h = (\<lambda>_. False) \<Longrightarrow> p \<noteq> NULL"
proof -
  obtain q h1 where m: "malloc empty_volume h = (q, h1)" by fastforce
  obtain ok h2 where r: "reserve h1 = (ok, h2)" by fastforce
  have h1: "heap_ok h1" using m assms(1) by auto
  have h2: "heap_ok h2" "cells h2 = cells h1" using r h1 reserve_keeps(1) by auto
  show "heap_ok h'" "\<And>x. cells h x \<noteq> None \<Longrightarrow> cells h' x = cells h x"
    "p \<noteq> NULL \<Longrightarrow> cells h p = None \<and> cells h' = (cells h)(p \<mapsto> empty_volume)"
  proof -
    consider "q = NULL" "p = NULL" "h' = h1" | "q \<noteq> NULL" "ok" "p = q" "h' = h2" |
      v where "q \<noteq> NULL" "p = NULL" "h' = store q v h2"
      using assms(2) m r by (auto simp: volume_new_def split: if_splits)
    then have "heap_ok h' \<and> (\<forall>x. cells h x \<noteq> None \<longrightarrow> cells h' x = cells h x) \<and>
        (p \<noteq> NULL \<longrightarrow> cells h p = None \<and> cells h' = (cells h)(p \<mapsto> empty_volume))"
    proof cases
      case 1
      then show ?thesis using malloc_NULL [OF assms(1)] m h1 by auto
    next
      case 2
      then show ?thesis using malloc_fresh [OF assms(1) m] h2 by auto
    next
      case (3 v)
      then show ?thesis using malloc_fresh [OF assms(1) m] h2 by (auto simp: cells_simps intro!: heap_ok_store)
    qed
    then show "heap_ok h'" "\<And>x. cells h x \<noteq> None \<Longrightarrow> cells h' x = cells h x"
      "p \<noteq> NULL \<Longrightarrow> cells h p = None \<and> cells h' = (cells h)(p \<mapsto> empty_volume)" by auto
  qed
  show "oom h = (\<lambda>_. False) \<Longrightarrow> p \<noteq> NULL"
    using assms by (auto simp: volume_new_def malloc_def reserve_def heap_ok_def split: if_splits)
qed

lemma cl_inv_cong:
  assumes inv: "cl_inv cl c os ps" and eq: "\<And>x. x \<in> members os ps \<Longrightarrow> c' x = c x"
  shows "cl_inv cl c' os ps"
proof -
  have m: "x \<in> set (concat os) \<Longrightarrow> x \<in> members os ps" "x \<in> set (concat ps) \<Longrightarrow> x \<in> members os ps" for x
    by (simp_all add: members_def del: set_concat)
  have v: "vid_at c' x = vid_at c x" if "x \<in> members os ps" for x using eq [OF that] by (simp add: vid_at_def)
  have n: "x \<in> members os ps" if "i < length os" "x \<in> set (os ! i)" for x i
    unfolding members_def Un_iff concat_nth using that by blast
  have n': "x \<in> members os ps" if "i < length ps" "x \<in> set (ps ! i)" for x i
    unfolding members_def Un_iff concat_nth using that by blast
  have "list_all2 (chain dv_next c') qs os" if "list_all2 (chain dv_next c) qs os" for qs
    by (rule chains_cong [OF that]) (use eq m(1) in metis)
  moreover have "list_all2 (chain dv_next c') qs ps" if "list_all2 (chain dv_next c) qs ps" for qs
    by (rule chains_cong [OF that]) (use eq m(2) in metis)
  ultimately show ?thesis using inv v n n' m(2)
    by (cases "expanding cl") (simp_all add: cl_inv_def del: set_concat)
qed

text \<open>Allocations elsewhere in the store of volumes keep the database.\<close>

lemma db_inv_extend:
  assumes inv: "db_inv t os ps" and vh: "heap_ok vh" "\<And>x. cells (db_vols t) x \<noteq> None \<Longrightarrow> cells vh x = cells (db_vols t) x"
  shows "db_inv (t\<lparr>db_vols := vh\<rparr>) os ps"
proof -
  have i: "cl_inv (db_cluster t) (cells (db_vols t)) os ps" using inv by (simp add: db_inv_def)
  have e: "cells vh x = cells (db_vols t) x" if "x \<in> members os ps" for x using vh(2) members_alloc [OF i that] by blast
  have v: "vid_at (cells vh) x = vid_at (cells (db_vols t)) x" if "x \<in> members os ps" for x
    using e [OF that] by (simp add: vid_at_def)
  have "cl_inv (db_cluster t) (cells vh) os ps" by (rule cl_inv_cong [OF i e])
  moreover have "inj_on (vid_at (cells vh)) (members os ps)"
    using inv v by (subst inj_on_cong [where g = "vid_at (cells (db_vols t))"]) (auto simp: db_inv_def)
  ultimately show ?thesis using inv e vh(1) unfolding db_inv_def by simp
qed

text \<open>The volume that a new data server is first put into.\<close>

definition first_volume :: "nat \<Rightarrow> u32 \<Rightarrow> nat \<Rightarrow> datasevr_volume" where
  "first_volume q vid dblk =
     (set_dv_next q (empty_volume\<lparr>volume_id := vid\<rparr>))
       \<lparr>master_block_index := 0, dv_blocks := (dv_blocks empty_volume)[0 := dblk], block_count := 1\<rparr>"

lemma first_volume_props:
  "vol_blocks (first_volume q vid dblk) = [dblk]" "volume_id (first_volume q vid dblk) = vid"
  "dv_next (first_volume q vid dblk) = q" "block_count (first_volume q vid dblk) = 1"
  "dblk \<noteq> NULL \<Longrightarrow> dblk \<in> dom c \<Longrightarrow> vol_live c (first_volume q vid dblk)"
  by (simp_all add: first_volume_def vol_blocks_def set_dv_next_def empty_volume_def vol_live_def vol_ok_def
      LFS_MAX_BLOCKS_EACH_VOLUME_def numeral_3_eq_3)

lemma insert_new:
  assumes inv: "db_inv t os ps" and b: "dblk \<noteq> NULL" "cells (db_blks t) dblk = Some b"
    and nf: "\<not> (\<exists>x \<in> members os ps. vid_at (cells (db_vols t)) x = parent_volume_id b)"
    and vn: "volume_new (db_vols t) = (p, vh)" and p: "p \<noteq> NULL"
    and rng: "\<not> insert_out_of_range (db_cluster t) (empty_volume\<lparr>volume_id := parent_volume_id b\<rparr>)"
  shows "\<exists>t' os' ps' q. do_insert NULL dblk t = Some (LFS_OK, t') \<and> db_inv t' os' ps' \<and>
    cells (db_vols t') p = Some (first_volume q (parent_volume_id b) dblk) \<and>
    cells (db_blks t') = (cells (db_blks t))(dblk \<mapsto> b\<lparr>blk_type := Ty_master_server\<rparr>) \<and> p \<in> members os' ps'"
proof -
  let ?c = "cells (db_vols t)" and ?v0 = "empty_volume\<lparr>volume_id := parent_volume_id b\<rparr>"
  let ?b' = "store dblk (b\<lparr>blk_type := Ty_master_server\<rparr>) (db_blks t)"
  have i: "cl_inv (db_cluster t) ?c os ps" "heap_ok (db_vols t)" "inj_on (vid_at ?c) (members os ps)"
    using inv by (simp_all add: db_inv_def)
  note vc = volume_new_cases [OF i(2) vn]
  have c: "?c p = None" "cells vh = ?c(p \<mapsto> empty_volume)" using vc(3) [OF p] by simp_all
  have np: "p \<notin> members os ps" using members_alloc [OF i(1)] c(1) by blast
  have c0: "(cells vh)(p \<mapsto> ?v0) = ?c(p \<mapsto> ?v0)" by (simp add: c(2))
  have "cl_inv (db_cluster t) (?c(p \<mapsto> ?v0)) os ps" by (rule cl_inv_fresh [OF i(1) np])
  from do_cluster_insert_spec [OF this, of p ?v0, OF _ p np rng] obtain cl q os' ps' where
    d: "do_cluster_insert p (db_cluster t) (?c(p \<mapsto> ?v0)) = Some (LFS_OK, cl, ?c(p \<mapsto> set_dv_next q ?v0))"
    "cl_inv cl (?c(p \<mapsto> set_dv_next q ?v0)) os' ps'" "members os' ps' = insert p (members os ps)" by auto
  let ?v1 = "first_volume q (parent_volume_id b) dblk"
  let ?t1 = "t\<lparr>db_cluster := cl, db_vols := vh\<lparr>cells := ?c(p \<mapsto> set_dv_next q ?v0)\<rparr>\<rparr>"
  let ?t2 = "t\<lparr>db_cluster := cl, db_blks := ?b', db_vols := vh\<lparr>cells := ?c(p \<mapsto> ?v1)\<rparr>\<rparr>"
  have "append_block p dblk b ?t1 = Some (LFS_OK, ?t2)"
    using append_first [of ?t1 p "set_dv_next q ?v0" dblk b]
    by (simp add: empty_volume_def set_dv_next_def LFS_MAX_BLOCKS_EACH_VOLUME_def first_volume_def store_def)
  then have "do_insert NULL dblk t = Some (LFS_OK, ?t2)"
    using b(2) vn p c d(1) c0 by (simp add: do_insert_def)
  moreover have "db_inv ?t2 os' ps'"
  proof -
    have "cl_inv cl ((?c(p \<mapsto> set_dv_next q ?v0))(p \<mapsto> ?v1)) os' ps'"
      by (rule cl_inv_update [OF d(2), of p "set_dv_next q ?v0"]) (simp_all add: first_volume_props)
    moreover have "heap_ok (vh\<lparr>cells := ?c(p \<mapsto> ?v1)\<rparr>)"
      using vc(1) c(2) by (auto simp: heap_ok_def split: if_splits)
    moreover have "inj_on (vid_at (?c(p \<mapsto> ?v1))) (insert p (members os ps))"
    proof -
      have "inj_on (vid_at (?c(p \<mapsto> ?v1))) (members os ps)"
        using i(3) np by (subst inj_on_cong [where g = "vid_at ?c"]) (auto simp: vid_at_upd)
      then show ?thesis using nf np by (auto simp: vid_at_upd first_volume_props)
    qed
    moreover have "vol_live (cells ?b') (the ((?c(p \<mapsto> ?v1)) x))" if "x \<in> insert p (members os ps)" for x
    proof (cases "x = p")
      case True
      then show ?thesis using first_volume_props(5) [of dblk "cells ?b'"] b(1) by (simp add: cells_simps)
    next
      case False
      then have "vol_live (cells (db_blks t)) (the (?c x))" using that inv by (auto simp: db_inv_def)
      then show ?thesis using False by (auto intro: vol_live_dom simp: cells_simps)
    qed
    ultimately show ?thesis unfolding db_inv_def by (simp add: d(3))
  qed
  ultimately show ?thesis
    by (intro exI [of _ ?t2] exI [of _ os'] exI [of _ ps'] exI [of _ q]) (simp add: cells_simps d(3))
qed

lemma byid_find_spec:
  assumes inv: "db_inv t os ps" and x: "x \<in> members os ps" "cells (db_vols t) x = Some v" "volume_id v = vid"
    and b: "p \<in> set (vol_blocks v)" "block_id (the (cells (db_blks t) p)) = bid"
  shows "\<exists>q. cluster_datasevrblock_byid_find vid bid t = Some q \<and> q \<noteq> NULL \<and> block_id (the (cells (db_blks t) q)) = bid"
proof -
  have vx: "vid_at (cells (db_vols t)) x = vid" using x(2,3) by (simp add: vid_at_def)
  then obtain dv where f: "do_cluster_find (db_cluster t) (cells (db_vols t)) vid = Some dv"
    "dv \<in> members os ps" "vid_at (cells (db_vols t)) dv = vid"
    using db_find [OF inv, of vid] x(1) by (auto split: if_splits)
  then have "dv = x" using inv x(1) vx unfolding db_inv_def by (metis inj_onD)
  moreover have "x \<noteq> NULL" "vol_ok (cells (db_blks t)) v"
    using db_member [OF inv x(1)] x(2) by (auto simp: vol_live_def)
  ultimately have e: "cluster_datasevrblock_byid_find vid bid t = do_block_find (db_blks t) (Some v) bid"
    using f(1) x(2) by (simp add: cluster_datasevrblock_byid_find_def)
  obtain q where q: "do_block_find (db_blks t) (Some v) bid = Some q" "q \<in> set (vol_blocks v)"
    "block_id (the (cells (db_blks t) q)) = bid"
    using do_block_find_spec [OF \<open>vol_ok (cells (db_blks t)) v\<close>, of bid] b by (metis (mono_tags, lifting))
  have "q \<noteq> NULL" using q(2) \<open>vol_ok (cells (db_blks t)) v\<close> by (auto simp: vol_ok_def)
  then show ?thesis using e q by auto
qed

lemma do_insert_spec:
  assumes inv: "db_inv t os ps" and b: "dblk \<noteq> NULL" "cells (db_blks t) dblk = Some b"
    and f: "if \<exists>x \<in> members os ps. vid_at (cells (db_vols t)) x = parent_volume_id b
      then dv \<in> members os ps \<and> vid_at (cells (db_vols t)) dv = parent_volume_id b else dv = NULL"
    and rng: "\<not> insert_out_of_range (db_cluster t) (empty_volume\<lparr>volume_id := parent_volume_id b\<rparr>)"
  shows "\<exists>ret t' os' ps'. do_insert dv dblk t = Some (ret, t') \<and> db_inv t' os' ps' \<and>
    (oom (db_vols t) = (\<lambda>_. False) \<longrightarrow> block_id (the (cells (db_blks t') dblk)) = block_id b \<and>
      (\<exists>x v. x \<in> members os' ps' \<and> cells (db_vols t') x = Some v \<and> volume_id v = parent_volume_id b \<and>
        dblk \<in> set (vol_blocks v)))"
proof (cases "\<exists>x \<in> members os ps. vid_at (cells (db_vols t)) x = parent_volume_id b")
  case True
  then have d: "dv \<in> members os ps" "vid_at (cells (db_vols t)) dv = parent_volume_id b" using f by simp_all
  then show ?thesis using insert_existing [OF inv b d] b(2) by fastforce
next
  case False
  then have dv: "dv = NULL" using f by simp
  obtain p vh where vn: "volume_new (db_vols t) = (p, vh)" by fastforce
  show ?thesis
  proof (cases "p = NULL")
    case True
    note vc = volume_new_cases [OF _ vn]
    have h: "heap_ok (db_vols t)" using inv by (simp add: db_inv_def)
    have "db_inv (t\<lparr>db_vols := vh\<rparr>) os ps" by (rule db_inv_extend [OF inv vc(1,2) [OF h]])
    then show ?thesis using vn True dv b(2) vc(4) [OF h] by (fastforce simp: do_insert_def)
  next
    case p: False
    obtain t' os' ps' q where r: "do_insert NULL dblk t = Some (LFS_OK, t')" "db_inv t' os' ps'"
      "cells (db_vols t') p = Some (first_volume q (parent_volume_id b) dblk)"
      "cells (db_blks t') = (cells (db_blks t))(dblk \<mapsto> b\<lparr>blk_type := Ty_master_server\<rparr>)" "p \<in> members os' ps'"
      using insert_new [OF inv b False vn p rng] by blast
    then show ?thesis unfolding dv by (intro exI [of _ LFS_OK] exI [of _ t'] exI [of _ os'] exI [of _ ps']) (auto simp: first_volume_props)
  qed
qed

subsection \<open>Properties\<close>


lemma demo_db:
  "\<exists>t os ps. db_inv t os ps \<and> db_blks t = demo_blocks \<and> oom (db_vols t) = (\<lambda>_. False) \<and> \<not> expanding (db_cluster t) \<and>
     members os ps = {}"
proof -
  let ?h = "heap_init (\<lambda>_. False) :: wlc_skiplist_node heap"
  obtain cl0 h where i: "cluster_table_init 0 True ?h = Some (LFS_OK, cl0, h)"
    by (auto simp: cluster_table_init_def wlcsl_create_def wlcsl_node_new_def reserve_def malloc_def heap_init_def Let_def)
  then obtain os ps where "cl_inv cl0 Map.empty os ps" "members os ps = {}"
    using cluster_table_init_holds [of 0 ?h LFS_OK cl0 h] by (auto simp: cl_holds_def)
  moreover have "\<not> expanding cl0" using i by (auto simp: cluster_table_init_def Let_def bind_eq_Some_conv)
  ultimately show ?thesis
    by (intro exI [of _ "\<lparr>db_cluster = cl0, db_vols = heap_init (\<lambda>_. False), db_blks = demo_blocks, db_nodes = h\<rparr>"]
        exI [of _ os] exI [of _ ps]) (simp add: db_inv_def heap_init_def heap_ok_def)
qed


text \<open>A block that a read may be sent to: not the master, not the one used last, alive and
  synchronised up to the wanted sequence number.\<close>

definition read_candidate ::
  "(nat \<rightharpoonup> datasevr_block) \<Rightarrow> (nat \<Rightarrow> int) \<Rightarrow> int \<Rightarrow> int \<Rightarrow> datasevr_volume \<Rightarrow> nat \<Rightarrow> nat \<Rightarrow> bool" where
  "read_candidate c now interval sequence v i p \<longleftrightarrow>
     int i \<noteq> master_block_index v \<and> int i \<noteq> last_read_block_index v \<and>
     now i - last_heartbeat_time (the (c p)) \<le> interval \<and> last_sync_sequence (the (c p)) \<ge> sequence"

lemma read_block_loop_spec:
  assumes "\<forall>p \<in> set ps. p \<noteq> NULL \<and> p \<in> dom c"
  shows "\<exists>r. read_block_loop c now interval sequence v i ps = Some r \<and>
    (case r of
       None \<Rightarrow> \<forall>j < length ps. \<not> read_candidate c now interval sequence v (i + j) (ps ! j)
     | Some k \<Rightarrow> \<exists>j < length ps. k = i + j \<and> read_candidate c now interval sequence v k (ps ! j))"
  using assms
proof (induction ps arbitrary: i)
  case (Cons p ps)
  let ?cand = "read_candidate c now interval sequence v"
  obtain b where b: "c p = Some b" "p \<noteq> NULL" using Cons.prems by auto
  obtain r where r: "read_block_loop c now interval sequence v (Suc i) ps = Some r"
    "case r of None \<Rightarrow> \<forall>j < length ps. \<not> ?cand (Suc i + j) (ps ! j)
     | Some k \<Rightarrow> \<exists>j < length ps. k = Suc i + j \<and> ?cand k (ps ! j)"
    using Cons.IH [of "Suc i"] Cons.prems by auto
  show ?case
  proof (cases "?cand i p")
    case True
    then show ?thesis using b by (intro exI [of _ "Some i"]) (auto simp: read_candidate_def)
  next
    case False
    have "read_block_loop c now interval sequence v i (p # ps) = Some r"
      using False b r(1) by (auto simp: read_candidate_def)
    moreover have "case r of None \<Rightarrow> \<forall>j < length (p # ps). \<not> ?cand (i + j) ((p # ps) ! j)
     | Some k \<Rightarrow> \<exists>j < length (p # ps). k = i + j \<and> ?cand k ((p # ps) ! j)"
    proof (cases r)
      case None
      then show ?thesis using r(2) False by (auto simp: nth_Cons split: nat.splits)
    next
      case (Some k)
      then obtain j where "j < length ps" "k = Suc i + j" "?cand k (ps ! j)" using r(2) by auto
      then show ?thesis using Some by (auto intro!: exI [of _ "Suc j"])
    qed
    ultimately show ?thesis by blast
  qed
qed simp

text \<open>C10: The server named for a read always is a live server of the wanted volume. When the volume has a
  slave that is alive, synchronised up to the file and not the one used last, such a slave is
  chosen and remembered, so that consecutive reads alternate; otherwise the master is chosen.\<close>

theorem read_block_choice:
  assumes inv: "db_inv t os ps" and x: "x \<in> members os ps" "cells (db_vols t) x = Some v" "volume_id v = hash_func vn"
  shows "\<exists>p t'. cluster_readdatasevrblock_get hash_func now interval vn sequence t = Some (p, t') \<and>
    p \<in> set (vol_blocks v) \<and> db_inv t' os ps \<and>
    (if \<exists>i < block_count v. read_candidate (cells (db_blks t)) now interval sequence v i (vol_blocks v ! i)
     then \<exists>i < block_count v. read_candidate (cells (db_blks t)) now interval sequence v i (vol_blocks v ! i) \<and>
       p = vol_blocks v ! i \<and> cells (db_vols t') x = Some (v\<lparr>last_read_block_index := int i\<rparr>)
     else p = vol_blocks v ! nat (master_block_index v) \<and> t' = t)"
proof -
  have vx: "vid_at (cells (db_vols t)) x = hash_func vn" using x(2,3) by (simp add: vid_at_def)
  then obtain dv where f: "do_cluster_find (db_cluster t) (cells (db_vols t)) (hash_func vn) = Some dv"
    "dv \<in> members os ps" "vid_at (cells (db_vols t)) dv = hash_func vn"
    using db_find [OF inv, of "hash_func vn"] x(1) by (auto split: if_splits)
  then have dv: "dv = x" using inv x(1) vx unfolding db_inv_def by (metis inj_onD)
  have v: "x \<noteq> NULL" "vol_live (cells (db_blks t)) v" using db_member [OF inv x(1)] x(2) by auto
  then have k: "length (dv_blocks v) = allocs_size v" "block_count v \<le> allocs_size v" "1 \<le> block_count v"
    "0 \<le> master_block_index v" "master_block_index v < int (block_count v)"
    "\<forall>p \<in> set (vol_blocks v). p \<noteq> NULL \<and> p \<in> dom (cells (db_blks t))"
    by (auto simp: vol_live_def vol_ok_def)
  have len: "length (vol_blocks v) = block_count v" using k by (simp add: vol_blocks_def)
  have at: "block_at v (int i) = Some (vol_blocks v ! i)" if "i < block_count v" for i
    using that k(1,2) by (simp add: block_at_def vol_blocks_def)
  have am: "block_at v (master_block_index v) = Some (vol_blocks v ! nat (master_block_index v))"
    using at [of "nat (master_block_index v)"] k(4,5) by simp
  have ne: "dv_blocks v \<noteq> []" using k by auto
  obtain r where r: "read_block_loop (cells (db_blks t)) now interval sequence v 0 (vol_blocks v) = Some r"
    "case r of None \<Rightarrow> \<forall>j < block_count v. \<not> read_candidate (cells (db_blks t)) now interval sequence v j (vol_blocks v ! j)
     | Some k \<Rightarrow> k < block_count v \<and> read_candidate (cells (db_blks t)) now interval sequence v k (vol_blocks v ! k)"
    using read_block_loop_spec [OF k(6), of now interval sequence v 0] by (auto simp: len split: option.splits)
  have e: "cluster_readdatasevrblock_get hash_func now interval vn sequence t =
      (case r of Some i \<Rightarrow> do { p \<leftarrow> block_at v (int i);
               Some (p, t\<lparr>db_vols := store x (v\<lparr>last_read_block_index := int i\<rparr>) (db_vols t)\<rparr>) }
       | None \<Rightarrow> do { p \<leftarrow> block_at v (master_block_index v); Some (p, t) })"
    using f(1) dv v(1) x(2) ne r(1) by (simp add: cluster_readdatasevrblock_get_def vol_blocks_def)
  show ?thesis
  proof (cases r)
    case None
    then have "p \<in> set (vol_blocks v)" if "p = vol_blocks v ! nat (master_block_index v)" for p
      using that k(4,5) len by simp
    then show ?thesis using None r(2) e am inv by auto
  next
    case (Some i)
    then have i: "i < block_count v" "read_candidate (cells (db_blks t)) now interval sequence v i (vol_blocks v ! i)"
      using r(2) by simp_all
    let ?t = "t\<lparr>db_vols := store x (v\<lparr>last_read_block_index := int i\<rparr>) (db_vols t)\<rparr>"
    have "db_inv ?t os ps"
    proof (rule db_inv_update [OF inv x(1,2)])
      show "heap_ok (store x (v\<lparr>last_read_block_index := int i\<rparr>) (db_vols t))"
        using inv x(2) by (intro heap_ok_store) (auto simp: db_inv_def)
      show "vol_live (cells (db_blks t)) (v\<lparr>last_read_block_index := int i\<rparr>)"
        using v(2) by (simp add: vol_live_def vol_ok_def vol_blocks_def)
    qed (simp_all add: cells_simps)
    moreover have "vol_blocks v ! i \<in> set (vol_blocks v)" using i(1) len by simp
    moreover have "cells (db_vols ?t) x = Some (v\<lparr>last_read_block_index := int i\<rparr>)" by (simp add: cells_simps)
    ultimately show ?thesis using e Some at [OF i(1)] i
      by (intro exI [of _ "vol_blocks v ! i"] exI [of _ ?t]) auto
  qed
qed

theorem read_block_choice_witness:
  "\<exists>t x v p t'. cells (db_vols t) x = Some v \<and> volume_id v = 0 \<and>
     cluster_readdatasevrblock_get (\<lambda>_. 0) (\<lambda>_. 0) 10 (asc ''vol'') 0 t = Some (p, t') \<and> p \<in> set (vol_blocks v)"
proof -
  obtain t os ps where t: "db_inv t os ps" "db_blks t = demo_blocks" "oom (db_vols t) = (\<lambda>_. False)" "\<not> expanding (db_cluster t)"
    "members os ps = {}" using demo_db by blast
  let ?b = "zero_block\<lparr>block_id := 7\<rparr>"
  have b: "cells (db_blks t) 1 = Some ?b" "parent_volume_id ?b = 0"
    using t(2) by (simp_all add: demo_blocks_def zero_block_def)
  have "\<not> insert_out_of_range (db_cluster t) (empty_volume\<lparr>volume_id := parent_volume_id ?b\<rparr>)"
    using t(4) by (simp add: insert_out_of_range_def)
  from do_insert_spec [OF t(1) _ b(1) _ this, of NULL] t(3,5) b(2) obtain t' os' ps' x v where
    "db_inv t' os' ps'" "x \<in> members os' ps'" "cells (db_vols t') x = Some v" "volume_id v = 0" by auto
  then show ?thesis
    using read_block_choice [of t' os' ps' x v "\<lambda>_. 0" "asc ''vol''" "\<lambda>_. 0" 10 0] by blast
qed

end
