(* ===== verification/Conn_Queue.thy ===== *)
theory Conn_Queue
  imports List_Head Interfaces
begin

text \<open>
  The queues of \<open>src/trackerserver/ts_queue.c\<close> and \<open>src/dataserver/ds_queue.c\<close>: a lock and the head of an
  intrusive list. A queue is identified with the address of its head; an item is identified with the
  address of its link. Every operation holds the lock of the queue while it touches the list, so it
  is one step; the test for emptiness of \<open>conn_item_queue_pop\<close> is outside the lock and therefore a
  step of its own (\<open>queue_active\<close>), after which \<open>pop_locked\<close> runs on whatever the queue has become.
  The theory ends with the interpretation of the queue contract.
\<close>

type_synonym queue = "links \<times> nat"

definition init_queue :: "nat \<Rightarrow> links \<Rightarrow> links option" where
  "init_queue h s = INIT_LIST_HEAD h s"

definition queue_active :: "queue \<Rightarrow> bool option" where
  "queue_active q = (case q of (s, h) \<Rightarrow> do { e \<leftarrow> list_empty h s; Some (\<not> e) })"

definition queue_walk :: "queue \<Rightarrow> nat option" where
  "queue_walk q = (case q of (s, h) \<Rightarrow> do {
     a \<leftarrow> queue_active (s, h);
     if \<not> a then Some 0 else do { n \<leftarrow> nx s h; count_from h s n }
   })"

definition conn_item_queue_push :: "queue \<Rightarrow> nat \<Rightarrow> queue option" where
  "conn_item_queue_push q item = (case q of (s, h) \<Rightarrow> do { s' \<leftarrow> list_add_tail item h s; Some (s', h) })"

text \<open>The part of \<open>__conn_item_pop\<close> under the lock: the loop stops at the first entry, if there is one.\<close>

definition pop_locked :: "queue \<Rightarrow> (nat \<times> queue) option" where
  "pop_locked q = (case q of (s, h) \<Rightarrow> do {
     plist \<leftarrow> nx s h;
     if plist = h then Some (NULL, (s, h))
     else do { s' \<leftarrow> list_del_init plist s; Some (plist, (s', h)) }
   })"

definition conn_item_queue_pop :: "queue \<Rightarrow> (nat \<times> queue) option" where
  "conn_item_queue_pop q = do {
     a \<leftarrow> queue_active q;
     if \<not> a then Some (NULL, q) else pop_locked q
   }"

subsection \<open>The queue as a sequence\<close>

definition qinv :: "queue \<Rightarrow> bool" where
  "qinv q \<longleftrightarrow> (\<exists>xs. dlist (fst q) (snd q) xs)"

definition qelems :: "queue \<Rightarrow> nat list" where
  "qelems q = (THE xs. dlist (fst q) (snd q) xs)"

definition qavail :: "queue \<Rightarrow> nat \<Rightarrow> bool" where
  "qavail q x \<longleftrightarrow> fst q x \<noteq> None \<and> x \<notin> set (snd q # qelems q)"

lemma qelems_eq: "dlist s h xs \<Longrightarrow> qelems (s, h) = xs"
  unfolding qelems_def fst_conv snd_conv by (rule the_equality) (auto dest: dlist_unique)

lemma qinvE:
  assumes "qinv q" obtains s h where "q = (s, h)" "dlist s h (qelems q)"
  using assms qelems_eq by (cases q) (auto simp: qinv_def)

lemma push_ok:
  assumes "dlist s h xs" and "x \<notin> set (h # xs)" and "s x \<noteq> None"
  shows "\<exists>t. conn_item_queue_push (s, h) x = Some (t, h) \<and> dlist t h (xs @ [x]) \<and>
    (\<forall>y. y \<notin> set (h # xs @ [x]) \<longrightarrow> t y = s y) \<and> dom t = dom s"
  using list_add_tail_ok [OF assms] by (auto simp: conn_item_queue_push_def)

lemma pop_locked_ok:
  assumes "dlist s h (x # xs)"
  shows "\<exists>t. pop_locked (s, h) = Some (x, (t, h)) \<and> dlist t h xs \<and> (\<forall>y. y \<notin> set (h # x # xs) \<longrightarrow> t y = s y) \<and> dom t = dom s"
proof -
  have "nx s h = Some x" "x \<noteq> h" using dlist_first [OF assms] assms by (auto simp: dlist_def)
  then show ?thesis using list_del_init_ok [of s h "[]" x xs] assms by (auto simp: pop_locked_def)
qed

lemma pop_ok:
  assumes "dlist s h (x # xs)"
  shows "\<exists>t. conn_item_queue_pop (s, h) = Some (x, (t, h)) \<and> dlist t h xs \<and> (\<forall>y. y \<notin> set (h # x # xs) \<longrightarrow> t y = s y) \<and> dom t = dom s"
  using pop_locked_ok [OF assms] list_empty_iff [OF assms] by (auto simp: conn_item_queue_pop_def queue_active_def)

lemma pop_empty: "dlist s h [] \<Longrightarrow> conn_item_queue_pop (s, h) = Some (NULL, (s, h)) \<and> pop_locked (s, h) = Some (NULL, (s, h))"
  using list_empty_iff [of s h "[]"] dlist_first [of s h "[]"]
  by (auto simp: conn_item_queue_pop_def queue_active_def pop_locked_def)

lemma queue_walk_ok: "dlist s h xs \<Longrightarrow> queue_walk (s, h) = Some (length xs)"
  using list_empty_iff [of s h xs] dlist_first [of s h xs] count_from_dlist [of s h xs]
  by (cases xs) (auto simp: queue_walk_def queue_active_def)

interpretation lq: fifo qinv qelems qavail NULL conn_item_queue_push conn_item_queue_pop
proof (unfold_locales, goal_cases)
  case (1 q x)
  then obtain s h where q: "q = (s, h)" "dlist s h (qelems q)" using qinvE by blast
  then obtain t where t: "conn_item_queue_push q x = Some (t, h)" "dlist t h (qelems q @ [x])" "dom t = dom s"
    using push_ok [of s h "qelems q" x] 1(2) by (auto simp: qavail_def)
  have "t y = None \<longleftrightarrow> s y = None" for y using t(3) by (metis domIff)
  then show ?case using t q 1(2) qelems_eq [OF t(2)]
    by (intro exI [of _ "(t, h)"]) (auto simp: qinv_def qavail_def)
next
  case (2 q)
  then show ?case using pop_empty qinvE by metis
next
  case (3 q x xs)
  then obtain s h where q: "q = (s, h)" "dlist s h (x # xs)" using qinvE by metis
  then obtain t where t: "conn_item_queue_pop q = Some (x, (t, h))" "dlist t h xs" "dom t = dom s" using pop_ok by blast
  have d: "t y = None \<longleftrightarrow> s y = None" for y using t(3) by (metis domIff)
  have "s x \<noteq> None" "x \<notin> set (h # xs)" using dlist_alloc [OF q(2), of x] q(2) by (auto simp: dlist_def)
  then have "qavail (t, h) y \<longleftrightarrow> qavail q y \<or> y = x" for y
    using d qelems_eq [OF t(2)] qelems_eq [OF q(2)] q(1) by (auto simp: qavail_def)
  then show ?case using t qelems_eq [OF t(2)] by (intro exI [of _ "(t, h)"]) (auto simp: qinv_def)
qed

subsection \<open>Properties\<close>

text \<open>The items that are pushed onto an initialised queue are popped in the order of the pushes, after which the
  queue answers \<open>NULL\<close>; a walk over the queue counts what is in it.\<close>

theorem queue_is_fifo:
  assumes "s h \<noteq> None" and "distinct xs" and "\<And>x. x \<in> set xs \<Longrightarrow> s x \<noteq> None \<and> x \<noteq> h"
  shows "\<exists>s0 q1 q2. init_queue h s = Some s0 \<and> enq_all conn_item_queue_push xs (s0, h) = Some q1 \<and>
    queue_walk q1 = Some (length xs) \<and>
    deq_many conn_item_queue_pop (length xs) q1 = Some (xs, q2) \<and> conn_item_queue_pop q2 = Some (NULL, q2)"
proof -
  obtain s0 where s0: "init_queue h s = Some s0" "dlist s0 h []" "dom s0 = dom s"
    using INIT_LIST_HEAD_ok [of s h, OF assms(1)] by (auto simp: init_queue_def)
  have i: "qinv (s0, h)" and e: "qelems (s0, h) = []" using s0(2) qelems_eq by (auto simp: qinv_def)
  have a: "qavail (s0, h) x" if "x \<in> set xs" for x
    using assms(3) [OF that] e s0(3) by (auto simp: qavail_def)
  obtain q1 q2 where q: "enq_all conn_item_queue_push xs (s0, h) = Some q1"
    "deq_many conn_item_queue_pop (length xs) q1 = Some (xs, q2)" "conn_item_queue_pop q2 = Some (NULL, q2)"
    using lq.deq_after_enq [OF i e assms(2) a] by blast
  have "qinv q1" "qelems q1 = xs" using lq.enq_all_ok [OF i assms(2) a] e q(1) by auto
  then have "queue_walk q1 = Some (length xs)" using queue_walk_ok qinvE by metis
  with s0(1) q show ?thesis by blast
qed

theorem queue_is_fifo_witness:
  "\<exists>s0 q1 q2. init_queue 1 demo_links = Some s0 \<and> enq_all conn_item_queue_push [3, 2] (s0, 1) = Some q1 \<and>
    deq_many conn_item_queue_pop 2 q1 = Some ([3, 2], q2) \<and> conn_item_queue_pop q2 = Some (NULL, q2)"
proof -
  have "demo_links 1 \<noteq> None" by (simp add: demo_links_def)
  moreover have "distinct [3, 2 :: nat]" by simp
  moreover have "demo_links x \<noteq> None \<and> x \<noteq> 1" if "x \<in> set [3, 2]" for x using that by (auto simp: demo_links_def)
  ultimately have "\<exists>s0 q1 q2. init_queue 1 demo_links = Some s0 \<and> enq_all conn_item_queue_push [3, 2] (s0, 1) = Some q1 \<and>
    queue_walk q1 = Some (length [3, 2 :: nat]) \<and>
    deq_many conn_item_queue_pop (length [3, 2 :: nat]) q1 = Some ([3, 2], q2) \<and> conn_item_queue_pop q2 = Some (NULL, q2)"
    by (rule queue_is_fifo)
  then show ?thesis by (simp add: numeral_2_eq_2) blast
qed

end
