(* ===== verification/Lfs_Protocol.thy ===== *)
theory Lfs_Protocol
  imports Shared_Func
begin

text \<open>
  The wire format that the servers and clients share (\<open>src/include/lfs_protocol.h\<close>,
  \<open>lfs_types.h\<close>, \<open>lfs_client_types.h\<close>, \<open>lfs_define.h\<close>). The sources cast a buffer to a structure, so the
  model reads and writes byte ranges of a buffer: the header as a compiler for a little-endian
  64-bit machine lays it out, the bodies, whose fields are all arrays of characters, without
  padding. An access outside of the buffer gives \<open>None\<close>.
\<close>

subsection \<open>Buffers\<close>

definition get_bytes :: "byte list \<Rightarrow> nat \<Rightarrow> nat \<Rightarrow> byte list option" where
  "get_bytes buf off n = (if off + n \<le> length buf then Some (take n (drop off buf)) else None)"

definition put_bytes :: "byte list \<Rightarrow> nat \<Rightarrow> byte list \<Rightarrow> byte list option" where
  "put_bytes buf off bs =
     (if off + length bs \<le> length buf then Some (take off buf @ bs @ drop (off + length bs) buf) else None)"

text \<open>The string at an offset; a string without a terminator is read beyond the end of the buffer.\<close>

definition cstr_at :: "byte list \<Rightarrow> nat \<Rightarrow> cstr option" where
  "cstr_at buf off = (if 0 \<in> set (drop off buf) then Some (cstr_of (drop off buf)) else None)"

definition get_long :: "byte list \<Rightarrow> nat \<Rightarrow> int option" where
  "get_long buf off = map_option (\<lambda>b. sint (buff2long b)) (get_bytes buf off 8)"

definition put_long :: "byte list \<Rightarrow> nat \<Rightarrow> int \<Rightarrow> byte list option" where
  "put_long buf off i = put_bytes buf off (long2buff (word_of_int i))"

lemma length_long2buff [simp]: "length (long2buff n) = 8"
  by (simp add: long2buff_def)

lemma put_bytes_Some: "off + length bs \<le> length buf \<Longrightarrow> put_bytes buf off bs = Some (take off buf @ bs @ drop (off + length bs) buf)"
  by (simp add: put_bytes_def)

lemma put_bytes_length: "put_bytes buf off bs = Some buf' \<Longrightarrow> length buf' = length buf"
  by (auto simp: put_bytes_def split: if_splits)

lemma put_bytes_defined: "put_bytes buf off bs \<noteq> None \<longleftrightarrow> off + length bs \<le> length buf"
  by (simp add: put_bytes_def)

lemma get_put_same: "put_bytes buf off bs = Some buf' \<Longrightarrow> length bs = n \<Longrightarrow> get_bytes buf' off n = Some bs"
  by (auto simp: put_bytes_def get_bytes_def split: if_splits)

lemma get_put_other:
  assumes "put_bytes buf off bs = Some buf'" and "o' + n \<le> off \<or> off + length bs \<le> o'"
  shows "get_bytes buf' o' n = get_bytes buf o' n"
proof -
  have o: "off + length bs \<le> length buf" and b: "buf' = take off buf @ bs @ drop (off + length bs) buf"
    using assms(1) by (auto simp: put_bytes_def split: if_splits)
  have len: "length buf' = length buf" using assms(1) by (rule put_bytes_length)
  have "take n (drop o' buf') = take n (drop o' buf)" if "o' + n \<le> length buf"
  proof (rule nth_equalityI)
    show "length (take n (drop o' buf')) = length (take n (drop o' buf))" using len by simp
    fix i assume "i < length (take n (drop o' buf'))"
    then have i: "i < n" "o' + i < length buf" using that len by auto
    have "buf' ! (o' + i) = buf ! (o' + i)"
      using assms(2) i o by (auto simp: b nth_append)
    then show "take n (drop o' buf') ! i = take n (drop o' buf) ! i" using i len by simp
  qed
  then show ?thesis using len by (simp add: get_bytes_def)
qed

lemma get_put_long: "put_long buf off i = Some buf' \<Longrightarrow> in_s64 i \<Longrightarrow> get_long buf' off = Some i"
  using get_put_same [of buf off "long2buff (word_of_int i)" buf' 8]
  by (auto simp: put_long_def get_long_def buff2long_long2buff in_s64_def signed_take_bit_int_eq_self sint_sbintrunc')

lemma put_long_length: "put_long buf off i = Some buf' \<Longrightarrow> length buf' = length buf"
  by (auto simp: put_long_def dest: put_bytes_length)

lemma put_long_Some: "off + 8 \<le> length buf \<Longrightarrow> \<exists>buf'. put_long buf off i = Some buf'"
  by (simp add: put_long_def put_bytes_def)

subsection \<open>The header\<close>

record protocol_header =
  body_len :: u64
  h_cmd :: byte
  h_state :: byte

text \<open>The size of the union: ten bytes, padded to the alignment of its first member. Only ten bytes
  carry information.\<close>

definition header_size :: nat where "header_size = 16"

definition le64 :: "u64 \<Rightarrow> byte list" where
  "le64 w = rev (long2buff w)"

definition header_bytes :: "protocol_header \<Rightarrow> byte list" where
  "header_bytes h = le64 (body_len h) @ [h_cmd h, h_state h]"

definition put_header :: "byte list \<Rightarrow> protocol_header \<Rightarrow> byte list option" where
  "put_header buf h = put_bytes buf 0 (header_bytes h)"

definition get_header :: "byte list \<Rightarrow> protocol_header option" where
  "get_header buf = do {
     bs \<leftarrow> get_bytes buf 0 10;
     Some \<lparr>body_len = buff2long (rev (take 8 bs)), h_cmd = bs ! 8, h_state = bs ! 9\<rparr>
   }"

lemma length_header_bytes [simp]: "length (header_bytes h) = 10"
  by (simp add: header_bytes_def le64_def)

lemma header_of_bytes: "get_header (header_bytes h @ r) = Some h"
  by (simp add: get_header_def get_bytes_def header_bytes_def le64_def nth_append buff2long_long2buff)

lemma put_header_Some: "10 \<le> length buf \<Longrightarrow> put_header buf h = Some (header_bytes h @ drop 10 buf)"
  by (simp add: put_header_def put_bytes_def)

lemma put_header_eq: "put_header buf h = Some buf' \<Longrightarrow> buf' = header_bytes h @ drop 10 buf \<and> length buf' = length buf"
  by (auto simp: put_header_def put_bytes_def split: if_splits)

lemma put_header_length: "put_header buf h = Some buf' \<Longrightarrow> length buf' = length buf"
  using put_header_eq by blast

lemma get_put_header: "put_header buf h = Some buf' \<Longrightarrow> get_header buf' = Some h"
  using put_header_eq header_of_bytes by metis

lemma get_header_put_bytes: "put_bytes buf off bs = Some buf' \<Longrightarrow> 10 \<le> off \<Longrightarrow> get_header buf' = get_header buf"
  using get_put_other [of buf off bs buf' 0 10] by (simp add: get_header_def)

lemma get_header_put_long: "put_long buf off i = Some buf' \<Longrightarrow> 10 \<le> off \<Longrightarrow> get_header buf' = get_header buf"
  unfolding put_long_def by (rule get_header_put_bytes)

subsection \<open>Commands and results\<close>

datatype protocol_cmd =
  CMD_DATASERVER_REGISTER | CMD_DATASERVER_FULLSYNC | CMD_DATASERVER_HEARTBEAT | CMD_DATASERVER_SYNCREPORT
| CMD_DATASERVER_STATREPORT | CMD_DATASERVER_QUITED | CMD_WRITE_TRACKER_REQ | CMD_READ_TRACKER_REQ
| CMD_FILE_UPLOAD | CMD_FILE_DOWNLOAD | CMD_ASYNC_COPY_FILE | CMD_FULL_SYNC_GET_MASTER_BINLOG_METE
| CMD_FULL_SYNC_COPY_MASTER_BINLOG | CMD_FULL_SYNC_COPY_MASTER_DATA | CMD_TEST

fun cmd_code :: "protocol_cmd \<Rightarrow> byte" where
  "cmd_code CMD_DATASERVER_REGISTER = 0x01"
| "cmd_code CMD_DATASERVER_FULLSYNC = 0x02"
| "cmd_code CMD_DATASERVER_HEARTBEAT = 0x03"
| "cmd_code CMD_DATASERVER_SYNCREPORT = 0x04"
| "cmd_code CMD_DATASERVER_STATREPORT = 0x05"
| "cmd_code CMD_DATASERVER_QUITED = 0x0F"
| "cmd_code CMD_WRITE_TRACKER_REQ = 0x10"
| "cmd_code CMD_READ_TRACKER_REQ = 0x11"
| "cmd_code CMD_FILE_UPLOAD = 0x12"
| "cmd_code CMD_FILE_DOWNLOAD = 0x13"
| "cmd_code CMD_ASYNC_COPY_FILE = 0x31"
| "cmd_code CMD_FULL_SYNC_GET_MASTER_BINLOG_METE = 0x36"
| "cmd_code CMD_FULL_SYNC_COPY_MASTER_BINLOG = 0x37"
| "cmd_code CMD_FULL_SYNC_COPY_MASTER_DATA = 0x38"
| "cmd_code CMD_TEST = 0x99"

datatype protocol_resp_status =
  RS_SUCCESS | RS_ERROR | RS_ERROR_MEMORY | RS_ERROR_PACKAGESIZE_OVERFLOW | RS_ERROR_NONEDATASEVERBLOCKS
| RS_ERROR_NONEDATASEVERVOLUME | RS_ERROR_UNREGISTER | RS_SYNCSETTING_WAITING | RS_ERROR_DIO_THREADS_POLLING
| RS_ERROR_DIO_WRITE_DISK | RS_ERROR_MOUNT_BLOCK_MAP_INFO | RS_ERROR_FILEMETEDATA_PACK
| RS_ERROR_FILEMETEDATA_UNPACK | RS_ERROR_FILEID_INVALID | RS_ERROR_FILE_SIZE_GET
| RS_ERROR_FILEDOWNLOAD_OFFSET_INVALID | RS_ERROR_FILEDOWNLOAD_SIZE_INVALID | RS_ERROR_FILE_DOWNLOAD_DIO
| RS_ERROR_BINLOG_WRITE | RS_ERROR_SYNC_NO_BINLOGFILE | RS_ERROR_SYNC_STAT_BINLOGFILE
| RS_ERROR_SYNC_NO_BINLOGTYPE | RS_ERROR_SYNC_NO_DATAFILE | RS_ERROR_SYNC_STAT_DATAFILE
| RS_ERROR_NO_WRITE_DATASERVER | RS_ERROR_NO_READ_DATASERVER | RS_UNKONWN

fun status_code :: "protocol_resp_status \<Rightarrow> byte" where
  "status_code RS_SUCCESS = 0x00"
| "status_code RS_ERROR = 0x01"
| "status_code RS_ERROR_MEMORY = 0x02"
| "status_code RS_ERROR_PACKAGESIZE_OVERFLOW = 0x0B"
| "status_code RS_ERROR_NONEDATASEVERBLOCKS = 0x0C"
| "status_code RS_ERROR_NONEDATASEVERVOLUME = 0x0D"
| "status_code RS_ERROR_UNREGISTER = 0x0E"
| "status_code RS_SYNCSETTING_WAITING = 0x0F"
| "status_code RS_ERROR_DIO_THREADS_POLLING = 0x10"
| "status_code RS_ERROR_DIO_WRITE_DISK = 0x11"
| "status_code RS_ERROR_MOUNT_BLOCK_MAP_INFO = 0x1B"
| "status_code RS_ERROR_FILEMETEDATA_PACK = 0x21"
| "status_code RS_ERROR_FILEMETEDATA_UNPACK = 0x22"
| "status_code RS_ERROR_FILEID_INVALID = 0x23"
| "status_code RS_ERROR_FILE_SIZE_GET = 0x24"
| "status_code RS_ERROR_FILEDOWNLOAD_OFFSET_INVALID = 0x25"
| "status_code RS_ERROR_FILEDOWNLOAD_SIZE_INVALID = 0x26"
| "status_code RS_ERROR_FILE_DOWNLOAD_DIO = 0x27"
| "status_code RS_ERROR_BINLOG_WRITE = 0x30"
| "status_code RS_ERROR_SYNC_NO_BINLOGFILE = 0x35"
| "status_code RS_ERROR_SYNC_STAT_BINLOGFILE = 0x36"
| "status_code RS_ERROR_SYNC_NO_BINLOGTYPE = 0x37"
| "status_code RS_ERROR_SYNC_NO_DATAFILE = 0x38"
| "status_code RS_ERROR_SYNC_STAT_DATAFILE = 0x39"
| "status_code RS_ERROR_NO_WRITE_DATASERVER = 0x40"
| "status_code RS_ERROR_NO_READ_DATASERVER = 0x41"
| "status_code RS_UNKONWN = 0x99"

lemma status_code_0_iff: "status_code s = 0 \<longleftrightarrow> s = RS_SUCCESS"
  by (cases s) simp_all

lemma cmd_code_inject [simp]: "cmd_code a = cmd_code b \<longleftrightarrow> a = b"
  by (cases a; cases b) simp_all

lemma status_code_inject [simp]: "status_code a = status_code b \<longleftrightarrow> a = b"
  by (cases a; cases b) simp_all

subsection \<open>Bodies\<close>

text \<open>A structure of character arrays is the list of its fields with their sizes.\<close>

type_synonym layout = "(string \<times> nat) list"

definition size_of :: "layout \<Rightarrow> nat" where
  "size_of l = sum_list (map snd l)"

primrec field_off :: "layout \<Rightarrow> string \<Rightarrow> nat" where
  "field_off [] f = 0"
| "field_off (x # l) f = (if fst x = f then 0 else snd x + field_off l f)"

definition IP_ADDRESS_SIZE :: nat where "IP_ADDRESS_SIZE = 16"
definition LFS_DATASERVER_MAP_INFO_SIZE :: nat where "LFS_DATASERVER_MAP_INFO_SIZE = 33"
definition LFS_FILE_NAME_SIZE :: nat where "LFS_FILE_NAME_SIZE = 128"
definition LFS_FILE_ID_SIZE :: nat where "LFS_FILE_ID_SIZE = 256"
definition LFS_B64_FILE_ID_SIZE :: nat where "LFS_B64_FILE_ID_SIZE = 256"

lemmas size_defs = IP_ADDRESS_SIZE_def LFS_DATASERVER_MAP_INFO_SIZE_def LFS_FILE_NAME_SIZE_def LFS_FILE_ID_SIZE_def LFS_B64_FILE_ID_SIZE_def

definition datasevr_reg_body_req :: layout where
  "datasevr_reg_body_req =
     [(''map_info'', LFS_DATASERVER_MAP_INFO_SIZE + 1), (''ds_ipaddr'', IP_ADDRESS_SIZE), (''ds_port'', 8), (''weight'', 8),
      (''heart_beat_interval'', 8), (''reg_time'', 8), (''started_time'', 8)]"

definition datasevr_fullsyncreq_body_req :: layout where
  "datasevr_fullsyncreq_body_req = [(''map_info'', LFS_DATASERVER_MAP_INFO_SIZE + 1), (''ds_ipaddr'', IP_ADDRESS_SIZE)]"

definition datasevr_masterblock_body_resp :: layout where
  "datasevr_masterblock_body_resp = [(''master_ipaddr'', IP_ADDRESS_SIZE), (''master_port'', 8), (''full_sync_opver'', 8)]"

definition datasevr_heartbeat_body_req :: layout where
  "datasevr_heartbeat_body_req = [(''map_info'', LFS_DATASERVER_MAP_INFO_SIZE + 1), (''ds_ipaddr'', IP_ADDRESS_SIZE)]"

definition datasevr_syncreport_body_req :: layout where
  "datasevr_syncreport_body_req =
     [(''map_info'', LFS_DATASERVER_MAP_INFO_SIZE + 1), (''ds_ipaddr'', IP_ADDRESS_SIZE), (''last_sync_sequence'', 8)]"

definition datasevr_statreport_body_req :: layout where
  "datasevr_statreport_body_req =
     [(''map_info'', LFS_DATASERVER_MAP_INFO_SIZE + 1), (''ds_ipaddr'', IP_ADDRESS_SIZE), (''conns'', 8), (''total_mb'', 8),
      (''free_mb'', 8)]"

definition datasevr_quited_body_req :: layout where
  "datasevr_quited_body_req = [(''map_info'', LFS_DATASERVER_MAP_INFO_SIZE + 1), (''ds_ipaddr'', IP_ADDRESS_SIZE)]"

definition block_brief_info_resp :: layout where
  "block_brief_info_resp = [(''state'', 8), (''ds_ipaddr'', IP_ADDRESS_SIZE), (''ds_port'', 8), (''last_sync_sequence'', 8)]"

definition lfs_tracker_resp :: layout where
  "lfs_tracker_resp = [(''block_ipaddr'', IP_ADDRESS_SIZE), (''block_port'', 8)]"

definition lfs_read_tracker_req :: layout where
  "lfs_read_tracker_req = [(''map_info'', LFS_DATASERVER_MAP_INFO_SIZE), (''file_timestamp'', 8)]"

definition lfs_fileupload_req :: layout where
  "lfs_fileupload_req = [(''file_name'', LFS_FILE_NAME_SIZE), (''file_size'', 8), (''file_total_size'', 8)]"

definition lfs_fileupload_resp :: layout where
  "lfs_fileupload_resp = [(''file_b64_id'', LFS_B64_FILE_ID_SIZE)]"

definition lfs_filedownload_req :: layout where
  "lfs_filedownload_req = [(''file_offset'', 8), (''download_size'', 8), (''mnt_block_index'', 8), (''file_map_name'', LFS_FILE_ID_SIZE)]"

definition lfs_filedownload_resp :: layout where
  "lfs_filedownload_resp = [(''download_size'', 8)]"

lemmas layout_defs = size_of_def size_defs datasevr_reg_body_req_def datasevr_fullsyncreq_body_req_def
  datasevr_masterblock_body_resp_def datasevr_heartbeat_body_req_def datasevr_syncreport_body_req_def
  datasevr_statreport_body_req_def datasevr_quited_body_req_def block_brief_info_resp_def
  lfs_tracker_resp_def lfs_read_tracker_req_def lfs_fileupload_req_def lfs_fileupload_resp_def
  lfs_filedownload_req_def lfs_filedownload_resp_def

text \<open>Fields of a structure do not overlap: this is what makes writing the fields one after the other
  work.\<close>

lemma field_off_bound: "(f, n) \<in> set l \<Longrightarrow> distinct (map fst l) \<Longrightarrow> field_off l f + n \<le> size_of l"
  by (induction l) (auto simp: size_of_def image_iff)

lemma field_off_disjoint:
  assumes "(f, n) \<in> set l" and "(g, k) \<in> set l" and "f \<noteq> g" and "distinct (map fst l)"
  shows "field_off l f + n \<le> field_off l g \<or> field_off l g + k \<le> field_off l f"
  using assms
proof (induction l)
  case (Cons x l)
  then show ?case by (auto simp: image_iff)
qed simp

subsection \<open>Properties\<close>

text \<open>A header that is written into a buffer is read back unchanged, also after the body behind it has been
  written, and no two commands and no two results have the same code on the wire.\<close>

theorem header_roundtrip:
  assumes "header_size + length body \<le> length buf"
  shows "\<exists>buf1 buf2. put_header buf h = Some buf1 \<and> put_bytes buf1 header_size body = Some buf2 \<and>
    get_header buf2 = Some h \<and> get_bytes buf2 header_size (length body) = Some body \<and> length buf2 = length buf \<and>
    inj cmd_code \<and> inj status_code"
proof -
  have "10 \<le> length buf" using assms by (simp add: header_size_def)
  then obtain buf1 where b1: "put_header buf h = Some buf1" using put_header_Some by blast
  have l1: "length buf1 = length buf" using b1 by (rule put_header_length)
  then obtain buf2 where b2: "put_bytes buf1 header_size body = Some buf2"
    using put_bytes_Some [of header_size body buf1] assms by auto
  have "get_header buf2 = Some h"
    using get_header_put_bytes [OF b2] get_put_header [OF b1] by (simp add: header_size_def)
  then show ?thesis
    using b1 b2 l1 put_bytes_length [OF b2] get_put_same [OF b2 refl] by (auto simp: inj_def)
qed

theorem header_roundtrip_witness:
  "\<exists>buf1 buf2. put_header (replicate 20 0) \<lparr>body_len = 4, h_cmd = 3, h_state = 0\<rparr> = Some buf1 \<and>
    put_bytes buf1 header_size [1, 2, 3, 4] = Some buf2 \<and> get_header buf2 = Some \<lparr>body_len = 4, h_cmd = 3, h_state = 0\<rparr>"
  using header_roundtrip [of "[1, 2, 3, 4]" "replicate 20 0" "\<lparr>body_len = 4, h_cmd = 3, h_state = 0\<rparr>"]
  by (auto simp: header_size_def)

end
