(* ===== verification/Net_Io.thy ===== *)
theory Net_Io
  imports Lfs_Protocol
begin

text \<open>
  What both servers see of sockets, of libevent and of the allocator: \<open>sys\<close> gives the answer to call
  number \<open>k\<close>, so that a theorem over all \<open>sys\<close> covers every behaviour of the network and of the kernel.
\<close>

text \<open>The answers of the system: a read gives at most the bytes that were asked for.\<close>

datatype read_result = R_data "byte list" | R_again | R_error

datatype write_result = W_sent nat | W_again | W_error

record sys =
  sys_read :: "nat \<Rightarrow> nat \<Rightarrow> read_result"
  sys_write :: "nat \<Rightarrow> byte list \<Rightarrow> write_result"
  sys_event :: "nat \<Rightarrow> int"
  sys_mem :: "nat \<Rightarrow> bool"

definition EV_READ :: int where "EV_READ = 2"
definition EV_WRITE :: int where "EV_WRITE = 4"
definition EV_PERSIST :: int where "EV_PERSIST = 16"

text \<open>The socket never delivers more than it is asked for.\<close>

definition sys_ok :: "sys \<Rightarrow> bool" where
  "sys_ok sy \<longleftrightarrow> (\<forall>k n bs. sys_read sy k n = R_data bs \<longrightarrow> length bs \<le> n) \<and>
     (\<forall>k bs n. sys_write sy k bs = W_sent n \<longrightarrow> n \<le> length bs)"

end
