(* ===== verification/Ts_Conn.thy ===== *)
theory Ts_Conn
  imports Conn_Queue Net_Io
begin

text \<open>
  The connections of the tracker (\<open>src/trackerserver/ts_conn.c\<close>): the pool of items that hand an
  accepted socket over to a worker thread, and the connection objects with their buffers. A
  connection object is identified with its descriptor, the index of \<open>conns\<close> that holds it. The
  pointers \<open>rcurr\<close> and \<open>wcurr\<close> are offsets into the buffers. What libevent and the kernel answer
  (\<open>event_add\<close>, \<open>event_del\<close>, \<open>read\<close>, \<open>write\<close>, \<open>realloc\<close>) is an argument: \<open>sys\<close> gives the result of call
  number \<open>k\<close>.
\<close>

subsection \<open>The pool of items\<close>

definition CONN_ITEMS_PER_ALLOC :: nat where "CONN_ITEMS_PER_ALLOC = 64"

datatype conn_states = conn_parse_cmd | conn_read | conn_nread | conn_write | conn_waiting | conn_closed

record conn_item =
  ci_sfd :: int
  ci_init_state :: conn_states
  ci_event_flags :: int

definition zero_item :: conn_item where
  "zero_item = \<lparr>ci_sfd = 0, ci_init_state = conn_parse_cmd, ci_event_flags = 0\<rparr>"

definition zero_link :: list_head where
  "zero_link = \<lparr>lh_next = NULL, lh_prev = NULL\<rparr>"

record pool =
  freecitems :: nat
  p_links :: links
  p_items :: "conn_item heap"

text \<open>\<open>memset(item, 0, sizeof(conn_item))\<close> clears the fields and the link.\<close>

definition clear_item :: "nat \<Rightarrow> pool \<Rightarrow> pool" where
  "clear_item x p = p\<lparr>p_items := store x zero_item (p_items p), p_links := (p_links p)(x \<mapsto> zero_link)\<rparr>"

definition push_item :: "nat \<Rightarrow> nat \<Rightarrow> pool \<Rightarrow> pool option" where
  "push_item h x p = do { (s, _) \<leftarrow> conn_item_queue_push (p_links p, h) x; Some (p\<lparr>p_links := s\<rparr>) }"

definition pop_item :: "nat \<Rightarrow> pool \<Rightarrow> (nat \<times> pool) option" where
  "pop_item h p = do { (x, s, _) \<leftarrow> conn_item_queue_pop (p_links p, h); Some (x, p\<lparr>p_links := s\<rparr>) }"

text \<open>\<open>malloc\<close> of an array of items.\<close>

definition items_alloc :: "nat \<Rightarrow> pool \<Rightarrow> nat \<times> pool" where
  "items_alloc n p =
     (let h = p_items p; b = brk h in
      if oom h (nalloc h) then (NULL, p\<lparr>p_items := h\<lparr>nalloc := Suc (nalloc h)\<rparr>\<rparr>)
      else (b, p\<lparr>p_items := h\<lparr>cells := (\<lambda>x. if b \<le> x \<and> x < b + n then Some zero_item else cells h x),
                                brk := b + n, nalloc := Suc (nalloc h)\<rparr>,
                  p_links := (\<lambda>x. if b \<le> x \<and> x < b + n then Some zero_link else p_links p x)\<rparr>))"

text \<open>The loop over the new items; the first one is handed out, the last one is not queued.\<close>

primrec push_new_items :: "nat list \<Rightarrow> pool \<Rightarrow> pool option" where
  "push_new_items [] p = Some p"
| "push_new_items (x # xs) p = do { p \<leftarrow> push_item (freecitems p) x (clear_item x p); push_new_items xs p }"

definition conn_item_new :: "pool \<Rightarrow> (nat \<times> pool) option" where
  "conn_item_new p = do {
     (item, p) \<leftarrow> pop_item (freecitems p) p;
     if item \<noteq> NULL then Some (item, clear_item item p)
     else let (items, p) = items_alloc CONN_ITEMS_PER_ALLOC p in
       if items = NULL then Some (NULL, p)
       else do {
         p \<leftarrow> push_new_items [items + 1 ..< items + (CONN_ITEMS_PER_ALLOC - 1)] p;
         Some (items, clear_item items p)
       }
   }"

definition conn_item_free :: "nat \<Rightarrow> pool \<Rightarrow> pool option" where
  "conn_item_free item p = (if item = NULL then Some p else push_item (freecitems p) item (clear_item item p))"

subsection \<open>Connections\<close>

record conn =
  c_sfd :: int
  c_state :: conn_states
  c_writeto :: conn_states
  c_event_flags :: int
  c_which :: int
  rbuff :: "byte list"
  rcurr :: nat
  rsize :: nat
  rbytes :: int
  rlbytes :: int
  wbuff :: "byte list"
  wcurr :: nat
  wsize :: nat
  wbytes :: int
  wused :: int

definition fresh_conn :: "int \<Rightarrow> nat \<Rightarrow> conn" where
  "fresh_conn sfd n =
     \<lparr>c_sfd = sfd, c_state = conn_parse_cmd, c_writeto = conn_parse_cmd, c_event_flags = 0, c_which = 0,
      rbuff = replicate n 0, rcurr = 0, rsize = n, rbytes = 0, rlbytes = 0,
      wbuff = replicate n 0, wcurr = 0, wsize = n, wbytes = 0, wused = 0\<rparr>"

text \<open>\<open>conn_new\<close>: the assertion on the descriptor gives \<open>None\<close>; the result is whether an object was
  returned. Fields that the source leaves uninitialised have an arbitrary value here.\<close>

definition conn_new ::
  "sys \<Rightarrow> int \<Rightarrow> int \<Rightarrow> conn_states \<Rightarrow> nat \<Rightarrow> int \<Rightarrow> (int \<rightharpoonup> conn) \<Rightarrow> nat \<Rightarrow> (bool \<times> (int \<rightharpoonup> conn) \<times> nat) option" where
  "conn_new sy max_fds sfd init_state buff_size event_flags conns k =
     (if \<not> (0 \<le> sfd \<and> sfd < max_fds) then None
      else
        let (c, conns, k) =
          (case conns sfd of
             Some c \<Rightarrow> (Some c, conns, k)
           | None \<Rightarrow>
               if \<not> sys_mem sy k then (None, conns, k + 1)
               else if \<not> sys_mem sy (k + 1) \<or> \<not> sys_mem sy (k + 2) then (None, conns(sfd := None), k + 3)
               else let c = fresh_conn sfd buff_size in (Some c, conns(sfd \<mapsto> c), k + 3)) in
        case c of
          None \<Rightarrow> Some (False, conns, k)
        | Some c \<Rightarrow>
            let c = c\<lparr>c_state := init_state, rbytes := 0, wbytes := 0, c_which := 0, wused := 0, rcurr := 0, wcurr := 0,
                      c_event_flags := event_flags\<rparr>
            in Some (sys_event sy k \<noteq> -1, conns(sfd \<mapsto> c), k + 1))"

definition set_conn_state :: "conn_states \<Rightarrow> conn \<Rightarrow> conn" where
  "set_conn_state st c = (if st \<noteq> c_state c then c\<lparr>c_state := st\<rparr> else c)"

definition conn_clean :: "conn \<Rightarrow> conn" where
  "conn_clean c = c\<lparr>rbytes := 0, rlbytes := 0, wbytes := 0, wused := 0, rcurr := 0, wcurr := 0\<rparr>"

definition conn_reset :: "conn \<Rightarrow> conn" where
  "conn_reset c =
     c\<lparr>rbuff := replicate (rsize c) 0, wbuff := replicate (wsize c) 0,
       rbytes := 0, rlbytes := 0, wbytes := 0, wused := 0, rcurr := 0, wcurr := 0\<rparr>"

definition update_conn_event :: "sys \<Rightarrow> int \<Rightarrow> conn \<Rightarrow> nat \<Rightarrow> int \<times> conn \<times> nat" where
  "update_conn_event sy flags c k =
     (if c_event_flags c = flags then (0, c, k)
      else if sys_event sy k = LFS_ERROR then (LFS_ERROR, c, k + 1)
      else
        let c = c\<lparr>c_event_flags := flags\<rparr> in
        if sys_event sy (k + 1) = LFS_ERROR then (LFS_ERROR, c, k + 2) else (LFS_OK, c, k + 2))"

definition del_conn_event :: "sys \<Rightarrow> nat \<Rightarrow> int \<times> nat" where
  "del_conn_event sy k = (if sys_event sy k = LFS_ERROR then LFS_ERROR else LFS_OK, k + 1)"

text \<open>\<open>conn_close\<close> keeps the object in \<open>conns\<close> for the next connection with the same descriptor; the
  descriptor is closed and the number of connections goes down.\<close>

definition conn_close :: "conn \<Rightarrow> u32 \<Rightarrow> nat \<Rightarrow> conn \<times> u32 \<times> nat" where
  "conn_close c curr_conns k = (set_conn_state conn_closed (conn_clean c), curr_conns - 1, k + 1)"

definition conn_free :: "int \<Rightarrow> int \<Rightarrow> (int \<rightharpoonup> conn) \<Rightarrow> (int \<rightharpoonup> conn) option" where
  "conn_free max_fds sfd conns = (if 0 \<le> sfd \<and> sfd < max_fds then Some (conns(sfd := None)) else None)"

subsection \<open>The queues of items\<close>

text \<open>\<open>H\<close> is the set of the heads of all queues that share the items (the free items and the queues of
  the worker threads); \<open>q h\<close> is the content of the queue \<open>h\<close>. An item is in at most one queue.\<close>

definition pool_inv :: "pool \<Rightarrow> nat set \<Rightarrow> (nat \<Rightarrow> nat list) \<Rightarrow> bool" where
  "pool_inv p H q \<longleftrightarrow>
     heap_ok (p_items p) \<and> dom (cells (p_items p)) \<subseteq> dom (p_links p) \<and> freecitems p \<in> H \<and>
     (\<forall>h \<in> H. dlist (p_links p) h (q h) \<and> set (q h) \<subseteq> dom (cells (p_items p)) \<and>
        cells (p_items p) h = None \<and> h < brk (p_items p)) \<and>
     (\<forall>h \<in> H. \<forall>g \<in> H. h \<noteq> g \<longrightarrow> set (q h) \<inter> set (q g) = {})"

definition queued :: "nat set \<Rightarrow> (nat \<Rightarrow> nat list) \<Rightarrow> nat set" where
  "queued H q = (\<Union>h \<in> H. set (q h))"

lemma queued_push: "h \<in> H \<Longrightarrow> queued H (q(h := q h @ xs)) = queued H q \<union> set xs"
  by (auto simp: queued_def split: if_splits)

lemma pool_invD:
  assumes "pool_inv p H q" and "h \<in> H"
  shows "dlist (p_links p) h (q h)" "set (q h) \<subseteq> dom (cells (p_items p))" "cells (p_items p) h = None" "h < brk (p_items p)"
  using assms by (simp_all add: pool_inv_def)

lemma pool_inv_disj: "pool_inv p H q \<Longrightarrow> h \<in> H \<Longrightarrow> g \<in> H \<Longrightarrow> h \<noteq> g \<Longrightarrow> set (q h) \<inter> set (q g) = {}"
  by (simp add: pool_inv_def)

text \<open>A change of the links of one queue and of one item.\<close>

lemma pool_inv_relink:
  assumes inv: "pool_inv p H q" and h: "h \<in> H" and d: "dlist s h ys" "dom s = dom (p_links p)"
    and fr: "\<forall>y. y \<notin> insert h (set (q h) \<union> set ys) \<longrightarrow> s y = p_links p y"
    and ys: "set ys \<subseteq> dom (cells (p_items p))" "\<forall>g \<in> H - {h}. set ys \<inter> set (q g) = {}"
  shows "pool_inv (p\<lparr>p_links := s\<rparr>) H (q(h := ys))"
proof -
  have "dlist s g (q g)" if g: "g \<in> H" "g \<noteq> h" for g
  proof (rule dlist_cong [OF pool_invD(1) [OF inv g(1)]])
    fix y assume y: "y \<in> set (g # q g)"
    have "set (q h) \<inter> set (q g) = {}" "set ys \<inter> set (q g) = {}" using inv h g ys(2) unfolding pool_inv_def by auto
    moreover have "g \<notin> set (q h)" "g \<notin> set ys" "h \<notin> set (q g)"
      using pool_invD(2,3) [OF inv g(1)] pool_invD(2,3) [OF inv h] ys(1) by auto
    ultimately have "y \<notin> insert h (set (q h) \<union> set ys)" using y g(2) by auto
    then show "s y = p_links p y" using fr by blast
  qed
  then show ?thesis using inv d ys unfolding pool_inv_def by (auto simp: h)
qed

lemma push_item_ok:
  assumes inv: "pool_inv p H q" and h: "h \<in> H" and x: "x \<in> dom (cells (p_items p))" "x \<notin> queued H q"
  shows "\<exists>s. push_item h x p = Some (p\<lparr>p_links := s\<rparr>) \<and> pool_inv (p\<lparr>p_links := s\<rparr>) H (q(h := q h @ [x]))"
proof -
  have "x \<notin> set (h # q h)" "p_links p x \<noteq> None"
    using x h pool_invD(3) [OF inv h] inv by (auto simp: queued_def pool_inv_def)
  then obtain s where s: "conn_item_queue_push (p_links p, h) x = Some (s, h)" "dlist s h (q h @ [x])"
    "\<forall>y. y \<notin> set (h # q h @ [x]) \<longrightarrow> s y = p_links p y" "dom s = dom (p_links p)"
    using push_ok [OF pool_invD(1) [OF inv h]] by blast
  have "pool_inv (p\<lparr>p_links := s\<rparr>) H (q(h := q h @ [x]))"
  proof (rule pool_inv_relink [OF inv h s(2,4)])
    show "\<forall>g \<in> H - {h}. set (q h @ [x]) \<inter> set (q g) = {}"
      using pool_inv_disj [OF inv h] x(2) by (auto simp: queued_def)
  qed (use s(3) x(1) pool_invD(2) [OF inv h] in auto)
  then show ?thesis using s(1) by (intro exI [of _ s]) (simp add: push_item_def)
qed

lemma pop_item_ok:
  assumes inv: "pool_inv p H q" and h: "h \<in> H" "q h = x # xs"
  shows "\<exists>s. pop_item h p = Some (x, p\<lparr>p_links := s\<rparr>) \<and> pool_inv (p\<lparr>p_links := s\<rparr>) H (q(h := xs)) \<and>
    x \<in> dom (cells (p_items p)) \<and> x \<notin> queued H (q(h := xs)) \<and> x \<noteq> NULL"
proof -
  have d: "dlist (p_links p) h (x # xs)" using pool_invD(1) [OF inv h(1)] h(2) by simp
  then obtain s where s: "conn_item_queue_pop (p_links p, h) = Some (x, s, h)" "dlist s h xs"
    "\<forall>y. y \<notin> set (h # x # xs) \<longrightarrow> s y = p_links p y" "dom s = dom (p_links p)" using pop_ok by blast
  have dis: "\<forall>g \<in> H - {h}. set (x # xs) \<inter> set (q g) = {}" using pool_inv_disj [OF inv h(1)] h(2) by auto
  have "pool_inv (p\<lparr>p_links := s\<rparr>) H (q(h := xs))"
    by (rule pool_inv_relink [OF inv h(1) s(2,4)]) (use s(3) dis h(2) pool_invD(2) [OF inv h(1)] in auto)
  moreover have "x \<notin> queued H (q(h := xs))" using dis d by (auto simp: queued_def dlist_def)
  moreover have "x \<in> dom (cells (p_items p))" using pool_invD(2) [OF inv h(1)] h(2) by auto
  moreover have "x \<noteq> NULL" using \<open>x \<in> dom (cells (p_items p))\<close> inv by (auto simp: pool_inv_def heap_ok_def)
  ultimately show ?thesis using s(1) by (intro exI [of _ s]) (simp add: pop_item_def)
qed

lemma pop_item_empty: "pool_inv p H q \<Longrightarrow> h \<in> H \<Longrightarrow> q h = [] \<Longrightarrow> pop_item h p = Some (NULL, p)"
  using pop_empty [of "p_links p" h] pool_invD(1) [of p H q h] by (simp add: pop_item_def)

lemma clear_item_ok:
  assumes inv: "pool_inv p H q" and x: "x \<in> dom (cells (p_items p))" "x \<notin> queued H q"
  shows "pool_inv (clear_item x p) H q"
proof -
  have "dlist ((p_links p)(x \<mapsto> zero_link)) h (q h)" if h: "h \<in> H" for h
    by (rule dlist_cong [OF pool_invD(1) [OF inv h]]) (use h x pool_invD(3) [OF inv h] in \<open>auto simp: queued_def\<close>)
  moreover have "heap_ok (store x zero_item (p_items p))" using inv x(1) by (intro heap_ok_store) (simp add: pool_inv_def)
  moreover have "h \<noteq> x" if "h \<in> H" for h using pool_invD(3) [OF inv that] x(1) by auto
  moreover have "brk (store x zero_item (p_items p)) = brk (p_items p)" by (simp add: store_def)
  ultimately show ?thesis using inv unfolding pool_inv_def by (auto simp: clear_item_def mem_simps)
qed

lemma items_alloc_ok:
  assumes inv: "pool_inv p H q" and a: "items_alloc n p = (b, p')" "b \<noteq> NULL"
  shows "pool_inv p' H q" "freecitems p' = freecitems p" "b = brk (p_items p)"
    "cells (p_items p') = (\<lambda>x. if b \<le> x \<and> x < b + n then Some zero_item else cells (p_items p) x)"
    "b \<le> x \<Longrightarrow> cells (p_items p) x = None"
proof -
  have b: "b = brk (p_items p)" "freecitems p' = freecitems p" "brk (p_items p') = b + n"
    "cells (p_items p') = (\<lambda>x. if b \<le> x \<and> x < b + n then Some zero_item else cells (p_items p) x)"
    "p_links p' = (\<lambda>x. if b \<le> x \<and> x < b + n then Some zero_link else p_links p x)"
    using a by (auto simp: items_alloc_def Let_def split: if_splits)
  then show "b = brk (p_items p)" "freecitems p' = freecitems p"
    "cells (p_items p') = (\<lambda>x. if b \<le> x \<and> x < b + n then Some zero_item else cells (p_items p) x)" by simp_all
  have dom: "x < b" if "x \<in> dom (cells (p_items p))" for x using that inv b(1) unfolding pool_inv_def heap_ok_def by blast
  then show "b \<le> x \<Longrightarrow> cells (p_items p) x = None" by fastforce
  have "dlist (p_links p') h (q h)" if h: "h \<in> H" for h
  proof (rule dlist_cong [OF pool_invD(1) [OF inv h]])
    fix y assume "y \<in> set (h # q h)"
    then have "y < b" using pool_invD(2,4) [OF inv h] dom b(1) by auto
    then show "p_links p' y = p_links p y" by (simp add: b(5))
  qed
  moreover have "heap_ok (p_items p')"
    using inv b dom by (fastforce simp: pool_inv_def heap_ok_def split: if_splits)
  moreover have "set (q h) \<subseteq> dom (cells (p_items p'))" "cells (p_items p') h = None" "h < brk (p_items p')" if "h \<in> H" for h
    using pool_invD(2-4) [OF inv that] b(1,3) by (auto simp: b(4))
  moreover have "freecitems p' \<in> H" using inv b(2) by (simp add: pool_inv_def)
  moreover have "cells (p_items p) x \<noteq> None \<Longrightarrow> p_links p x \<noteq> None" for x using inv unfolding pool_inv_def by blast
  then have "dom (cells (p_items p')) \<subseteq> dom (p_links p')" by (auto simp: b(4,5) split: if_splits)
  ultimately show "pool_inv p' H q" using inv unfolding pool_inv_def by simp
qed

lemma push_new_items_ok:
  "pool_inv p H q \<Longrightarrow> distinct xs \<Longrightarrow> set xs \<subseteq> dom (cells (p_items p)) \<Longrightarrow> set xs \<inter> queued H q = {} \<Longrightarrow>
   \<exists>p'. push_new_items xs p = Some p' \<and> pool_inv p' H (q(freecitems p := q (freecitems p) @ xs)) \<and>
     freecitems p' = freecitems p \<and> dom (cells (p_items p')) = dom (cells (p_items p)) \<and>
     (\<forall>y. y \<notin> set xs \<longrightarrow> cells (p_items p') y = cells (p_items p) y) \<and> oom (p_items p') = oom (p_items p)"
proof (induction xs arbitrary: p q)
  case Nil
  then show ?case by simp
next
  case (Cons x xs)
  let ?h = "freecitems p" and ?p = "clear_item x p"
  have h: "?h \<in> H" using Cons.prems(1) by (simp add: pool_inv_def)
  have x: "x \<in> dom (cells (p_items p))" "x \<notin> queued H q" using Cons.prems(3,4) by auto
  have c: "pool_inv ?p H q" by (rule clear_item_ok [OF Cons.prems(1) x])
  have f: "freecitems ?p = ?h" "dom (cells (p_items ?p)) = dom (cells (p_items p))" "oom (p_items ?p) = oom (p_items p)"
    "\<forall>y. y \<noteq> x \<longrightarrow> cells (p_items ?p) y = cells (p_items p) y"
    using x(1) by (auto simp: clear_item_def mem_simps store_def)
  obtain s where s: "push_item ?h x ?p = Some (?p\<lparr>p_links := s\<rparr>)" "pool_inv (?p\<lparr>p_links := s\<rparr>) H (q(?h := q ?h @ [x]))"
    using push_item_ok [OF c h _ x(2)] x(1) f(2) by auto
  define p1 where "p1 = ?p\<lparr>p_links := s\<rparr>"
  define q1 where "q1 = q(?h := q ?h @ [x])"
  have p1: "freecitems p1 = ?h" "p_items p1 = p_items ?p" using f(1) by (simp_all add: p1_def)
  have q1: "q1(?h := q1 ?h @ xs) = q(?h := q ?h @ x # xs)" by (simp add: q1_def fun_eq_iff)
  have i1: "pool_inv p1 H q1" using s(2) by (simp add: p1_def q1_def)
  have d1: "distinct xs" "set xs \<subseteq> dom (cells (p_items p1))" using Cons.prems(2,3) f(2) p1(2) by auto
  have e1: "set xs \<inter> queued H q1 = {}" using Cons.prems(2,4) unfolding q1_def queued_push [OF h] by auto
  obtain p' where r: "push_new_items xs p1 = Some p'" "pool_inv p' H (q1(freecitems p1 := q1 (freecitems p1) @ xs))"
    "freecitems p' = freecitems p1" "dom (cells (p_items p')) = dom (cells (p_items p1))"
    "\<forall>y. y \<notin> set xs \<longrightarrow> cells (p_items p') y = cells (p_items p1) y" "oom (p_items p') = oom (p_items p1)"
    using Cons.IH [OF i1 d1 e1] by blast
  have "push_new_items (x # xs) p = Some p'" using s(1) r(1) by (simp add: p1_def)
  moreover have "pool_inv p' H (q(?h := q ?h @ x # xs))" using r(2) q1 p1(1) by simp
  moreover have "freecitems p' = ?h" "dom (cells (p_items p')) = dom (cells (p_items p))"
    "\<forall>y. y \<notin> set (x # xs) \<longrightarrow> cells (p_items p') y = cells (p_items p) y" "oom (p_items p') = oom (p_items p)"
    using r(3-6) f(2-4) p1 by simp_all
  ultimately show ?case by blast
qed

lemma conn_item_new_ok:
  assumes inv: "pool_inv p H q"
  shows "\<exists>x p' ys. conn_item_new p = Some (x, p') \<and> pool_inv p' H (q(freecitems p := ys)) \<and> freecitems p' = freecitems p \<and>
    (oom (p_items p) = (\<lambda>_. False) \<longrightarrow> x \<noteq> NULL \<and> oom (p_items p') = (\<lambda>_. False)) \<and>
    (x \<noteq> NULL \<longrightarrow> cells (p_items p') x = Some zero_item \<and> x \<notin> queued H (q(freecitems p := ys)) \<and>
      (x \<in> set (q (freecitems p)) \<or> cells (p_items p) x = None)) \<and>
    (\<forall>y. y \<noteq> x \<longrightarrow> y \<notin> set (q (freecitems p)) \<longrightarrow> cells (p_items p) y \<noteq> None \<longrightarrow> cells (p_items p') y = cells (p_items p) y)"
proof (cases "q (freecitems p)")
  case (Cons x ys)
  let ?h = "freecitems p"
  have h: "?h \<in> H" using inv by (simp add: pool_inv_def)
  obtain s where s: "pop_item ?h p = Some (x, p\<lparr>p_links := s\<rparr>)" "pool_inv (p\<lparr>p_links := s\<rparr>) H (q(?h := ys))"
    "x \<in> dom (cells (p_items p))" "x \<notin> queued H (q(?h := ys))" "x \<noteq> NULL" using pop_item_ok [OF inv h Cons] by blast
  have "pool_inv (clear_item x (p\<lparr>p_links := s\<rparr>)) H (q(?h := ys))"
    by (rule clear_item_ok [OF s(2)]) (use s(3,4) in auto)
  then show ?thesis using s Cons
    by (intro exI [of _ x] exI [of _ "clear_item x (p\<lparr>p_links := s\<rparr>)"] exI [of _ ys])
      (auto simp: conn_item_new_def clear_item_def mem_simps store_def)
next
  case Nil
  let ?h = "freecitems p" and ?n = CONN_ITEMS_PER_ALLOC
  have h: "?h \<in> H" using inv by (simp add: pool_inv_def)
  have pe: "pop_item ?h p = Some (NULL, p)" by (rule pop_item_empty [OF inv h Nil])
  obtain b p1 where a: "items_alloc ?n p = (b, p1)" by fastforce
  have bo: "b \<noteq> NULL" if "oom (p_items p) = (\<lambda>_. False)"
    using a inv that by (auto simp: items_alloc_def Let_def pool_inv_def heap_ok_def)
  show ?thesis
  proof (cases "b = NULL")
    case True
    have e: "p1 = p\<lparr>p_items := (p_items p)\<lparr>nalloc := Suc (nalloc (p_items p))\<rparr>\<rparr>"
      using a True inv by (auto simp: items_alloc_def Let_def pool_inv_def heap_ok_def split: if_splits)
    have p1: "cells (p_items p1) = cells (p_items p)" "freecitems p1 = ?h" "pool_inv p1 H q"
      using inv unfolding e pool_inv_def heap_ok_def by simp_all
    have "conn_item_new p = Some (NULL, p1)" using pe a True by (simp add: conn_item_new_def)
    moreover have "q(?h := []) = q" using Nil by (simp add: fun_upd_idem)
    ultimately show ?thesis using True p1 Nil bo by (intro exI [of _ NULL] exI [of _ p1] exI [of _ "[]"]) auto
  next
    case False
    note al = items_alloc_ok [OF inv a False]
    let ?xs = "[b + 1 ..< b + (?n - 1)]"
    have fresh: "x \<notin> queued H q" if "b \<le> x" for x
      using that al(5) pool_invD(2) [OF inv] unfolding queued_def by fastforce
    have "set ?xs \<subseteq> dom (cells (p_items p1))" unfolding al(4) by (auto simp: dom_def)
    then obtain p2 where p2: "push_new_items ?xs p1 = Some p2" "pool_inv p2 H (q(?h := ?xs))" "freecitems p2 = ?h"
      "dom (cells (p_items p2)) = dom (cells (p_items p1))" "\<forall>y. y \<notin> set ?xs \<longrightarrow> cells (p_items p2) y = cells (p_items p1) y"
      "oom (p_items p2) = oom (p_items p1)"
      using push_new_items_ok [OF al(1), of ?xs] fresh Nil al(2) by fastforce
    have bx: "b \<in> dom (cells (p_items p2))" "b \<notin> queued H (q(?h := ?xs))"
      using p2(4) al(4) fresh [of b] by (auto simp: CONN_ITEMS_PER_ALLOC_def queued_def split: if_splits)
    have o: "oom (p_items p1) = oom (p_items p)" using a False by (auto simp: items_alloc_def Let_def split: if_splits)
    have keep: "cells (p_items p2) y = cells (p_items p) y" if y: "cells (p_items p) y \<noteq> None" for y
    proof -
      have "\<not> b \<le> y" using al(5) [of y] y by auto
      then show ?thesis using p2(5) al(4) by simp
    qed
    have "conn_item_new p = Some (b, clear_item b p2)" using pe a False p2(1) by (simp add: conn_item_new_def)
    moreover have "pool_inv (clear_item b p2) H (q(?h := ?xs))" by (rule clear_item_ok [OF p2(2) bx])
    ultimately show ?thesis using False p2(3,6) bx(2) keep o al(5) [of b]
      by (intro exI [of _ b] exI [of _ "clear_item b p2"] exI [of _ ?xs]) (auto simp: clear_item_def mem_simps store_def)
  qed
qed

lemma conn_item_free_ok:
  assumes inv: "pool_inv p H q" and x: "x \<in> dom (cells (p_items p))" "x \<notin> queued H q"
  shows "\<exists>p'. conn_item_free x p = Some p' \<and> pool_inv p' H (q(freecitems p := q (freecitems p) @ [x])) \<and>
    freecitems p' = freecitems p \<and> oom (p_items p') = oom (p_items p) \<and> (\<forall>y. y \<noteq> x \<longrightarrow> cells (p_items p') y = cells (p_items p) y)"
proof -
  have "x \<noteq> NULL" using x(1) inv by (auto simp: pool_inv_def heap_ok_def)
  then have "conn_item_free x p = push_new_items [x] p" by (simp add: conn_item_free_def)
  then show ?thesis using push_new_items_ok [OF inv, of "[x]"] x by auto
qed

end
