(* ===== verification/Ts_Service.thy ===== *)
theory Ts_Service
  imports Ts_Cluster_Datasevr Ts_Conn
begin

text \<open>
  The command handlers of the tracker (\<open>src/trackerserver/ts_service.c\<close>) and their dispatcher (the end of
  \<open>ts_thread.c\<close>). A handler reads the body of the request at \<open>rcurr\<close> in the read buffer, works on the
  database of the tracker and builds the response in the write buffer. The hash function, the random
  numbers of the skip list, the configured heart beat interval and the clock are the environment
  \<open>service_env\<close>; \<open>se_time e n i\<close> is reading \<open>i\<close> of the clock while request number \<open>n\<close> is handled.
\<close>

record service_env =
  se_hash :: "cstr \<Rightarrow> u32"
  se_random :: "nat \<Rightarrow> int"
  se_time :: "nat \<Rightarrow> nat \<Rightarrow> int"
  se_interval :: int

record service =
  sv_db :: tracker_db
  sv_rand :: nat
  sv_reqs :: nat

subsection \<open>Access to requests, responses and blocks\<close>

definition req_str :: "layout \<Rightarrow> string \<Rightarrow> conn \<Rightarrow> cstr option" where
  "req_str l f c = cstr_at (rbuff c) (rcurr c + field_off l f)"

definition req_long :: "layout \<Rightarrow> string \<Rightarrow> conn \<Rightarrow> int option" where
  "req_long l f c = get_long (rbuff c) (rcurr c + field_off l f)"

definition req_int :: "layout \<Rightarrow> string \<Rightarrow> conn \<Rightarrow> int option" where
  "req_int l f c = map_option to_s32 (req_long l f c)"

definition set_header :: "protocol_cmd \<Rightarrow> nat \<Rightarrow> conn \<Rightarrow> conn option" where
  "set_header cmd n c = do {
     w \<leftarrow> put_header (wbuff c) \<lparr>body_len = of_nat n, h_cmd = cmd_code cmd, h_state = status_code RS_SUCCESS\<rparr>;
     Some (c\<lparr>wbuff := w\<rparr>)
   }"

definition resp_str :: "nat \<Rightarrow> cstr \<Rightarrow> conn \<Rightarrow> conn option" where
  "resp_str off s c = do { w \<leftarrow> put_bytes (wbuff c) off s; Some (c\<lparr>wbuff := w\<rparr>) }"

definition resp_long :: "nat \<Rightarrow> int \<Rightarrow> conn \<Rightarrow> conn option" where
  "resp_long off i c = do { w \<leftarrow> put_long (wbuff c) off i; Some (c\<lparr>wbuff := w\<rparr>) }"

text \<open>The address of a block as a string; without a terminator in its sixteen bytes it is read beyond
  its end.\<close>

definition ip_str :: "datasevr_block \<Rightarrow> cstr option" where
  "ip_str b = (if length (ip_addr b) < IP_ADDRESS_SIZE then Some (ip_addr b) else None)"

definition upd_blk :: "nat \<Rightarrow> (datasevr_block \<Rightarrow> datasevr_block) \<Rightarrow> tracker_db \<Rightarrow> tracker_db option" where
  "upd_blk p f t = do { b \<leftarrow> cells (db_blks t) p; Some (t\<lparr>db_blks := store p (f b) (db_blks t)\<rparr>) }"

definition find_server :: "service_env \<Rightarrow> layout \<Rightarrow> conn \<Rightarrow> tracker_db \<Rightarrow> nat option" where
  "find_server e l c t = do {
     vn \<leftarrow> req_str l ''map_info'' c;
     ip \<leftarrow> req_str l ''ds_ipaddr'' c;
     cluster_datasevrblock_find (se_hash e) vn ip t
   }"

text \<open>A response without a body.\<close>

definition reply_ok :: "protocol_cmd \<Rightarrow> conn \<Rightarrow> conn option" where
  "reply_ok cmd c = do { c \<leftarrow> set_header cmd 0 c; Some (set_conn_state conn_write (c\<lparr>wbytes := int header_size\<rparr>)) }"

text \<open>A response that names a server.\<close>

definition reply_server :: "protocol_cmd \<Rightarrow> datasevr_block \<Rightarrow> conn \<Rightarrow> conn option" where
  "reply_server cmd b c = do {
     c \<leftarrow> set_header cmd (size_of lfs_tracker_resp) c;
     ip \<leftarrow> ip_str b;
     c \<leftarrow> resp_str (header_size + field_off lfs_tracker_resp ''block_ipaddr'') ip c;
     c \<leftarrow> resp_long (header_size + field_off lfs_tracker_resp ''block_port'') (blk_port b) c;
     Some (set_conn_state conn_write (c\<lparr>wbytes := int (header_size + size_of lfs_tracker_resp)\<rparr>))
   }"

subsection \<open>Errors\<close>

definition write_error_msg :: "byte \<Rightarrow> conn \<Rightarrow> conn option" where
  "write_error_msg code c = do {
     h \<leftarrow> get_header (rbuff c);
     w \<leftarrow> put_header (wbuff c) \<lparr>body_len = 0, h_cmd = h_cmd h, h_state = code\<rparr>;
     Some (set_conn_state conn_write (c\<lparr>wbuff := w, wbytes := int header_size\<rparr>))
   }"

definition handle_protocol_error :: "byte \<Rightarrow> conn \<Rightarrow> conn option" where
  "handle_protocol_error code c = do { c \<leftarrow> write_error_msg code c; Some (set_conn_state conn_write c) }"

subsection \<open>Handlers\<close>

type_synonym handler = "service_env \<Rightarrow> conn \<Rightarrow> service \<Rightarrow> (protocol_resp_status \<times> conn \<times> service) option"

text \<open>The part of \<open>handle_cmd_register\<close> for a server that is not known yet. A map name that does not fit
  into the block is written beyond its field.\<close>

definition register_new ::
  "conn \<Rightarrow> cstr \<Rightarrow> u32 \<Rightarrow> u32 \<Rightarrow> tracker_db \<Rightarrow> (protocol_resp_status \<times> tracker_db + nat \<times> tracker_db) option" where
  "register_new c vn vid bid t =
     (let (p, bh) = block_new (db_blks t); t = t\<lparr>db_blks := bh\<rparr>; l = datasevr_reg_body_req in
      if p = NULL then Some (Inl (RS_ERROR_MEMORY, t))
      else do {
        ip \<leftarrow> get_bytes (rbuff c) (rcurr c + field_off l ''ds_ipaddr'') IP_ADDRESS_SIZE;
        port \<leftarrow> req_int l ''ds_port'' c;
        weight \<leftarrow> req_int l ''weight'' c;
        interval \<leftarrow> req_int l ''heart_beat_interval'' c;
        rtime \<leftarrow> req_long l ''reg_time'' c;
        stime \<leftarrow> req_long l ''started_time'' c;
        if length vn > LFS_DATASERVER_MAP_INFO_SIZE then None
        else do {
          t \<leftarrow> upd_blk p (\<lambda>b. b\<lparr>blk_state := St_init, ip_addr := cstr_of ip, map_info := vn, blk_port := port,
                               blk_weight := weight, blk_heart_beat_interval := interval, reg_time := rtime,
                               started_time := stime, block_id := bid, parent_volume_id := vid\<rparr>) t;
          (ret, t) \<leftarrow> cluster_datasevrblock_insert p t;
          Some (if ret \<noteq> 0 then Inl (RS_ERROR, t\<lparr>db_blks := block_free p (db_blks t)\<rparr>) else Inr (p, t))
        }
      })"

text \<open>The end of \<open>handle_cmd_register\<close>, for a server that is in the database.\<close>

definition register_reply :: "conn \<Rightarrow> service \<Rightarrow> nat \<Rightarrow> tracker_db \<Rightarrow> (protocol_resp_status \<times> conn \<times> service) option" where
  "register_reply c s p t = do {
     weight \<leftarrow> req_int datasevr_reg_body_req ''weight'' c;
     interval \<leftarrow> req_int datasevr_reg_body_req ''heart_beat_interval'' c;
     t \<leftarrow> upd_blk p (\<lambda>b. b\<lparr>blk_state := St_init, blk_weight := weight, blk_heart_beat_interval := interval\<rparr>) t;
     c \<leftarrow> reply_ok CMD_DATASERVER_REGISTER c;
     Some (RS_SUCCESS, c, s\<lparr>sv_db := t\<rparr>)
   }"

definition handle_cmd_register :: handler where
  "handle_cmd_register e c s = do {
     vn \<leftarrow> req_str datasevr_reg_body_req ''map_info'' c;
     ip \<leftarrow> req_str datasevr_reg_body_req ''ds_ipaddr'' c;
     let vid = se_hash e vn;
     let bid = se_hash e ip;
     dblk \<leftarrow> cluster_datasevrblock_byid_find vid bid (sv_db s);
     r \<leftarrow> (if dblk = NULL then register_new c vn vid bid (sv_db s) else Some (Inr (dblk, sv_db s)));
     case r of
       Inl (st, t) \<Rightarrow> Some (st, c, s\<lparr>sv_db := t\<rparr>)
     | Inr (p, t) \<Rightarrow> register_reply c s p t
   }"

text \<open>The body that names the master of the volume and the time of the request.\<close>

definition reply_master :: "datasevr_block \<Rightarrow> int \<Rightarrow> conn \<Rightarrow> conn option" where
  "reply_master m now c = do {
     let r = datasevr_masterblock_body_resp;
     ip \<leftarrow> ip_str m;
     c \<leftarrow> resp_str (header_size + field_off r ''master_ipaddr'') ip c;
     c \<leftarrow> resp_long (header_size + field_off r ''master_port'') (blk_port m) c;
     c \<leftarrow> resp_long (header_size + field_off r ''full_sync_opver'') now c;
     Some (set_conn_state conn_write (c\<lparr>wbytes := int (header_size + size_of r)\<rparr>))
   }"

definition handle_cmd_fullsyncreq :: handler where
  "handle_cmd_fullsyncreq e c s = do {
     let l = datasevr_fullsyncreq_body_req;
     c \<leftarrow> set_header CMD_DATASERVER_FULLSYNC (size_of datasevr_masterblock_body_resp) c;
     let c = c\<lparr>wbytes := int header_size\<rparr>;
     dblk \<leftarrow> find_server e l c (sv_db s);
     if dblk = NULL then Some (RS_ERROR_UNREGISTER, c, s)
     else do {
       vn \<leftarrow> req_str l ''map_info'' c;
       master \<leftarrow> cluster_datasevrmasterblock_get (se_hash e) vn (sv_db s);
       if master = NULL then do {
         t \<leftarrow> upd_blk dblk (\<lambda>b. b\<lparr>blk_state := St_wait_sync\<rparr>) (sv_db s);
         Some (RS_SYNCSETTING_WAITING, c, s\<lparr>sv_db := t\<rparr>)
       }
       else do {
         t \<leftarrow> upd_blk dblk (\<lambda>b. b\<lparr>blk_state := St_syncing\<rparr>) (sv_db s);
         m \<leftarrow> cells (db_blks t) master;
         c \<leftarrow> reply_master m (se_time e (sv_reqs s) 0) c;
         Some (RS_SUCCESS, c, s\<lparr>sv_db := t\<rparr>)
       }
     }
   }"

text \<open>The loop of \<open>handle_cmd_heartbeat\<close> over the other servers of the volume: \<open>p\<close> is the offset of the next
  record in the write buffer and \<open>n\<close> the length of the body so far. The test for a server that is
  off line reads the time of the heart beat of the requesting server \<open>own\<close>.\<close>

primrec heartbeat_loop ::
  "service_env \<Rightarrow> nat \<Rightarrow> nat \<Rightarrow> cstr \<Rightarrow> nat list \<Rightarrow> nat \<Rightarrow> nat \<Rightarrow> nat \<Rightarrow> conn \<Rightarrow> tracker_db \<Rightarrow> (nat \<times> conn \<times> tracker_db) option" where
  "heartbeat_loop e rq own ip [] i p n c t = Some (n, c, t)"
| "heartbeat_loop e rq own ip (q # qs) i p n c t = do {
     b \<leftarrow> cells (db_blks t) q;
     bip \<leftarrow> ip_str b;
     if ip = bip then heartbeat_loop e rq own ip qs i p n c t
     else do {
       ob \<leftarrow> cells (db_blks t) own;
       let b = (if se_time e rq i - last_heartbeat_time ob > se_interval e then b\<lparr>blk_state := St_off_line\<rparr> else b);
       let t = t\<lparr>db_blks := store q b (db_blks t)\<rparr>;
       let l = block_brief_info_resp;
       c \<leftarrow> resp_long (p + field_off l ''state'') (state_code (blk_state b)) c;
       c \<leftarrow> resp_str (p + field_off l ''ds_ipaddr'') bip c;
       c \<leftarrow> resp_long (p + field_off l ''ds_port'') (blk_port b) c;
       c \<leftarrow> resp_long (p + field_off l ''last_sync_sequence'') (last_sync_sequence b) c;
       let n = n + size_of l;
       heartbeat_loop e rq own ip qs (Suc i) (p + n) n c t
     }
   }"

definition heartbeat_reply ::
  "service_env \<Rightarrow> nat \<Rightarrow> nat \<Rightarrow> cstr \<Rightarrow> datasevr_volume \<Rightarrow> conn \<Rightarrow> tracker_db \<Rightarrow> (conn \<times> tracker_db) option" where
  "heartbeat_reply e rq own ip v c t =
     (if block_count v > 1 then
        if length (dv_blocks v) < block_count v then None
        else do {
          (n, c, t) \<leftarrow> heartbeat_loop e rq own ip (take (block_count v) (dv_blocks v)) 1 header_size 0 c t;
          c \<leftarrow> set_header CMD_DATASERVER_HEARTBEAT n c;
          Some (set_conn_state conn_write (c\<lparr>wbytes := int (header_size + n)\<rparr>), t)
        }
      else do { c \<leftarrow> reply_ok CMD_DATASERVER_HEARTBEAT c; Some (c, t) })"

definition handle_cmd_heartbeat :: handler where
  "handle_cmd_heartbeat e c s = do {
     let l = datasevr_heartbeat_body_req;
     dblk \<leftarrow> find_server e l c (sv_db s);
     if dblk = NULL then Some (RS_ERROR_UNREGISTER, c, s)
     else do {
       vn \<leftarrow> req_str l ''map_info'' c;
       ip \<leftarrow> req_str l ''ds_ipaddr'' c;
       t \<leftarrow> upd_blk dblk (\<lambda>b. b\<lparr>last_heartbeat_time := se_time e (sv_reqs s) 0, blk_state := St_active\<rparr>) (sv_db s);
       let s = s\<lparr>sv_db := t\<rparr>;
       dv \<leftarrow> cluster_datasevrvolume_find (se_hash e) vn t;
       if dv = NULL then Some (RS_ERROR_NONEDATASEVERVOLUME, c, s)
       else do {
         v \<leftarrow> cells (db_vols t) dv;
         if dv_blocks v = [] then Some (RS_ERROR_NONEDATASEVERBLOCKS, c, s)
         else do {
           (c, t) \<leftarrow> heartbeat_reply e (sv_reqs s) dblk ip v c t;
           Some (RS_SUCCESS, c, s\<lparr>sv_db := t\<rparr>)
         }
       }
     }
   }"

definition handle_cmd_syncreport :: handler where
  "handle_cmd_syncreport e c s = do {
     let l = datasevr_syncreport_body_req;
     dblk \<leftarrow> find_server e l c (sv_db s);
     if dblk = NULL then Some (RS_ERROR_NONEDATASEVERBLOCKS, c, s)
     else do {
       q \<leftarrow> req_long l ''last_sync_sequence'' c;
       t \<leftarrow> upd_blk dblk (\<lambda>b. b\<lparr>last_sync_sequence := q, last_heartbeat_time := se_time e (sv_reqs s) 0, blk_state := St_active\<rparr>) (sv_db s);
       c \<leftarrow> reply_ok CMD_DATASERVER_SYNCREPORT c;
       Some (RS_SUCCESS, c, s\<lparr>sv_db := t\<rparr>)
     }
   }"

text \<open>The product of two numbers of 32 bits.\<close>

definition mul_s32 :: "int \<Rightarrow> int \<Rightarrow> int option" where
  "mul_s32 a b = (if in_s32 (a * b) then Some (a * b) else None)"

definition handle_cmd_statreport :: handler where
  "handle_cmd_statreport e c s = do {
     let l = datasevr_statreport_body_req;
     dblk \<leftarrow> find_server e l c (sv_db s);
     if dblk = NULL then Some (RS_ERROR_NONEDATASEVERBLOCKS, c, s)
     else do {
       b \<leftarrow> cells (db_blks (sv_db s)) dblk;
       let old_conns = curr_conns b;
       new_conns \<leftarrow> req_int l ''conns'' c;
       tot \<leftarrow> req_int l ''total_mb'' c;
       fre \<leftarrow> req_int l ''free_mb'' c;
       let now = se_time e (sv_reqs s) 0;
       t \<leftarrow> upd_blk dblk (\<lambda>b. b\<lparr>curr_conns := new_conns, total_mb := tot, free_mb := fre, last_statreporttimestamp := now,
                                last_heartbeat_time := now, blk_state := St_active\<rparr>) (sv_db s);
       ow \<leftarrow> mul_s32 old_conns (blk_weight b);
       nw \<leftarrow> mul_s32 new_conns (blk_weight b);
       (_, wsl, nh, k) \<leftarrow> cluster_wlc_block_add (se_random e) (sv_rand s) (cells (db_blks t)) (cl_wlcsl (db_cluster t))
                            \<lparr>ctx_dblk = dblk, old_wlc = ow, new_wlc = nw\<rparr> (db_nodes t);
       let t = t\<lparr>db_cluster := (db_cluster t)\<lparr>cl_wlcsl := wsl\<rparr>, db_nodes := nh\<rparr>;
       c \<leftarrow> reply_ok CMD_DATASERVER_STATREPORT c;
       Some (RS_SUCCESS, c, s\<lparr>sv_db := t, sv_rand := k\<rparr>)
     }
   }"

text \<open>The length of the response is the size of a pointer.\<close>

definition handle_cmd_test :: handler where
  "handle_cmd_test e c s = do {
     c \<leftarrow> set_header CMD_TEST 0 c;
     Some (RS_SUCCESS, set_conn_state conn_write (c\<lparr>wbytes := 8\<rparr>), s)
   }"

definition handle_cmd_quited :: handler where
  "handle_cmd_quited e c s = do {
     dblk \<leftarrow> find_server e datasevr_heartbeat_body_req c (sv_db s);
     if dblk = NULL then Some (RS_ERROR, c, s)
     else do {
       t \<leftarrow> upd_blk dblk (\<lambda>b. b\<lparr>blk_state := St_off_line\<rparr>) (sv_db s);
       Some (RS_SUCCESS, set_conn_state conn_closed c, s\<lparr>sv_db := t\<rparr>)
     }
   }"

definition handle_cmd_writetracker :: handler where
  "handle_cmd_writetracker e c s = do {
     (p, t) \<leftarrow> cluster_wlc_writedatasevrblock_get (se_time e (sv_reqs s)) (se_interval e) (sv_db s);
     let s = s\<lparr>sv_db := t\<rparr>;
     if p = NULL then Some (RS_ERROR_NO_WRITE_DATASERVER, c, s)
     else do {
       b \<leftarrow> cells (db_blks t) p;
       c \<leftarrow> reply_server CMD_WRITE_TRACKER_REQ b c;
       Some (RS_SUCCESS, c, s)
     }
   }"

definition handle_cmd_readtracker :: handler where
  "handle_cmd_readtracker e c s = do {
     let l = lfs_read_tracker_req;
     q \<leftarrow> req_long l ''file_timestamp'' c;
     vn \<leftarrow> req_str l ''map_info'' c;
     (p, t) \<leftarrow> cluster_readdatasevrblock_get (se_hash e) (se_time e (sv_reqs s)) (se_interval e) vn q (sv_db s);
     let s = s\<lparr>sv_db := t\<rparr>;
     if p = NULL then Some (RS_ERROR_NO_READ_DATASERVER, c, s)
     else do {
       b \<leftarrow> cells (db_blks t) p;
       c \<leftarrow> reply_server CMD_READ_TRACKER_REQ b c;
       Some (RS_SUCCESS, c, s)
     }
   }"

text \<open>\<open>dispatch_cmd\<close>; \<open>junk\<close> is the value of the uninitialised \<open>resp_status\<close> when no case matches. The
  number of the request goes up, so that the next request reads the clock afresh.\<close>

definition handler_of :: "byte \<Rightarrow> handler option" where
  "handler_of cmd =
     (if cmd = cmd_code CMD_DATASERVER_REGISTER then Some handle_cmd_register
      else if cmd = cmd_code CMD_DATASERVER_FULLSYNC then Some handle_cmd_fullsyncreq
      else if cmd = cmd_code CMD_DATASERVER_HEARTBEAT then Some handle_cmd_heartbeat
      else if cmd = cmd_code CMD_DATASERVER_SYNCREPORT then Some handle_cmd_syncreport
      else if cmd = cmd_code CMD_DATASERVER_STATREPORT then Some handle_cmd_statreport
      else if cmd = cmd_code CMD_DATASERVER_QUITED then Some handle_cmd_quited
      else if cmd = cmd_code CMD_WRITE_TRACKER_REQ then Some handle_cmd_writetracker
      else if cmd = cmd_code CMD_READ_TRACKER_REQ then Some handle_cmd_readtracker
      else if cmd = cmd_code CMD_TEST then Some handle_cmd_test
      else None)"

definition dispatch_cmd :: "service_env \<Rightarrow> byte \<Rightarrow> byte \<Rightarrow> conn \<Rightarrow> service \<Rightarrow> (conn \<times> service) option" where
  "dispatch_cmd e junk cmd c s = do {
     (code, c, s) \<leftarrow>
       (case handler_of cmd of
          Some hnd \<Rightarrow> do { (st, c, s) \<leftarrow> hnd e c s; Some (status_code st, c, s) }
        | None \<Rightarrow> Some (junk, c, s));
     let s = s\<lparr>sv_reqs := Suc (sv_reqs s)\<rparr>;
     if code \<noteq> 0 then do { c \<leftarrow> handle_protocol_error code c; Some (c, s) } else Some (c, s)
   }"

subsection \<open>The database under the handlers\<close>

lemma db_inv_blks:
  assumes "db_inv t os ps" and "dom (cells (db_blks t)) \<subseteq> dom (cells bh)"
  shows "db_inv (t\<lparr>db_blks := bh\<rparr>) os ps"
  using assms vol_live_dom [OF _ assms(2)] by (simp add: db_inv_def)

lemma upd_blk_inv:
  assumes "upd_blk p f t = Some t'" and "db_inv t os ps"
  shows "db_inv t' os ps" "db_vols t' = db_vols t" "db_cluster t' = db_cluster t" "db_nodes t' = db_nodes t"
    "\<exists>b. cells (db_blks t) p = Some b \<and> cells (db_blks t') = (cells (db_blks t))(p \<mapsto> f b)"
proof -
  obtain b where b: "cells (db_blks t) p = Some b" "t' = t\<lparr>db_blks := store p (f b) (db_blks t)\<rparr>"
    using assms(1) by (auto simp: upd_blk_def bind_eq_Some_conv)
  then show "db_inv t' os ps" using db_inv_blks [OF assms(2), of "store p (f b) (db_blks t)"] by (auto simp: mem_simps)
  show "db_vols t' = db_vols t" "db_cluster t' = db_cluster t" "db_nodes t' = db_nodes t" using b by simp_all
  show "\<exists>b. cells (db_blks t) p = Some b \<and> cells (db_blks t') = (cells (db_blks t))(p \<mapsto> f b)" using b by (simp add: mem_simps)
qed

text \<open>Changes of the skip list and of its nodes do not touch the table.\<close>

lemma db_inv_wlc:
  assumes "db_inv t os ps"
  shows "db_inv (t\<lparr>db_cluster := (db_cluster t)\<lparr>cl_wlcsl := wsl\<rparr>, db_nodes := nh\<rparr>) os ps"
  using assms by (simp add: db_inv_def cl_inv_def del: One_nat_def set_concat)

lemma insert_rng_undefined:
  assumes inv: "db_inv t os ps" and b: "cells (db_blks t) dblk = Some b"
    and vn: "volume_new (db_vols t) = (p, vh)" "p \<noteq> NULL"
    and rng: "insert_out_of_range (db_cluster t) (empty_volume\<lparr>volume_id := parent_volume_id b\<rparr>)"
  shows "do_insert NULL dblk t = None"
proof -
  let ?c = "cells (db_vols t)" and ?v = "empty_volume\<lparr>volume_id := parent_volume_id b\<rparr>"
  have i: "cl_inv (db_cluster t) ?c os ps" "heap_ok (db_vols t)" using inv by (simp_all add: db_inv_def)
  have c: "?c p = None" "cells vh = ?c(p \<mapsto> empty_volume)" using volume_new_cases(3) [OF i(2) vn(1,2)] by simp_all
  have "x \<noteq> p" if "x \<in> members os ps" for x using members_alloc [OF i(1) that] c(1) by auto
  then have "cl_inv (db_cluster t) ((cells vh)(p \<mapsto> ?v)) os ps" by (intro cl_inv_cong [OF i(1)]) (auto simp: c(2))
  then have "do_cluster_insert p (db_cluster t) ((cells vh)(p \<mapsto> ?v)) = None"
    using do_cluster_insert_out_of_range [of "db_cluster t" "(cells vh)(p \<mapsto> ?v)" os ps p ?v] rng by simp
  then show ?thesis using b vn c(2) by (simp add: do_insert_def)
qed

lemma insert_keeps:
  assumes inv: "db_inv t os ps" and b: "dblk \<noteq> NULL" "cells (db_blks t) dblk = Some b"
    and r: "cluster_datasevrblock_insert dblk t = Some (ret, t')"
  shows "ret = LFS_OK" and "\<exists>os' ps'. db_inv t' os' ps' \<and> (oom (db_vols t) = (\<lambda>_. False) \<longrightarrow>
    (\<exists>x v. x \<in> members os' ps' \<and> cells (db_vols t') x = Some v \<and> volume_id v = parent_volume_id b \<and> dblk \<in> set (vol_blocks v) \<and>
      block_id (the (cells (db_blks t') dblk)) = block_id b))"
proof -
  obtain dv r1 where f: "do_cluster_find (db_cluster t) (cells (db_vols t)) (parent_volume_id b) = Some dv"
    "do_insert dv dblk t = Some (r1, t')" and ret: "ret = LFS_OK"
    using r b(2) by (auto simp: cluster_datasevrblock_insert_def bind_eq_Some_conv)
  show "ret = LFS_OK" by (rule ret)
  have d: "if \<exists>x \<in> members os ps. vid_at (cells (db_vols t)) x = parent_volume_id b
      then dv \<in> members os ps \<and> vid_at (cells (db_vols t)) dv = parent_volume_id b else dv = NULL"
    using db_find [OF inv, of "parent_volume_id b"] f(1) by auto
  show "\<exists>os' ps'. db_inv t' os' ps' \<and> (oom (db_vols t) = (\<lambda>_. False) \<longrightarrow>
    (\<exists>x v. x \<in> members os' ps' \<and> cells (db_vols t') x = Some v \<and> volume_id v = parent_volume_id b \<and> dblk \<in> set (vol_blocks v) \<and>
      block_id (the (cells (db_blks t') dblk)) = block_id b))"
  proof (cases "insert_out_of_range (db_cluster t) (empty_volume\<lparr>volume_id := parent_volume_id b\<rparr>)")
    case False
    from do_insert_spec [OF inv b d False] show ?thesis using f(2) by fastforce
  next
    case rng: True
    show ?thesis
    proof (cases "\<exists>x \<in> members os ps. vid_at (cells (db_vols t)) x = parent_volume_id b")
      case True
      then have "dv \<in> members os ps" "vid_at (cells (db_vols t)) dv = parent_volume_id b" using d by simp_all
      then show ?thesis using insert_existing [OF inv b] f(2) b(2) by fastforce
    next
      case False
      then have dv: "dv = NULL" using d by simp
      obtain p vh where vn: "volume_new (db_vols t) = (p, vh)" by fastforce
      have h: "heap_ok (db_vols t)" using inv by (simp add: db_inv_def)
      have p: "p = NULL" using insert_rng_undefined [OF inv b(2) vn _ rng] f(2) dv by auto
      have "db_inv (t\<lparr>db_vols := vh\<rparr>) os ps" by (rule db_inv_extend [OF inv volume_new_cases(1,2) [OF h vn]])
      then show ?thesis using f(2) vn p dv b(2) volume_new_cases(4) [OF h vn] by (fastforce simp: do_insert_def)
    qed
  qed
qed

subsection \<open>The buffers under the handlers\<close>

text \<open>The buffers have the sizes that the connection records.\<close>

definition buf_ok :: "conn \<Rightarrow> bool" where
  "buf_ok c \<longleftrightarrow> length (rbuff c) = rsize c \<and> length (wbuff c) = wsize c \<and> header_size \<le> wsize c \<and> wsize c < 2 ^ 31"

text \<open>A response that is ready to be sent: its length is the one that its header announces.\<close>

definition resp_ok :: "conn \<Rightarrow> bool" where
  "resp_ok c \<longleftrightarrow> c_state c = conn_write \<and> wbytes c \<le> int (wsize c) \<and>
     (\<exists>h. get_header (wbuff c) = Some h \<and> wbytes c = int header_size + uint (body_len h))"

definition only_wbuff :: "conn \<Rightarrow> conn \<Rightarrow> bool" where
  "only_wbuff c c' \<longleftrightarrow>
     length (wbuff c') = length (wbuff c) \<and> rbuff c' = rbuff c \<and> rcurr c' = rcurr c \<and> rsize c' = rsize c \<and> rbytes c' = rbytes c \<and>
     wsize c' = wsize c \<and> wused c' = wused c \<and> c_sfd c' = c_sfd c \<and> c_event_flags c' = c_event_flags c"

lemma only_wbuff_ok: "only_wbuff c c' \<Longrightarrow> buf_ok c \<Longrightarrow> buf_ok c'"
  by (simp add: only_wbuff_def buf_ok_def)

lemma only_wbuff_refl [simp]: "only_wbuff c c"
  by (simp add: only_wbuff_def)

lemma only_wbuff_trans: "only_wbuff c d \<Longrightarrow> only_wbuff d e \<Longrightarrow> only_wbuff c e"
  by (simp add: only_wbuff_def)

lemma set_conn_state_simps [simp]:
  "wbuff (set_conn_state st c) = wbuff c" "rbuff (set_conn_state st c) = rbuff c" "rcurr (set_conn_state st c) = rcurr c"
  "wsize (set_conn_state st c) = wsize c" "rsize (set_conn_state st c) = rsize c" "rbytes (set_conn_state st c) = rbytes c"
  "wused (set_conn_state st c) = wused c" "wbytes (set_conn_state st c) = wbytes c" "c_sfd (set_conn_state st c) = c_sfd c"
  "c_state (set_conn_state st c) = st" "c_event_flags (set_conn_state st c) = c_event_flags c"
  by (simp_all add: set_conn_state_def)

lemma only_wbuff_upd [simp]:
  "only_wbuff c (d\<lparr>wbytes := n\<rparr>) = only_wbuff c d" "only_wbuff c (set_conn_state st d) = only_wbuff c d"
  by (simp_all add: only_wbuff_def)

lemma set_header_ok:
  assumes "set_header cmd n c = Some c'"
  shows "only_wbuff c c'" "get_header (wbuff c') = Some \<lparr>body_len = of_nat n, h_cmd = cmd_code cmd, h_state = 0\<rparr>" "wbytes c' = wbytes c"
    "rbuff c' = rbuff c" "rcurr c' = rcurr c" "wsize c' = wsize c"
proof -
  obtain w where w: "put_header (wbuff c) \<lparr>body_len = of_nat n, h_cmd = cmd_code cmd, h_state = 0\<rparr> = Some w" "c' = c\<lparr>wbuff := w\<rparr>"
    using assms by (auto simp: set_header_def bind_eq_Some_conv)
  then show "only_wbuff c c'" using put_header_length [OF w(1)] by (simp add: only_wbuff_def)
  show "get_header (wbuff c') = Some \<lparr>body_len = of_nat n, h_cmd = cmd_code cmd, h_state = 0\<rparr>" "wbytes c' = wbytes c"
    "rbuff c' = rbuff c" "rcurr c' = rcurr c" "wsize c' = wsize c"
    using w get_put_header [OF w(1)] by simp_all
qed

lemma resp_str_ok:
  assumes "resp_str off x c = Some c'" and "10 \<le> off"
  shows "only_wbuff c c'" "get_header (wbuff c') = get_header (wbuff c)" "off + length x \<le> length (wbuff c)" "wbytes c' = wbytes c"
    "rbuff c' = rbuff c" "rcurr c' = rcurr c" "wsize c' = wsize c"
proof -
  obtain w where w: "put_bytes (wbuff c) off x = Some w" "c' = c\<lparr>wbuff := w\<rparr>"
    using assms(1) by (auto simp: resp_str_def bind_eq_Some_conv)
  then show "only_wbuff c c'" using put_bytes_length [OF w(1)] w(2) by (simp add: only_wbuff_def)
  show "get_header (wbuff c') = get_header (wbuff c)" "wbytes c' = wbytes c" "rbuff c' = rbuff c" "rcurr c' = rcurr c" "wsize c' = wsize c"
    using w get_header_put_bytes [OF w(1) assms(2)] by simp_all
  show "off + length x \<le> length (wbuff c)" using w(1) put_bytes_defined [of "wbuff c" off x] by simp
qed

lemma resp_long_str: "resp_long off i c = resp_str off (long2buff (word_of_int i)) c"
  by (simp add: resp_long_def resp_str_def put_long_def)

subsection \<open>What every handler keeps\<close>

definition db_ok :: "tracker_db \<Rightarrow> bool" where
  "db_ok t \<longleftrightarrow> (\<exists>os ps. db_inv t os ps)"

definition handled :: "conn \<Rightarrow> protocol_resp_status \<times> conn \<times> service \<Rightarrow> bool" where
  "handled c r \<longleftrightarrow> (case r of (st, c', s') \<Rightarrow>
     only_wbuff c c' \<and> db_ok (sv_db s') \<and> (st = RS_SUCCESS \<longrightarrow> resp_ok c' \<or> c_state c' = conn_closed))"

lemma upd_blk_ok: "upd_blk p f t = Some t' \<Longrightarrow> db_ok t \<Longrightarrow> db_ok t'"
  using upd_blk_inv(1) unfolding db_ok_def by blast

lemma db_ok_blks: "db_ok t \<Longrightarrow> dom (cells (db_blks t)) \<subseteq> dom (cells bh) \<Longrightarrow> db_ok (t\<lparr>db_blks := bh\<rparr>)"
  using db_inv_blks unfolding db_ok_def by blast

lemma db_ok_wlc: "db_ok t \<Longrightarrow> db_ok (t\<lparr>db_cluster := (db_cluster t)\<lparr>cl_wlcsl := wsl\<rparr>, db_nodes := nh\<rparr>)"
  using db_inv_wlc unfolding db_ok_def by blast

lemma uint_of_nat_small: "n < 2 ^ 31 \<Longrightarrow> uint (of_nat n :: u64) = int n"
  by (simp add: unsigned_of_nat take_bit_nat_eq_self)

lemma reply_ok_ok:
  assumes "reply_ok cmd c = Some c'" and "buf_ok c"
  shows "only_wbuff c c'" "resp_ok c'"
proof -
  obtain d where d: "set_header cmd 0 c = Some d" "c' = set_conn_state conn_write (d\<lparr>wbytes := int header_size\<rparr>)"
    using assms(1) by (auto simp: reply_ok_def bind_eq_Some_conv)
  show "only_wbuff c c'" "resp_ok c'"
    using set_header_ok [OF d(1)] d(2) assms(2) by (simp_all add: resp_ok_def buf_ok_def)
qed

lemma reply_server_ok:
  assumes "reply_server cmd b c = Some c'" and "buf_ok c"
  shows "only_wbuff c c'" "resp_ok c'"
proof -
  let ?l = lfs_tracker_resp
  obtain c1 ip c2 c3 where c1: "set_header cmd (size_of ?l) c = Some c1"
    and c2: "resp_str (header_size + field_off ?l ''block_ipaddr'') ip c1 = Some c2"
    and c3: "resp_long (header_size + field_off ?l ''block_port'') (blk_port b) c2 = Some c3"
    and c': "c' = set_conn_state conn_write (c3\<lparr>wbytes := int (header_size + size_of ?l)\<rparr>)"
    using assms(1) by (auto simp: reply_server_def bind_eq_Some_conv)
  have o: "10 \<le> header_size + field_off ?l x" for x by (simp add: header_size_def)
  note h1 = set_header_ok [OF c1] and h2 = resp_str_ok [OF c2 o] and h3 = resp_str_ok [OF c3 [unfolded resp_long_str] o]
  show "only_wbuff c c'" using only_wbuff_trans [OF only_wbuff_trans [OF h1(1) h2(1)] h3(1)] c' by simp
  have len: "length (wbuff c2) = wsize c" using h1(1) h2(1) assms(2) by (simp add: only_wbuff_def buf_ok_def)
  then have "header_size + size_of ?l \<le> wsize c" using h3(3) by (simp add: layout_defs)
  moreover have "get_header (wbuff c3) = Some \<lparr>body_len = of_nat (size_of ?l), h_cmd = cmd_code cmd, h_state = 0\<rparr>"
    using h1(2) h2(2) h3(2) by simp
  moreover have "wsize c3 = wsize c" using h1(6) h2(7) h3(7) by simp
  ultimately show "resp_ok c'" using c' by (simp add: resp_ok_def layout_defs)
qed

lemma register_new_ok:
  assumes r: "register_new c vn vid bid t = Some q" and d: "db_ok t"
  shows "case q of Inl (st, t) \<Rightarrow> st \<noteq> RS_SUCCESS \<and> db_ok t | Inr (p, t) \<Rightarrow> db_ok t"
proof -
  obtain p bh where n: "block_new (db_blks t) = (p, bh)" by fastforce
  have t1: "db_ok (t\<lparr>db_blks := bh\<rparr>)"
    using n by (intro db_ok_blks [OF d]) (auto simp: block_new_def malloc_def split: if_splits)
  show ?thesis
  proof (cases "p = NULL")
    case True
    then show ?thesis using r n t1 by (auto simp: register_new_def)
  next
    case False
    obtain f t2 ret t3 where u: "upd_blk p f (t\<lparr>db_blks := bh\<rparr>) = Some t2" "cluster_datasevrblock_insert p t2 = Some (ret, t3)"
      "q = (if ret \<noteq> 0 then Inl (RS_ERROR, t3\<lparr>db_blks := block_free p (db_blks t3)\<rparr>) else Inr (p, t3))"
      using r n False by (auto simp: register_new_def bind_eq_Some_conv Let_def split: if_splits)
    obtain os ps where i: "db_inv (t\<lparr>db_blks := bh\<rparr>) os ps" using t1 unfolding db_ok_def by blast
    note u1 = upd_blk_inv [OF u(1) i]
    obtain b where b: "cells (db_blks t2) p = Some b" using u1(5) by auto
    from insert_keeps [OF u1(1) False b u(2)] u(3) show ?thesis unfolding db_ok_def by auto
  qed
qed

lemma register_handled:
  assumes r: "handle_cmd_register e c s = Some r" and b: "buf_ok c" and d: "db_ok (sv_db s)"
  shows "handled c r"
proof -
  obtain vn ip dblk q where q: "cluster_datasevrblock_byid_find (se_hash e vn) (se_hash e ip) (sv_db s) = Some dblk"
    "(if dblk = NULL then register_new c vn (se_hash e vn) (se_hash e ip) (sv_db s) else Some (Inr (dblk, sv_db s))) = Some q"
    and res: "(case q of Inl (st, t) \<Rightarrow> Some (st, c, s\<lparr>sv_db := t\<rparr>) | Inr (p, t) \<Rightarrow> register_reply c s p t) = Some r"
    using r unfolding handle_cmd_register_def Let_def bind_eq_Some_conv by blast
  have "case q of Inl (st, t) \<Rightarrow> st \<noteq> RS_SUCCESS \<and> db_ok t | Inr (p, t) \<Rightarrow> db_ok t"
  proof (cases "dblk = NULL")
    case True
    then show ?thesis using q(2) register_new_ok [OF _ d] by simp
  qed (use q(2) d in auto)
  then show ?thesis using res reply_ok_ok [OF _ b] upd_blk_ok
    by (auto simp: handled_def register_reply_def bind_eq_Some_conv split: sum.splits)
qed

lemma reply_master_ok:
  assumes "reply_master m now c = Some c'" and "buf_ok c"
    and h: "get_header (wbuff c) = Some \<lparr>body_len = of_nat (size_of datasevr_masterblock_body_resp), h_cmd = k, h_state = 0\<rparr>"
  shows "only_wbuff c c'" "resp_ok c'"
proof -
  let ?r = datasevr_masterblock_body_resp
  obtain ip c2 c3 c4 where c2: "resp_str (header_size + field_off ?r ''master_ipaddr'') ip c = Some c2"
    and c3: "resp_long (header_size + field_off ?r ''master_port'') (blk_port m) c2 = Some c3"
    and c4: "resp_long (header_size + field_off ?r ''full_sync_opver'') now c3 = Some c4"
    and c': "c' = set_conn_state conn_write (c4\<lparr>wbytes := int (header_size + size_of ?r)\<rparr>)"
    using assms(1) by (auto simp: reply_master_def bind_eq_Some_conv Let_def)
  have o: "10 \<le> header_size + field_off ?r x" for x by (simp add: header_size_def)
  note h2 = resp_str_ok [OF c2 o] and h3 = resp_str_ok [OF c3 [unfolded resp_long_str] o]
    and h4 = resp_str_ok [OF c4 [unfolded resp_long_str] o]
  have w: "only_wbuff c c4" using h2(1) h3(1) h4(1) by (simp add: only_wbuff_def)
  then show "only_wbuff c c'" using c' by simp
  have "length (wbuff c3) = wsize c" using h2(1) h3(1) assms(2) by (simp add: only_wbuff_def buf_ok_def)
  then have "header_size + size_of ?r \<le> wsize c" using h4(3) by (simp add: layout_defs)
  moreover have "wsize c4 = wsize c" using w by (simp add: only_wbuff_def)
  ultimately show "resp_ok c'" using c' h h2(2) h3(2) h4(2) by (simp add: resp_ok_def layout_defs)
qed

lemma fullsync_handled:
  assumes r: "handle_cmd_fullsyncreq e c s = Some r" and b: "buf_ok c" and d: "db_ok (sv_db s)"
  shows "handled c r"
proof -
  let ?r = datasevr_masterblock_body_resp
  obtain c1 where c1: "set_header CMD_DATASERVER_FULLSYNC (size_of ?r) c = Some c1"
    using r by (auto simp: handle_cmd_fullsyncreq_def Let_def bind_eq_Some_conv)
  note h1 = set_header_ok [OF c1]
  have w: "only_wbuff c (c1\<lparr>wbytes := n\<rparr>)" for n using h1(1) by simp
  have m: "only_wbuff c c' \<and> resp_ok c'" if "reply_master m now (c1\<lparr>wbytes := int header_size\<rparr>) = Some c'" for m now c'
    using reply_master_ok [OF that only_wbuff_ok [OF w b]] h1(2) only_wbuff_trans [OF w] by simp
  show ?thesis using r c1 d w
    by (auto simp: handle_cmd_fullsyncreq_def Let_def bind_eq_Some_conv handled_def split: if_splits dest!: m dest: upd_blk_ok)
qed

lemma heartbeat_loop_ok:
  "heartbeat_loop e rq own ip qs i p n c t = Some (n', c', t') \<Longrightarrow> db_ok t \<Longrightarrow> header_size + n \<le> p \<Longrightarrow>
   header_size + n \<le> length (wbuff c) \<Longrightarrow> only_wbuff c c' \<and> db_ok t' \<and> header_size + n' \<le> length (wbuff c)"
proof (induction qs arbitrary: i p n c t)
  case (Cons q qs)
  obtain b bip where b: "cells (db_blks t) q = Some b" "ip_str b = Some bip"
    using Cons.prems(1) by (auto simp: bind_eq_Some_conv)
  show ?case
  proof (cases "ip = bip")
    case True
    then show ?thesis using Cons b by simp
  next
    case False
    let ?l = block_brief_info_resp
    obtain ob where ob: "cells (db_blks t) own = Some ob" using Cons.prems(1) b False by (auto simp: bind_eq_Some_conv)
    define b' where "b' = (if se_time e rq i - last_heartbeat_time ob > se_interval e then b\<lparr>blk_state := St_off_line\<rparr> else b)"
    define t1 where "t1 = t\<lparr>db_blks := store q b' (db_blks t)\<rparr>"
    obtain c1 c2 c3 c4 where c: "resp_long (p + field_off ?l ''state'') (state_code (blk_state b')) c = Some c1"
      "resp_str (p + field_off ?l ''ds_ipaddr'') bip c1 = Some c2" "resp_long (p + field_off ?l ''ds_port'') (blk_port b') c2 = Some c3"
      "resp_long (p + field_off ?l ''last_sync_sequence'') (last_sync_sequence b') c3 = Some c4"
      and rec: "heartbeat_loop e rq own ip qs (Suc i) (p + (n + size_of ?l)) (n + size_of ?l) c4 t1 = Some (n', c', t')"
      using Cons.prems(1) b ob False by (auto simp: bind_eq_Some_conv Let_def b'_def t1_def)
    have o: "10 \<le> p + field_off ?l x" for x using Cons.prems(3) by (simp add: header_size_def)
    note h1 = resp_str_ok [OF c(1) [unfolded resp_long_str] o] and h2 = resp_str_ok [OF c(2) o]
      and h3 = resp_str_ok [OF c(3) [unfolded resp_long_str] o] and h4 = resp_str_ok [OF c(4) [unfolded resp_long_str] o]
    have w: "only_wbuff c c4" using h1(1) h2(1) h3(1) h4(1) by (simp add: only_wbuff_def)
    have "length (wbuff c3) = length (wbuff c)" "length (wbuff c4) = length (wbuff c)"
      using h1(1) h2(1) h3(1) w by (simp_all add: only_wbuff_def)
    moreover have "header_size + (n + size_of ?l) \<le> length (wbuff c)" using h4(3) calculation(1) Cons.prems(3) by (simp add: layout_defs)
    moreover have "db_ok t1" unfolding t1_def using b(1) by (intro db_ok_blks [OF Cons.prems(2)]) (auto simp: mem_simps)
    ultimately show ?thesis using Cons.IH [OF rec] Cons.prems(3) only_wbuff_trans [OF w] by simp
  qed
qed simp

lemma heartbeat_reply_ok:
  assumes r: "heartbeat_reply e rq own ip v c t = Some (c', t')" and b: "buf_ok c" and d: "db_ok t"
  shows "only_wbuff c c' \<and> resp_ok c' \<and> db_ok t'"
proof (cases "block_count v > 1")
  case False
  then show ?thesis using r reply_ok_ok [OF _ b] d by (auto simp: heartbeat_reply_def bind_eq_Some_conv)
next
  case True
  then obtain n c1 c2 where l: "heartbeat_loop e rq own ip (take (block_count v) (dv_blocks v)) 1 header_size 0 c t = Some (n, c1, t')"
    "set_header CMD_DATASERVER_HEARTBEAT n c1 = Some c2" "c' = set_conn_state conn_write (c2\<lparr>wbytes := int (header_size + n)\<rparr>)"
    using r by (auto simp: heartbeat_reply_def bind_eq_Some_conv split: if_splits)
  have k: "only_wbuff c c1 \<and> db_ok t' \<and> header_size + n \<le> length (wbuff c)"
    by (rule heartbeat_loop_ok [OF l(1) d]) (use b in \<open>simp_all add: buf_ok_def\<close>)
  note h = set_header_ok [OF l(2)]
  have "n < 2 ^ 31" "header_size + n \<le> wsize c" using k b by (auto simp: buf_ok_def)
  moreover have w: "only_wbuff c c2" using only_wbuff_trans k h(1) by blast
  moreover have "wsize c2 = wsize c" using w by (simp add: only_wbuff_def)
  ultimately show ?thesis using l(3) h(2) k by (simp add: resp_ok_def uint_of_nat_small)
qed

lemma heartbeat_handled:
  "handle_cmd_heartbeat e c s = Some r \<Longrightarrow> buf_ok c \<Longrightarrow> db_ok (sv_db s) \<Longrightarrow> handled c r"
  by (auto simp: handle_cmd_heartbeat_def bind_eq_Some_conv Let_def handled_def split: if_splits
      dest: upd_blk_ok dest!: heartbeat_reply_ok)

lemma syncreport_handled:
  "handle_cmd_syncreport e c s = Some r \<Longrightarrow> buf_ok c \<Longrightarrow> db_ok (sv_db s) \<Longrightarrow> handled c r"
  using reply_ok_ok [of CMD_DATASERVER_SYNCREPORT c]
  by (auto simp: handle_cmd_syncreport_def bind_eq_Some_conv Let_def handled_def split: if_splits dest: upd_blk_ok)

lemma statreport_handled:
  "handle_cmd_statreport e c s = Some r \<Longrightarrow> buf_ok c \<Longrightarrow> db_ok (sv_db s) \<Longrightarrow> handled c r"
  using reply_ok_ok [of CMD_DATASERVER_STATREPORT c]
  by (auto simp: handle_cmd_statreport_def bind_eq_Some_conv Let_def handled_def split: if_splits dest!: upd_blk_ok intro!: db_ok_wlc)

lemma quited_handled:
  "handle_cmd_quited e c s = Some r \<Longrightarrow> db_ok (sv_db s) \<Longrightarrow> handled c r"
  by (auto simp: handle_cmd_quited_def bind_eq_Some_conv handled_def split: if_splits dest: upd_blk_ok)

lemma test_handled:
  "handle_cmd_test e c s = Some (st, c', s') \<Longrightarrow> db_ok (sv_db s) \<Longrightarrow> only_wbuff c c' \<and> db_ok (sv_db s')"
  by (auto simp: handle_cmd_test_def bind_eq_Some_conv dest: set_header_ok)

text \<open>Looking for a server to write to only marks blocks as off line.\<close>

lemma write_block_loop_dom:
  assumes ret: "write_block_loop now interval i b wsl h x = Some (p, b', wsl', h')"
  shows "dom b \<subseteq> dom b'"
proof -
  let ?P = "\<lambda>(now :: nat \<Rightarrow> int) (interval :: int) (i :: nat) b (wsl :: wlc_skiplist) (h :: wlc_skiplist_node heap) (x :: nat)
    (r :: nat \<times> blocks \<times> wlc_skiplist \<times> wlc_skiplist_node heap). dom b \<subseteq> dom (fst (snd r))"
  have "?P now interval i b wsl h x (p, b', wsl', h')"
  proof (rule write_block_loop.raw_induct [where P = ?P and xa = "((((((now, interval), i), b), wsl), h), x)", unfolded prod.case, OF _ ret], goal_cases)
    case (1 loop now interval i b wsl h x r)
    from 1(2) show ?case by (auto simp: bind_eq_Some_conv Let_def split: if_splits dest!: 1(1)) (meson domD domI subsetD)
  qed
  then show ?thesis by simp
qed

lemma writetracker_handled:
  assumes "handle_cmd_writetracker e c s = Some r" and "buf_ok c" and "db_ok (sv_db s)"
  shows "handled c r"
proof -
  let ?t = "sv_db s"
  obtain p b wsl h where g: "cluster_wlc_write_block_get (se_time e (sv_reqs s)) (se_interval e) (cells (db_blks ?t)) (cl_wlcsl (db_cluster ?t)) (db_nodes ?t)
    = Some (p, b, wsl, h)"
    using assms(1) by (auto simp: handle_cmd_writetracker_def cluster_wlc_writedatasevrblock_get_def bind_eq_Some_conv)
  define t where "t = ?t\<lparr>db_blks := (db_blks ?t)\<lparr>cells := b\<rparr>, db_cluster := (db_cluster ?t)\<lparr>cl_wlcsl := wsl\<rparr>, db_nodes := h\<rparr>"
  have "db_ok (?t\<lparr>db_blks := (db_blks ?t)\<lparr>cells := b\<rparr>\<rparr>)"
    using g by (intro db_ok_blks [OF assms(3)]) (simp add: cluster_wlc_write_block_get_def write_block_loop_dom)
  from db_ok_wlc [OF this] have t: "db_ok t" by (simp add: t_def)
  have "cluster_wlc_writedatasevrblock_get (se_time e (sv_reqs s)) (se_interval e) ?t = Some (p, t)"
    using g by (simp add: cluster_wlc_writedatasevrblock_get_def t_def)
  then show ?thesis using assms(1) t reply_server_ok [OF _ assms(2)]
    by (auto simp: handle_cmd_writetracker_def bind_eq_Some_conv Let_def handled_def split: if_splits)
qed

lemma read_get_keeps:
  assumes "cluster_readdatasevrblock_get hf now iv vn q t = Some (p, t')" and "db_ok t"
  shows "db_ok t'"
proof (cases "t' = t")
  case False
  obtain os ps where i: "db_inv t os ps" using assms(2) unfolding db_ok_def by blast
  obtain dv v j where d: "do_cluster_find (db_cluster t) (cells (db_vols t)) (hf vn) = Some dv" "dv \<noteq> NULL" "cells (db_vols t) dv = Some v"
    "t' = t\<lparr>db_vols := store dv (v\<lparr>last_read_block_index := int j\<rparr>) (db_vols t)\<rparr>"
    using assms(1) False by (auto simp: cluster_readdatasevrblock_get_def bind_eq_Some_conv split: if_splits option.splits)
  have m: "dv \<in> members os ps" using db_find [OF i, of "hf vn"] d(1,2) by (auto split: if_splits)
  have "vol_live (cells (db_blks t)) v" using db_member(2) [OF i m] d(3) by auto
  then have "db_inv t' os ps" unfolding d(4)
    using i d(3) by (intro db_inv_update [OF i m d(3), where v' = "v\<lparr>last_read_block_index := int j\<rparr>"])
      (auto simp: mem_simps db_inv_def vol_live_def vol_ok_def vol_blocks_def intro!: heap_ok_store)
  then show ?thesis unfolding db_ok_def by blast
qed (use assms in simp)

lemma readtracker_handled:
  assumes "handle_cmd_readtracker e c s = Some r" and "buf_ok c" and "db_ok (sv_db s)"
  shows "handled c r"
  using assms reply_server_ok [OF _ assms(2)] read_get_keeps [OF _ assms(3)]
  by (auto simp: handle_cmd_readtracker_def bind_eq_Some_conv Let_def handled_def split: if_splits)

lemmas handlers_ok = register_handled fullsync_handled heartbeat_handled syncreport_handled statreport_handled
  quited_handled writetracker_handled readtracker_handled

lemma handler_handled:
  assumes "handler_of cmd = Some hnd" and "cmd \<noteq> cmd_code CMD_TEST" and "hnd e c s = Some r" and "buf_ok c" and "db_ok (sv_db s)"
  shows "handled c r"
  using assms by (auto simp: handler_of_def split: if_splits dest: handlers_ok)

lemma protocol_error_ok:
  assumes "handle_protocol_error code c = Some c'" and "buf_ok c"
  shows "only_wbuff c c'" "resp_ok c'"
proof -
  obtain cm w where w: "put_header (wbuff c) \<lparr>body_len = 0, h_cmd = cm, h_state = code\<rparr> = Some w"
    "c' = set_conn_state conn_write (set_conn_state conn_write (c\<lparr>wbuff := w, wbytes := int header_size\<rparr>))"
    using assms(1) unfolding handle_protocol_error_def write_error_msg_def bind_eq_Some_conv option.inject by blast
  then show "only_wbuff c c'" "resp_ok c'"
    using put_header_length [OF w(1)] get_put_header [OF w(1)] assms(2) by (simp_all add: only_wbuff_def resp_ok_def buf_ok_def)
qed

subsection \<open>Registration\<close>

lemma find_by_id: "cluster_datasevrblock_find hf vn ip t = cluster_datasevrblock_byid_find (hf vn) (hf ip) t"
  by (simp add: cluster_datasevrblock_find_def cluster_datasevrblock_byid_find_def)

lemma byid_find_defined:
  assumes inv: "db_inv t os ps"
  shows "\<exists>q. cluster_datasevrblock_byid_find vid bid t = Some q \<and>
    (q \<noteq> NULL \<longrightarrow> cells (db_blks t) q \<noteq> None \<and> (\<exists>x v. x \<in> members os ps \<and> cells (db_vols t) x = Some v \<and> volume_id v = vid \<and>
      q \<in> set (vol_blocks v) \<and> block_id (the (cells (db_blks t) q)) = bid))"
proof -
  obtain dv where f: "do_cluster_find (db_cluster t) (cells (db_vols t)) vid = Some dv"
    "dv = NULL \<or> dv \<in> members os ps \<and> vid_at (cells (db_vols t)) dv = vid"
    using db_find [OF inv, of vid] by (auto split: if_splits)
  show ?thesis
  proof (cases "dv = NULL")
    case True
    then show ?thesis using f(1) by (simp add: cluster_datasevrblock_byid_find_def do_block_find_def)
  next
    case False
    then obtain v where v: "cells (db_vols t) dv = Some v" "vol_ok (cells (db_blks t)) v"
      using f(2) db_member(2) [OF inv] by (auto simp: vol_live_def)
    have e: "cluster_datasevrblock_byid_find vid bid t = do_block_find (db_blks t) (Some v) bid"
      using f(1) False v(1) by (simp add: cluster_datasevrblock_byid_find_def)
    obtain q where q: "do_block_find (db_blks t) (Some v) bid = Some q"
      "q \<noteq> NULL \<longrightarrow> q \<in> set (vol_blocks v) \<and> block_id (the (cells (db_blks t) q)) = bid"
      using do_block_find_spec [OF v(2), of bid] by (metis (mono_tags, lifting))
    have "cells (db_blks t) q \<noteq> None" if "q \<noteq> NULL" using q(2) that v(2) unfolding vol_ok_def by blast
    moreover have "volume_id v = vid" using f(2) False v(1) by (simp add: vid_at_def)
    ultimately show ?thesis using e q f(2) False v(1) by (intro exI [of _ q]) auto
  qed
qed

lemma append_block_alloc:
  "append_block dv dblk b t = Some (ret, t') \<Longrightarrow> cells (db_blks t) x \<noteq> None \<Longrightarrow> cells (db_blks t') x \<noteq> None"
  by (auto simp: append_block_def bind_eq_Some_conv Let_def split_beta mem_simps split: if_splits)

lemma do_insert_alloc:
  assumes "do_insert dv dblk t = Some (ret, t')" and "cells (db_blks t) x = Some b"
  shows "cells (db_blks t') x \<noteq> None"
  using assms append_block_alloc
  by (fastforce simp: do_insert_def bind_eq_Some_conv Let_def split: prod.splits if_splits)

lemma register_new_defined:
  assumes inv: "db_inv t os ps" and nexp: "\<not> expanding (db_cluster t)" and mem: "\<not> oom (db_blks t) (nalloc (db_blks t))" "0 < brk (db_blks t)"
    and vn: "length vn \<le> LFS_DATASERVER_MAP_INFO_SIZE" and len: "rcurr c + size_of datasevr_reg_body_req \<le> length (rbuff c)"
  shows "\<exists>p t' os' ps'. register_new c vn vid bid t = Some (Inr (p, t')) \<and> db_inv t' os' ps' \<and> cells (db_blks t') p \<noteq> None \<and>
    (oom (db_vols t) = (\<lambda>_. False) \<longrightarrow> (\<exists>x v. x \<in> members os' ps' \<and> cells (db_vols t') x = Some v \<and> volume_id v = vid \<and>
      p \<in> set (vol_blocks v) \<and> block_id (the (cells (db_blks t') p)) = bid))"
proof -
  let ?l = datasevr_reg_body_req and ?p = "brk (db_blks t)"
  obtain bh where n: "block_new (db_blks t) = (?p, bh)" "cells bh = (cells (db_blks t))(?p \<mapsto> zero_block)"
    using mem by (simp add: block_new_def malloc_def)
  have g: "\<exists>b. get_bytes (rbuff c) (rcurr c + k) m = Some b" if "k + m \<le> size_of ?l" for k m
    using that len by (simp add: get_bytes_def)
  have f: "\<exists>i. req_int ?l x c = Some i" "\<exists>i. req_long ?l x c = Some i" if "field_off ?l x + 8 \<le> size_of ?l" for x
    using g [OF that] by (auto simp: req_int_def req_long_def get_long_def)
  obtain ipb port weight interval rtime stime where r: "get_bytes (rbuff c) (rcurr c + field_off ?l ''ds_ipaddr'') IP_ADDRESS_SIZE = Some ipb"
    "req_int ?l ''ds_port'' c = Some port" "req_int ?l ''weight'' c = Some weight" "req_int ?l ''heart_beat_interval'' c = Some interval"
    "req_long ?l ''reg_time'' c = Some rtime" "req_long ?l ''started_time'' c = Some stime"
    using g [of "field_off ?l ''ds_ipaddr''" IP_ADDRESS_SIZE] f(1) [of "''ds_port''"] f(1) [of "''weight''"]
      f(1) [of "''heart_beat_interval''"] f(2) [of "''reg_time''"] f(2) [of "''started_time''"] by (auto simp: layout_defs)
  define b where "b = zero_block\<lparr>blk_state := St_init, ip_addr := cstr_of ipb, map_info := vn, blk_port := port,
    blk_weight := weight, blk_heart_beat_interval := interval, reg_time := rtime, started_time := stime, block_id := bid, parent_volume_id := vid\<rparr>"
  define t2 where "t2 = t\<lparr>db_blks := store ?p b bh\<rparr>"
  have i2: "db_inv t2 os ps" unfolding t2_def by (rule db_inv_blks [OF inv]) (auto simp: mem_simps n(2))
  have b2: "cells (db_blks t2) ?p = Some b" "parent_volume_id b = vid" "block_id b = bid" "db_vols t2 = db_vols t"
    by (simp_all add: t2_def mem_simps b_def)
  obtain dv where dv: "do_cluster_find (db_cluster t2) (cells (db_vols t2)) vid = Some dv"
    "if \<exists>x \<in> members os ps. vid_at (cells (db_vols t2)) x = vid then dv \<in> members os ps \<and> vid_at (cells (db_vols t2)) dv = vid else dv = NULL"
    using db_find [OF i2, of vid] by blast
  have pn: "?p \<noteq> NULL" using mem(2) by simp
  have "\<not> insert_out_of_range (db_cluster t2) (empty_volume\<lparr>volume_id := parent_volume_id b\<rparr>)"
    using nexp by (simp add: insert_out_of_range_def t2_def)
  from do_insert_spec [OF i2 pn b2(1) _ this, of dv] dv(2) obtain ret t' where d: "do_insert dv ?p t2 = Some (ret, t')"
    unfolding b2(2) by blast
  then have ins: "cluster_datasevrblock_insert ?p t2 = Some (LFS_OK, t')"
    using b2(1,2) dv(1) by (simp add: cluster_datasevrblock_insert_def)
  have "upd_blk ?p (\<lambda>b. b\<lparr>blk_state := St_init, ip_addr := cstr_of ipb, map_info := vn, blk_port := port,
      blk_weight := weight, blk_heart_beat_interval := interval, reg_time := rtime, started_time := stime, block_id := bid,
      parent_volume_id := vid\<rparr>) (t\<lparr>db_blks := bh\<rparr>) = Some t2"
    by (simp add: upd_blk_def n(2) t2_def b_def)
  then have "register_new c vn vid bid t = Some (Inr (?p, t'))"
    using n(1) pn r vn ins by (simp add: register_new_def Let_def)
  moreover have "cells (db_blks t') ?p \<noteq> None" using d b2(1) by (rule do_insert_alloc)
  ultimately show ?thesis using insert_keeps(2) [OF i2 pn b2(1) ins] b2(2-4) by metis
qed

lemma register_reply_found:
  assumes inv: "db_inv t os ps" and b: "buf_ok c" and len: "rcurr c + size_of datasevr_reg_body_req \<le> length (rbuff c)"
    and p: "cells (db_blks t) p \<noteq> None"
    and x: "x \<in> members os ps" "cells (db_vols t) x = Some v" "volume_id v = vid" "q \<in> set (vol_blocks v)"
      "block_id (the (cells (db_blks t) q)) = bid"
  shows "\<exists>c' t'. register_reply c s p t = Some (RS_SUCCESS, c', s\<lparr>sv_db := t'\<rparr>) \<and> resp_ok c' \<and> db_ok t' \<and>
    (\<exists>y. cluster_datasevrblock_byid_find vid bid t' = Some y \<and> y \<noteq> NULL \<and> block_id (the (cells (db_blks t') y)) = bid)"
proof -
  let ?l = datasevr_reg_body_req
  have f: "\<exists>i. req_int ?l x c = Some i" if "field_off ?l x + 8 \<le> size_of ?l" for x
    using that len by (simp add: req_int_def req_long_def get_long_def get_bytes_def)
  obtain w iv where w: "req_int ?l ''weight'' c = Some w" "req_int ?l ''heart_beat_interval'' c = Some iv"
    using f [of "''weight''"] f [of "''heart_beat_interval''"] by (auto simp: layout_defs)
  let ?f = "\<lambda>b. b\<lparr>blk_state := St_init, blk_weight := w, blk_heart_beat_interval := iv\<rparr>"
  obtain t' where t': "upd_blk p ?f t = Some t'" using p by (auto simp: upd_blk_def)
  note u = upd_blk_inv [OF t' inv]
  have "10 \<le> length (wbuff c)" using b by (simp add: buf_ok_def header_size_def)
  then obtain c' where c': "reply_ok CMD_DATASERVER_REGISTER c = Some c'"
    by (simp add: reply_ok_def set_header_def put_header_Some)
  have "block_id (the (cells (db_blks t') q)) = bid" using u(5) x(5) by (cases "q = p") auto
  then have "\<exists>y. cluster_datasevrblock_byid_find vid bid t' = Some y \<and> y \<noteq> NULL \<and> block_id (the (cells (db_blks t') y)) = bid"
    using byid_find_spec [OF u(1) x(1) _ x(3,4)] u(2) x(2) by simp
  moreover have "register_reply c s p t = Some (RS_SUCCESS, c', s\<lparr>sv_db := t'\<rparr>)"
    using w t' c' by (simp add: register_reply_def)
  ultimately show ?thesis using reply_ok_ok(2) [OF c' b] u(1) unfolding db_ok_def by blast
qed

subsection \<open>The records of a heart beat\<close>

text \<open>The record of a server at an offset of the response.\<close>

definition brief_at :: "byte list \<Rightarrow> nat \<Rightarrow> datasevr_block \<Rightarrow> bool" where
  "brief_at buf p b \<longleftrightarrow>
     get_long buf (p + field_off block_brief_info_resp ''state'') = Some (state_code (blk_state b)) \<and>
     get_bytes buf (p + field_off block_brief_info_resp ''ds_ipaddr'') (length (ip_addr b)) = Some (ip_addr b) \<and>
     get_long buf (p + field_off block_brief_info_resp ''ds_port'') = Some (blk_port b) \<and>
     get_long buf (p + field_off block_brief_info_resp ''last_sync_sequence'') = Some (last_sync_sequence b)"

definition blk_range :: "datasevr_block \<Rightarrow> bool" where
  "blk_range b \<longleftrightarrow> in_s64 (state_code (blk_state b)) \<and> in_s64 (blk_port b) \<and> in_s64 (last_sync_sequence b)"

lemma resp_str_get:
  assumes "resp_str off x c = Some c'"
  shows "get_bytes (wbuff c') off (length x) = Some x"
    "o' + n \<le> off \<or> off + length x \<le> o' \<Longrightarrow> get_bytes (wbuff c') o' n = get_bytes (wbuff c) o' n"
  using assms get_put_same get_put_other by (auto simp: resp_str_def bind_eq_Some_conv)

lemma resp_long_get:
  assumes "resp_long off i c = Some c'"
  shows "in_s64 i \<Longrightarrow> get_long (wbuff c') off = Some i"
    "o' + n \<le> off \<or> off + 8 \<le> o' \<Longrightarrow> get_bytes (wbuff c') o' n = get_bytes (wbuff c) o' n"
proof -
  show "in_s64 i \<Longrightarrow> get_long (wbuff c') off = Some i" using assms get_put_long by (auto simp: resp_long_def bind_eq_Some_conv)
  show "o' + n \<le> off \<or> off + 8 \<le> o' \<Longrightarrow> get_bytes (wbuff c') o' n = get_bytes (wbuff c) o' n"
    using resp_str_get(2) [OF assms [unfolded resp_long_str]] by simp
qed

lemma get_long_cong: "get_bytes b off 8 = get_bytes b' off 8 \<Longrightarrow> get_long b off = get_long b' off"
  by (simp add: get_long_def)

lemma brief_offs:
  "field_off block_brief_info_resp ''state'' = 0" "field_off block_brief_info_resp ''ds_ipaddr'' = 8"
  "field_off block_brief_info_resp ''ds_port'' = 24" "field_off block_brief_info_resp ''last_sync_sequence'' = 32"
  "size_of block_brief_info_resp = 40"
  by (simp_all add: layout_defs)

text \<open>One round of the loop writes one record at \<open>p\<close> and nothing else.\<close>

lemma heartbeat_round:
  assumes r: "heartbeat_loop e rq own ip (q # qs) i p n c t = Some res"
    and b: "cells (db_blks t) q = Some b" "ip_addr b \<noteq> ip" "blk_range b"
  shows "\<exists>c1 b1. heartbeat_loop e rq own ip qs (Suc i) (p + (n + 40)) (n + 40) c1 (t\<lparr>db_blks := store q b1 (db_blks t)\<rparr>) = Some res \<and>
    brief_at (wbuff c1) p b1 \<and> ip_addr b1 = ip_addr b \<and> length (ip_addr b1) < 16 \<and>
    (\<forall>k m. k + m \<le> p \<or> p + 40 \<le> k \<longrightarrow> get_bytes (wbuff c1) k m = get_bytes (wbuff c) k m)"
proof -
  let ?l = block_brief_info_resp
  obtain bip ob where ob: "ip_str b = Some bip" "cells (db_blks t) own = Some ob"
    using r b by (auto simp: ip_str_def bind_eq_Some_conv split: if_splits)
  define b1 where "b1 = (if se_time e rq i - last_heartbeat_time ob > se_interval e then b\<lparr>blk_state := St_off_line\<rparr> else b)"
  have bip: "bip = ip_addr b1" "length (ip_addr b1) < 16" "ip_addr b1 = ip_addr b" and rng: "blk_range b1"
    using ob(1) b(3) by (auto simp: ip_str_def b1_def blk_range_def in_s64_def state_code_def size_defs split: if_splits)
  obtain c1 c2 c3 c4 where c: "resp_long (p + field_off ?l ''state'') (state_code (blk_state b1)) c = Some c1"
    "resp_str (p + field_off ?l ''ds_ipaddr'') bip c1 = Some c2" "resp_long (p + field_off ?l ''ds_port'') (blk_port b1) c2 = Some c3"
    "resp_long (p + field_off ?l ''last_sync_sequence'') (last_sync_sequence b1) c3 = Some c4"
    and rec: "heartbeat_loop e rq own ip qs (Suc i) (p + (n + size_of ?l)) (n + size_of ?l) c4 (t\<lparr>db_blks := store q b1 (db_blks t)\<rparr>) = Some res"
    using r b ob bip by (auto simp: bind_eq_Some_conv Let_def b1_def)
  note o = brief_offs
  have g4: "get_bytes (wbuff c4) k m = get_bytes (wbuff c3) k m" if "k + m \<le> p + 32 \<or> p + 40 \<le> k" for k m
    by (rule resp_long_get(2) [OF c(4)]) (use that in \<open>auto simp: o\<close>)
  have g3: "get_bytes (wbuff c3) k m = get_bytes (wbuff c2) k m" if "k + m \<le> p + 24 \<or> p + 32 \<le> k" for k m
    by (rule resp_long_get(2) [OF c(3)]) (use that in \<open>auto simp: o\<close>)
  have g2: "get_bytes (wbuff c2) k m = get_bytes (wbuff c1) k m" if "k + m \<le> p + 8 \<or> p + 24 \<le> k" for k m
    by (rule resp_str_get(2) [OF c(2)]) (use that bip(1,2) in \<open>auto simp: o\<close>)
  have g1: "get_bytes (wbuff c1) k m = get_bytes (wbuff c) k m" if "k + m \<le> p \<or> p + 8 \<le> k" for k m
    by (rule resp_long_get(2) [OF c(1)]) (use that in \<open>auto simp: o\<close>)
  have "get_long (wbuff c4) p = Some (state_code (blk_state b1))"
    using resp_long_get(1) [OF c(1)] rng get_long_cong [of "wbuff c4" p "wbuff c1"] g4 [of p 8] g3 [of p 8] g2 [of p 8]
    by (simp add: o blk_range_def)
  moreover have "get_bytes (wbuff c4) (p + 8) (length (ip_addr b1)) = Some (ip_addr b1)"
    using resp_str_get(1) [OF c(2)] bip g4 [of "p + 8" "length bip"] g3 [of "p + 8" "length bip"] by (simp add: o)
  moreover have "get_long (wbuff c4) (p + 24) = Some (blk_port b1)"
    using resp_long_get(1) [OF c(3)] rng get_long_cong [of "wbuff c4" "p + 24" "wbuff c3"] g4 [of "p + 24" 8]
    by (simp add: o blk_range_def)
  moreover have "get_long (wbuff c4) (p + 32) = Some (last_sync_sequence b1)"
    using resp_long_get(1) [OF c(4)] rng by (simp add: o blk_range_def)
  ultimately have "brief_at (wbuff c4) p b1" by (simp add: brief_at_def o)
  moreover have "size_of ?l = 40" by (simp add: o)
  moreover have "get_bytes (wbuff c4) k m = get_bytes (wbuff c) k m" if "k + m \<le> p \<or> p + 40 \<le> k" for k m
    using that g4 [of k m] g3 [of k m] g2 [of k m] g1 [of k m] by auto
  ultimately show ?thesis using rec bip(2,3) by (intro exI [of _ c4] exI [of _ b1]) simp
qed

lemma resp_str_defined: "off + length x \<le> length (wbuff c) \<Longrightarrow> \<exists>c'. resp_str off x c = Some c' \<and> length (wbuff c') = length (wbuff c)"
  by (auto simp: resp_str_def put_bytes_def)

lemma resp_long_defined: "off + 8 \<le> length (wbuff c) \<Longrightarrow> \<exists>c'. resp_long off i c = Some c' \<and> length (wbuff c') = length (wbuff c)"
  unfolding resp_long_str by (rule resp_str_defined) simp

text \<open>With room for all the records (at their growing distances) the loop returns.\<close>

fun room :: "nat \<Rightarrow> nat \<Rightarrow> nat \<Rightarrow> nat" where
  "room p n 0 = p"
| "room p n (Suc k) = max (p + 40) (room (p + (n + 40)) (n + 40) k)"

lemma heartbeat_loop_defined:
  assumes "\<And>q. q \<in> set qs \<Longrightarrow> \<exists>b. cells (db_blks t) q = Some b \<and> ip_addr b \<noteq> ip \<and> length (ip_addr b) < 16"
    and "cells (db_blks t) own \<noteq> None" and "room p n (length qs) \<le> length (wbuff c)"
  shows "heartbeat_loop e rq own ip qs i p n c t \<noteq> None"
  using assms
proof (induction qs arbitrary: i p n c t)
  case (Cons q qs)
  let ?l = block_brief_info_resp
  obtain b ob where b: "cells (db_blks t) q = Some b" "ip_addr b \<noteq> ip" "length (ip_addr b) < 16" "cells (db_blks t) own = Some ob"
    using Cons.prems(1) [of q] Cons.prems(2) by auto
  define b1 where "b1 = (if se_time e rq i - last_heartbeat_time ob > se_interval e then b\<lparr>blk_state := St_off_line\<rparr> else b)"
  have len: "p + 40 \<le> length (wbuff c)" using Cons.prems(3) by simp
  obtain c1 where c1: "resp_long (p + field_off ?l ''state'') (state_code (blk_state b1)) c = Some c1" "length (wbuff c1) = length (wbuff c)"
    using resp_long_defined [of "p + field_off ?l ''state''" c] len by (auto simp: brief_offs)
  obtain c2 where c2: "resp_str (p + field_off ?l ''ds_ipaddr'') (ip_addr b) c1 = Some c2" "length (wbuff c2) = length (wbuff c)"
    using resp_str_defined [of "p + field_off ?l ''ds_ipaddr''" "ip_addr b" c1] len c1(2) b(3) by (auto simp: brief_offs)
  obtain c3 where c3: "resp_long (p + field_off ?l ''ds_port'') (blk_port b1) c2 = Some c3" "length (wbuff c3) = length (wbuff c)"
    using resp_long_defined [of "p + field_off ?l ''ds_port''" c2] len c2(2) by (auto simp: brief_offs)
  obtain c4 where c4: "resp_long (p + field_off ?l ''last_sync_sequence'') (last_sync_sequence b1) c3 = Some c4" "length (wbuff c4) = length (wbuff c)"
    using resp_long_defined [of "p + field_off ?l ''last_sync_sequence''" c3] len c3(2) by (auto simp: brief_offs)
  let ?t = "t\<lparr>db_blks := store q b1 (db_blks t)\<rparr>"
  have "heartbeat_loop e rq own ip qs (Suc i) (p + (n + size_of ?l)) (n + size_of ?l) c4 ?t \<noteq> None"
  proof (rule Cons.IH)
    fix q' assume "q' \<in> set qs"
    then show "\<exists>b. cells (db_blks ?t) q' = Some b \<and> ip_addr b \<noteq> ip \<and> length (ip_addr b) < 16"
      using Cons.prems(1) [of q'] b by (cases "q' = q") (auto simp: mem_simps b1_def)
  qed (use Cons.prems(2,3) c4(2) in \<open>auto simp: mem_simps brief_offs\<close>)
  moreover have "ip_str b = Some (ip_addr b)" using b(3) by (simp add: ip_str_def size_defs)
  ultimately show ?case using b c1(1) c2(1) c3(1) c4(1) by (simp add: Let_def b1_def [symmetric])
qed simp

lemma brief_at_cong:
  assumes "brief_at buf p b" and "length (ip_addr b) < 16" and "\<And>k m. p \<le> k \<Longrightarrow> k + m \<le> p + 40 \<Longrightarrow> get_bytes buf' k m = get_bytes buf k m"
  shows "brief_at buf' p b"
proof -
  have "get_long buf' k = get_long buf k" if "p \<le> k" "k + 8 \<le> p + 40" for k using assms(3) [OF that] by (rule get_long_cong)
  then show ?thesis using assms by (simp add: brief_at_def layout_defs)
qed

subsection \<open>The dispatcher\<close>

lemma dispatch_cmd_handled:
  assumes "dispatch_cmd e junk cmd c s = Some (c', s')" and "handler_of cmd \<noteq> None" and "cmd \<noteq> cmd_code CMD_TEST"
    and "buf_ok c" and "db_ok (sv_db s)"
  shows "only_wbuff c c' \<and> db_ok (sv_db s') \<and> (resp_ok c' \<or> c_state c' = conn_closed)"
proof -
  obtain hnd st c1 s1 where h: "handler_of cmd = Some hnd" "hnd e c s = Some (st, c1, s1)"
    and r: "(if status_code st \<noteq> 0 then do { c \<leftarrow> handle_protocol_error (status_code st) c1; Some (c, s1\<lparr>sv_reqs := Suc (sv_reqs s1)\<rparr>) }
      else Some (c1, s1\<lparr>sv_reqs := Suc (sv_reqs s1)\<rparr>)) = Some (c', s')"
    using assms(1,2) by (auto simp: dispatch_cmd_def bind_eq_Some_conv Let_def)
  have k: "only_wbuff c c1" "db_ok (sv_db s1)" "st = RS_SUCCESS \<Longrightarrow> resp_ok c1 \<or> c_state c1 = conn_closed"
    using handler_handled [OF h(1) assms(3) h(2) assms(4,5)] by (auto simp: handled_def)
  note b = only_wbuff_ok [OF k(1) assms(4)]
  show ?thesis
  proof (cases "st = RS_SUCCESS")
    case True
    then show ?thesis using r k by auto
  next
    case False
    then have e: "handle_protocol_error (status_code st) c1 = Some c'" "sv_db s' = sv_db s1"
      using r by (auto simp: status_code_0_iff bind_eq_Some_conv)
    note p = protocol_error_ok [OF e(1) b]
    show ?thesis using p only_wbuff_trans [OF k(1) p(1)] k(2) e(2) by simp
  qed
qed

subsection \<open>Properties\<close>



text \<open>C33: The response to a heart beat lists the other servers of the volume in records of forty bytes. The first
  two records are in their places; the third one is written forty bytes too far, outside of the
  part of the buffer that is sent, so its place in the response is whatever the buffer contained.\<close>

theorem heartbeat_records:
  assumes r: "heartbeat_loop e rq own ip [q1, q2, q3] i header_size 0 c t = Some (n, c', t')"
    and d: "distinct [q1, q2, q3]"
    and b: "cells (db_blks t) q1 = Some b1" "cells (db_blks t) q2 = Some b2" "cells (db_blks t) q3 = Some b3"
    and ip: "ip_addr b1 \<noteq> ip" "ip_addr b2 \<noteq> ip" "ip_addr b3 \<noteq> ip" and rng: "blk_range b1" "blk_range b2" "blk_range b3"
  shows "n = 3 * size_of block_brief_info_resp \<and>
    brief_at (wbuff c') header_size (the (cells (db_blks t') q1)) \<and>
    brief_at (wbuff c') (header_size + 40) (the (cells (db_blks t') q2)) \<and>
    get_bytes (wbuff c') (header_size + 80) 40 = get_bytes (wbuff c) (header_size + 80) 40 \<and>
    brief_at (wbuff c') (header_size + 120) (the (cells (db_blks t') q3))"
proof -
  obtain c1 a1 where s1: "heartbeat_loop e rq own ip [q2, q3] (Suc i) 56 40 c1 (t\<lparr>db_blks := store q1 a1 (db_blks t)\<rparr>) = Some (n, c', t')"
    "brief_at (wbuff c1) 16 a1" "length (ip_addr a1) < 16" "\<forall>k m. k + m \<le> 16 \<or> 56 \<le> k \<longrightarrow> get_bytes (wbuff c1) k m = get_bytes (wbuff c) k m"
    using heartbeat_round [OF r b(1) ip(1) rng(1)] by (auto simp: header_size_def)
  let ?t1 = "t\<lparr>db_blks := store q1 a1 (db_blks t)\<rparr>"
  have "cells (db_blks ?t1) q2 = Some b2" using b(2) d by (simp add: mem_simps)
  from heartbeat_round [OF s1(1) this ip(2) rng(2)] obtain c2 a2 where
    s2: "heartbeat_loop e rq own ip [q3] (Suc (Suc i)) 136 80 c2 (?t1\<lparr>db_blks := store q2 a2 (db_blks ?t1)\<rparr>) = Some (n, c', t')"
    "brief_at (wbuff c2) 56 a2" "length (ip_addr a2) < 16" "\<forall>k m. k + m \<le> 56 \<or> 96 \<le> k \<longrightarrow> get_bytes (wbuff c2) k m = get_bytes (wbuff c1) k m"
    by auto
  let ?t2 = "?t1\<lparr>db_blks := store q2 a2 (db_blks ?t1)\<rparr>"
  have "cells (db_blks ?t2) q3 = Some b3" using b(3) d by (simp add: mem_simps)
  from heartbeat_round [OF s2(1) this ip(3) rng(3)] obtain c3 a3 where
    s3: "heartbeat_loop e rq own ip [] (Suc (Suc (Suc i))) 256 120 c3 (?t2\<lparr>db_blks := store q3 a3 (db_blks ?t2)\<rparr>) = Some (n, c', t')"
    "brief_at (wbuff c3) 136 a3" "\<forall>k m. k + m \<le> 136 \<or> 176 \<le> k \<longrightarrow> get_bytes (wbuff c3) k m = get_bytes (wbuff c2) k m"
    by auto
  then have e: "n = 120" "c' = c3" "t' = ?t2\<lparr>db_blks := store q3 a3 (db_blks ?t2)\<rparr>" by auto
  have t: "the (cells (db_blks t') q1) = a1" "the (cells (db_blks t') q2) = a2" "the (cells (db_blks t') q3) = a3"
    using d by (simp_all add: e(3) mem_simps)
  have "brief_at (wbuff c') 16 a1" by (rule brief_at_cong [OF s1(2,3)]) (use s2(4) s3(3) e(2) in simp)
  moreover have "brief_at (wbuff c') 56 a2" by (rule brief_at_cong [OF s2(2,3)]) (use s3(3) e(2) in simp)
  moreover have "get_bytes (wbuff c') 96 40 = get_bytes (wbuff c) 96 40" using s1(4) s2(4) s3(3) e(2) by simp
  ultimately show ?thesis using t s3(2) e(1,2) by (simp add: header_size_def layout_defs)
qed

definition demo_conn :: conn where
  "demo_conn = (fresh_conn 5 256)\<lparr>c_state := conn_parse_cmd, rcurr := header_size\<rparr>"

definition demo_env :: service_env where
  "demo_env = \<lparr>se_hash = (\<lambda>_. 7), se_random = (\<lambda>_. 0), se_time = (\<lambda>_ _. 0), se_interval = 30\<rparr>"

lemma demo_conn_ok: "buf_ok demo_conn" "rcurr demo_conn + size_of datasevr_reg_body_req \<le> length (rbuff demo_conn)"
  by (simp_all add: buf_ok_def demo_conn_def fresh_conn_def header_size_def layout_defs)

lemma demo_conn_str: "field_off l f < 100 \<Longrightarrow> req_str l f demo_conn = Some []"
  by (simp add: req_str_def demo_conn_def fresh_conn_def header_size_def cstr_at_def cstr_of_def)

text \<open>The heart beat of a server that is not registered is answered with an error.\<close>

lemma unknown_server_dispatch:
  assumes inv: "db_inv (sv_db s) os ps" and mem: "members os ps = {}"
    and req: "req_str datasevr_heartbeat_body_req ''map_info'' c = Some vn" "req_str datasevr_heartbeat_body_req ''ds_ipaddr'' c = Some ip"
    and len: "10 \<le> length (rbuff c)" "10 \<le> length (wbuff c)"
  shows "handler_of (cmd_code CMD_DATASERVER_HEARTBEAT) = Some handle_cmd_heartbeat"
    "\<exists>c' s'. dispatch_cmd e junk (cmd_code CMD_DATASERVER_HEARTBEAT) c s = Some (c', s')"
proof -
  have "find_server e datasevr_heartbeat_body_req c (sv_db s) = Some NULL"
    using byid_find_defined [OF inv, of "se_hash e vn" "se_hash e ip"] mem req by (auto simp: find_server_def find_by_id)
  then have h: "handle_cmd_heartbeat e c s = Some (RS_ERROR_UNREGISTER, c, s)" by (simp add: handle_cmd_heartbeat_def)
  have p: "\<exists>c'. handle_protocol_error 14 c = Some c'"
    using len by (simp add: handle_protocol_error_def write_error_msg_def get_header_def get_bytes_def put_header_Some)
  show k: "handler_of (cmd_code CMD_DATASERVER_HEARTBEAT) = Some handle_cmd_heartbeat" by (simp add: handler_of_def)
  then show "\<exists>c' s'. dispatch_cmd e junk (cmd_code CMD_DATASERVER_HEARTBEAT) c s = Some (c', s')"
    using h p by (auto simp: dispatch_cmd_def Let_def)
qed



definition demo_volume :: "datasevr_block heap" where
  "demo_volume = \<lparr>cells = [1 \<mapsto> zero_block\<lparr>ip_addr := [49]\<rparr>, 2 \<mapsto> zero_block\<lparr>ip_addr := [50]\<rparr>, 3 \<mapsto> zero_block\<lparr>ip_addr := [51]\<rparr>,
     4 \<mapsto> zero_block\<lparr>ip_addr := [52]\<rparr>], brk = 5, oom = (\<lambda>_. False), nalloc = 0\<rparr>"

theorem heartbeat_records_witness:
  "\<exists>t n c' t'. heartbeat_loop demo_env 0 1 [49] [2, 3, 4] 1 header_size 0 demo_conn t = Some (n, c', t') \<and>
    get_bytes (wbuff c') (header_size + 80) 40 = get_bytes (wbuff demo_conn) (header_size + 80) 40"
proof -
  obtain t0 :: tracker_db where True by blast
  define t where "t = t0\<lparr>db_blks := demo_volume\<rparr>"
  have b: "cells (db_blks t) 2 = Some (zero_block\<lparr>ip_addr := [50]\<rparr>)" "cells (db_blks t) 3 = Some (zero_block\<lparr>ip_addr := [51]\<rparr>)"
    "cells (db_blks t) 4 = Some (zero_block\<lparr>ip_addr := [52]\<rparr>)" by (simp_all add: t_def demo_volume_def)
  have k: "q \<in> {2, 3, 4} \<Longrightarrow> (\<exists>b. cells (db_blks t) q = Some b \<and> ip_addr b \<noteq> [49] \<and> length (ip_addr b) < 16)" for q
    using b by auto
  have own: "cells (db_blks t) 1 \<noteq> None" by (simp add: t_def demo_volume_def)
  have "heartbeat_loop demo_env 0 1 [49] [2, 3, 4] 1 header_size 0 demo_conn t \<noteq> None"
    by (rule heartbeat_loop_defined) (use k own in \<open>auto simp: demo_conn_def fresh_conn_def header_size_def\<close>)
  then obtain n c' t' where r: "heartbeat_loop demo_env 0 1 [49] [2, 3, 4] 1 header_size 0 demo_conn t = Some (n, c', t')" by auto
  have "n = 3 * size_of block_brief_info_resp \<and>
    brief_at (wbuff c') header_size (the (cells (db_blks t') 2)) \<and>
    brief_at (wbuff c') (header_size + 40) (the (cells (db_blks t') 3)) \<and>
    get_bytes (wbuff c') (header_size + 80) 40 = get_bytes (wbuff demo_conn) (header_size + 80) 40 \<and>
    brief_at (wbuff c') (header_size + 120) (the (cells (db_blks t') 4))"
    by (rule heartbeat_records [OF r _ b])
      (simp_all add: blk_range_def zero_block_def state_code_def in_s64_def)
  then show ?thesis using r by blast
qed

end
