(* ===== verification/Ts_Accept.thy ===== *)
theory Ts_Accept
  imports Ts_Conn
begin

text \<open>
  The first half of \<open>src/trackerserver/ts_thread.c\<close>: the main thread accepts connections and hands them
  over to the worker threads in turn, through the queue of a worker and a byte in its notification
  pipe; the worker takes an item for every byte that it reads. The pools, the queues, the pipes and
  the counters are the state \<open>workers\<close>; a pipe is the number of bytes in it. The two functions run in
  different threads, so a run is any interleaving of their calls (\<open>wrun\<close>), with two ghost values: the
  descriptors handed over so far and, for every worker, the descriptors it has taken.
\<close>

subsection \<open>State and operations\<close>

record workers =
  wk_pool :: pool
  cq_heads :: "nat list"
  pipes :: "nat list"
  last_tid :: int
  cx_curr_conns :: u32
  cx_total_conns :: u32
  cx_rejected_conns :: u64
  cx_reserved_fds :: u32
  wk_conns :: "int \<rightharpoonup> conn"
  wk_closed :: "int list"
  wk_calls :: nat

record tracker_confs =
  cf_max_connections :: int
  cf_conn_buffer_size :: nat
  cf_max_fds :: int

text \<open>\<open>__setup_thread\<close>; \<open>base_ok\<close> and \<open>add_ok\<close> are the answers of libevent.\<close>

definition setup_thread :: "bool \<Rightarrow> bool \<Rightarrow> nat \<Rightarrow> pool \<Rightarrow> (int \<times> pool) option" where
  "setup_thread base_ok add_ok h p =
     (if \<not> base_ok then Some (LFS_ERROR, p)
      else if \<not> add_ok then Some (LFS_ERROR, p)
      else do { s \<leftarrow> init_queue h (p_links p); Some (LFS_OK, p\<lparr>p_links := s\<rparr>) })"

text \<open>The first loop of \<open>ts_thread_init\<close>; it ignores the result of \<open>__setup_thread\<close>. The second element of
  the result is false when a pipe could not be created.\<close>

primrec setup_threads :: "(bool \<times> bool \<times> bool) list \<Rightarrow> nat list \<Rightarrow> workers \<Rightarrow> (bool \<times> workers) option" where
  "setup_threads rs [] w = Some (True, w)"
| "setup_threads rs (h # hs) w =
     (case rs of
        [] \<Rightarrow> None
      | (pipe_ok, base_ok, add_ok) # rs' \<Rightarrow>
          if \<not> pipe_ok then Some (False, w)
          else do {
            (_, p) \<leftarrow> setup_thread base_ok add_ok h (wk_pool w);
            setup_threads (tl rs) hs (w\<lparr>wk_pool := p, pipes := pipes w @ [0], cx_reserved_fds := cx_reserved_fds w + 5\<rparr>)
          })"

definition ts_thread_init :: "bool \<Rightarrow> (bool \<times> bool \<times> bool) list \<Rightarrow> nat list \<Rightarrow> workers \<Rightarrow> (int \<times> workers) option" where
  "ts_thread_init calloc_ok rs hs w =
     (if \<not> calloc_ok then Some (LFS_ERROR, w)
      else do {
        (ok, w) \<leftarrow> setup_threads rs hs (w\<lparr>cq_heads := hs, pipes := []\<rparr>);
        Some (if ok then 0 else LFS_ERROR, w)
      })"

definition set_item :: "nat \<Rightarrow> conn_item \<Rightarrow> pool \<Rightarrow> pool" where
  "set_item x it p = p\<lparr>p_items := store x it (p_items p)\<rparr>"

text \<open>\<open>__dispatch_conn\<close>; \<open>sent\<close> is whether the byte could be written to the pipe.\<close>

definition dispatch_conn :: "bool \<Rightarrow> int \<Rightarrow> workers \<Rightarrow> workers option" where
  "dispatch_conn sent sfd w = do {
     (item, p) \<leftarrow> conn_item_new (wk_pool w);
     if item = NULL then Some (w\<lparr>wk_pool := p, wk_closed := wk_closed w @ [sfd]\<rparr>)
     else if cq_heads w = [] then None
     else do {
       let tid = (last_tid w + 1) mod int (length (cq_heads w));
       let p = set_item item \<lparr>ci_sfd = sfd, ci_init_state = conn_read, ci_event_flags = EV_READ + EV_PERSIST\<rparr> p;
       p \<leftarrow> push_item (cq_heads w ! nat tid) item p;
       Some (w\<lparr>wk_pool := p, last_tid := tid, cx_curr_conns := cx_curr_conns w + 1, cx_total_conns := cx_total_conns w + 1,
               pipes := (if sent then (pipes w)[nat tid := Suc (pipes w ! nat tid)] else pipes w)\<rparr>)
     }
   }"

text \<open>\<open>__on_accept\<close> with the result \<open>cfd\<close> of \<open>accept\<close>; the sum of the counters is compared as an unsigned
  number.\<close>

definition on_accept :: "tracker_confs \<Rightarrow> bool \<Rightarrow> int \<Rightarrow> workers \<Rightarrow> workers option" where
  "on_accept cf sent cfd w =
     (if cfd > 0 then
        if cx_curr_conns w + cx_reserved_fds w \<ge> word_of_int (cf_max_connections cf - 1)
        then Some (w\<lparr>wk_closed := wk_closed w @ [cfd], cx_rejected_conns := cx_rejected_conns w + 1\<rparr>)
        else dispatch_conn sent cfd w
      else Some w)"

text \<open>\<open>ts_accept_loop\<close> on the results of the successive calls of \<open>accept\<close> until the flag is cleared.\<close>

primrec ts_accept_loop :: "int list \<Rightarrow> workers \<Rightarrow> workers option" where
  "ts_accept_loop [] w = Some w"
| "ts_accept_loop (sfd # rs) w =
     (if sfd < 0 then ts_accept_loop rs w else do { w \<leftarrow> dispatch_conn True sfd w; ts_accept_loop rs w })"

text \<open>\<open>__libevent_thread_callback\<close> of worker \<open>i\<close> with the byte that it has read; the first element of the
  result is the descriptor of the item that was taken.\<close>

definition libevent_thread_callback ::
  "sys \<Rightarrow> tracker_confs \<Rightarrow> nat \<Rightarrow> byte \<Rightarrow> workers \<Rightarrow> (int option \<times> workers) option" where
  "libevent_thread_callback sy cf i b w =
     (if b \<noteq> byte_of_char (CHR ''c'') then Some (None, w)
      else if length (cq_heads w) \<le> i then None
      else do {
        (x, p) \<leftarrow> pop_item (cq_heads w ! i) (wk_pool w);
        if x = NULL then Some (None, w\<lparr>wk_pool := p\<rparr>)
        else do {
          it \<leftarrow> cells (p_items p) x;
          (ok, cs, k) \<leftarrow> conn_new sy (cf_max_fds cf) (ci_sfd it) (ci_init_state it) (cf_conn_buffer_size cf)
                          (ci_event_flags it) (wk_conns w) (wk_calls w);
          p \<leftarrow> conn_item_free x p;
          Some (Some (ci_sfd it), w\<lparr>wk_pool := p, wk_conns := cs, wk_calls := k,
                                    wk_closed := (if ok then wk_closed w else wk_closed w @ [ci_sfd it])\<rparr>)
        }
      })"

text \<open>The worker reads a byte of its pipe and runs the callback.\<close>

definition worker_step :: "sys \<Rightarrow> tracker_confs \<Rightarrow> nat \<Rightarrow> workers \<Rightarrow> (int option \<times> workers) option" where
  "worker_step sy cf i w =
     (if i < length (pipes w) \<and> 0 < pipes w ! i
      then libevent_thread_callback sy cf i (byte_of_char (CHR ''c'')) (w\<lparr>pipes := (pipes w)[i := pipes w ! i - 1]\<rparr>)
      else None)"

inductive wrun :: "sys \<Rightarrow> tracker_confs \<Rightarrow> workers \<Rightarrow> workers \<Rightarrow> int list \<Rightarrow> (nat \<Rightarrow> int list) \<Rightarrow> bool"
  for sy :: sys and cf :: tracker_confs and w0 :: workers where
  start: "wrun sy cf w0 w0 [] (\<lambda>_. [])"
| handed: "wrun sy cf w0 w acc dl \<Longrightarrow> 0 \<le> sfd \<Longrightarrow> sfd < cf_max_fds cf \<Longrightarrow> dispatch_conn True sfd w = Some w' \<Longrightarrow>
     wrun sy cf w0 w' (acc @ [sfd]) dl"
| taken: "wrun sy cf w0 w acc dl \<Longrightarrow> worker_step sy cf i w = Some (Some sfd, w') \<Longrightarrow>
     wrun sy cf w0 w' acc (dl(i := dl i @ [sfd]))"
| idle: "wrun sy cf w0 w acc dl \<Longrightarrow> worker_step sy cf i w = Some (None, w') \<Longrightarrow> wrun sy cf w0 w' acc dl"

subsection \<open>The invariant\<close>

text \<open>The descriptors that worker \<open>i\<close> of \<open>n\<close> is due to take.\<close>

definition share :: "nat \<Rightarrow> nat \<Rightarrow> int list \<Rightarrow> int list" where
  "share n i acc = map (\<lambda>j. acc ! j) (filter (\<lambda>j. j mod n = i) [0 ..< length acc])"

definition sfd_of :: "pool \<Rightarrow> nat \<Rightarrow> int" where
  "sfd_of p x = ci_sfd (the (cells (p_items p) x))"

definition winv :: "tracker_confs \<Rightarrow> workers \<Rightarrow> int list \<Rightarrow> (nat \<Rightarrow> int list) \<Rightarrow> (nat \<Rightarrow> nat list) \<Rightarrow> bool" where
  "winv cf w acc dl q \<longleftrightarrow>
     (let p = wk_pool w; hs = cq_heads w; n = length hs in
      pool_inv p (insert (freecitems p) (set hs)) q \<and> distinct (freecitems p # hs) \<and> oom (p_items p) = (\<lambda>_. False) \<and>
      0 < n \<and> length (pipes w) = n \<and> -1 \<le> last_tid w \<and> (last_tid w + 1) mod int n = int (length acc) mod int n \<and>
      (\<forall>i < n. pipes w ! i = length (q (hs ! i)) \<and> dl i @ map (sfd_of p) (q (hs ! i)) = share n i acc) \<and>
      (\<forall>s \<in> set acc. 0 \<le> s \<and> s < cf_max_fds cf))"

lemma share_snoc: "share n i (acc @ [s]) = share n i acc @ (if length acc mod n = i then [s] else [])"
  by (auto simp: share_def nth_append intro!: map_cong)

lemma share_subset: "set (share n i acc) \<subseteq> set acc"
  by (auto simp: share_def)

lemma set_item_ok:
  assumes "pool_inv p H q" and "x \<in> dom (cells (p_items p))"
  shows "pool_inv (set_item x it p) H q"
proof -
  have "heap_ok (store x it (p_items p))" using assms by (intro heap_ok_store) (simp_all add: pool_inv_def)
  moreover have "h \<noteq> x" if "h \<in> H" for h using pool_invD(3) [OF assms(1) that] assms(2) by auto
  moreover have "brk (store x it (p_items p)) = brk (p_items p)" "dom (cells (store x it (p_items p))) = dom (cells (p_items p))"
    using assms(2) by (auto simp: store_def)
  ultimately show ?thesis using assms unfolding pool_inv_def by (simp add: set_item_def mem_simps)
qed

lemma winvD:
  assumes "winv cf w acc dl q"
  shows "pool_inv (wk_pool w) (insert (freecitems (wk_pool w)) (set (cq_heads w))) q" "distinct (freecitems (wk_pool w) # cq_heads w)"
    "oom (p_items (wk_pool w)) = (\<lambda>_. False)" "0 < length (cq_heads w)" "length (pipes w) = length (cq_heads w)" "-1 \<le> last_tid w"
    "(last_tid w + 1) mod int (length (cq_heads w)) = int (length acc) mod int (length (cq_heads w))"
    "\<And>i. i < length (cq_heads w) \<Longrightarrow> pipes w ! i = length (q (cq_heads w ! i)) \<and>
      dl i @ map (sfd_of (wk_pool w)) (q (cq_heads w ! i)) = share (length (cq_heads w)) i acc"
    "\<And>s. s \<in> set acc \<Longrightarrow> 0 \<le> s \<and> s < cf_max_fds cf"
  using assms unfolding winv_def Let_def by blast+

lemma queuedI: "h \<in> H \<Longrightarrow> y \<in> set (q h) \<Longrightarrow> y \<in> queued H q"
  by (auto simp: queued_def)

lemma conn_new_defined: "0 \<le> sfd \<Longrightarrow> sfd < m \<Longrightarrow> \<exists>ok cs' k'. conn_new sy m sfd st n fl cs k = Some (ok, cs', k')"
  by (cases "cs sfd") (auto simp: conn_new_def Let_def)

lemma winv_head:
  assumes "winv cf w acc dl q" and "j < length (cq_heads w)"
  shows "cq_heads w ! j \<in> insert (freecitems (wk_pool w)) (set (cq_heads w))" "cq_heads w ! j \<noteq> freecitems (wk_pool w)"
  using winvD(2) [OF assms(1)] nth_mem [OF assms(2)] by auto

lemma dispatch_ok:
  assumes inv: "winv cf w acc dl q" and r: "0 \<le> sfd" "sfd < cf_max_fds cf"
  shows "\<exists>w' q'. dispatch_conn True sfd w = Some w' \<and> winv cf w' (acc @ [sfd]) dl q' \<and> cq_heads w' = cq_heads w"
proof -
  let ?p = "wk_pool w" and ?hs = "cq_heads w" and ?n = "length (cq_heads w)" and ?f = "freecitems (wk_pool w)"
  let ?H = "insert ?f (set ?hs)" and ?it = "\<lparr>ci_sfd = sfd, ci_init_state = conn_read, ci_event_flags = EV_READ + EV_PERSIST\<rparr>"
  note i = winvD [OF inv]
  define tid where "tid = nat ((last_tid w + 1) mod int ?n)"
  have tid: "tid = length acc mod ?n" "tid < ?n" using i(4,7) by (auto simp: tid_def nat_mod_distrib)
  obtain x p1 ys where n: "conn_item_new ?p = Some (x, p1)" "pool_inv p1 ?H (q(?f := ys))" "freecitems p1 = ?f"
    "x \<noteq> NULL" "oom (p_items p1) = (\<lambda>_. False)" "cells (p_items p1) x = Some zero_item" "x \<notin> queued ?H (q(?f := ys))"
    "\<forall>y. y \<noteq> x \<longrightarrow> y \<notin> set (q ?f) \<longrightarrow> cells (p_items ?p) y \<noteq> None \<longrightarrow> cells (p_items p1) y = cells (p_items ?p) y"
    using conn_item_new_ok [OF i(1)] i(3) by blast
  define q1 where "q1 = q(?f := ys)"
  define p2 where "p2 = set_item x ?it p1"
  have p2: "pool_inv p2 ?H q1" unfolding p2_def q1_def by (rule set_item_ok [OF n(2)]) (use n(6) in auto)
  have c2: "freecitems p2 = ?f" "oom (p_items p2) = (\<lambda>_. False)" "cells (p_items p2) = (cells (p_items p1))(x \<mapsto> ?it)"
    using n(3,5) by (simp_all add: p2_def set_item_def mem_simps) (simp add: store_def)
  have hm: "?hs ! tid \<in> ?H" using tid(2) by simp
  obtain s where s: "push_item (?hs ! tid) x p2 = Some (p2\<lparr>p_links := s\<rparr>)"
    "pool_inv (p2\<lparr>p_links := s\<rparr>) ?H (q1(?hs ! tid := q1 (?hs ! tid) @ [x]))"
    using push_item_ok [OF p2 hm] n(7) c2(3) by (auto simp: q1_def)
  define q2 where "q2 = q1(?hs ! tid := q1 (?hs ! tid) @ [x])"
  have qe: "q1 (?hs ! j) = q (?hs ! j)" if "j < ?n" for j using winv_head [OF inv that] by (simp add: q1_def)
  have sf: "sfd_of (p2\<lparr>p_links := s\<rparr>) y = sfd_of ?p y" if j: "j < ?n" "y \<in> set (q (?hs ! j))" for y j
  proof -
    have h: "?hs ! j \<in> ?H" "?hs ! j \<noteq> ?f" by (rule winv_head [OF inv j(1)])+
    have "y \<noteq> x" using n(7) queuedI [OF h(1), of y "q(?f := ys)"] j(2) h(2) by auto
    moreover have "y \<notin> set (q ?f)" using pool_inv_disj [OF i(1) h(1) _ h(2)] j(2) by auto
    moreover have "cells (p_items ?p) y \<noteq> None" using pool_invD(2) [OF i(1) h(1)] j(2) by auto
    ultimately show ?thesis using n(8) c2(3) by (simp add: sfd_of_def)
  qed
  have sm: "map (sfd_of (p2\<lparr>p_links := s\<rparr>)) (q (?hs ! j)) = map (sfd_of ?p) (q (?hs ! j))" if "j < ?n" for j
    using sf [OF that] by simp
  have ne: "?hs ! j \<noteq> ?hs ! tid" if "j < ?n" "j \<noteq> tid" for j using that tid(2) i(2) by (simp add: nth_eq_iff_index_eq)
  let ?w = "w\<lparr>wk_pool := p2\<lparr>p_links := s\<rparr>, last_tid := int tid, cx_curr_conns := cx_curr_conns w + 1,
    cx_total_conns := cx_total_conns w + 1, pipes := (pipes w)[tid := Suc (pipes w ! tid)]\<rparr>"
  have "int tid = (last_tid w + 1) mod int ?n" using i(4) by (simp add: tid_def)
  then have "dispatch_conn True sfd w = Some ?w"
    using n(1,4) i(4) s(1) by (simp add: dispatch_conn_def p2_def [symmetric] tid_def [symmetric] Let_def)
  moreover have "pipes ?w ! j = length (q2 (?hs ! j)) \<and> dl j @ map (sfd_of (wk_pool ?w)) (q2 (?hs ! j)) = share ?n j (acc @ [sfd])"
    if j: "j < ?n" for j
  proof (cases "j = tid")
    case True
    have "sfd_of (p2\<lparr>p_links := s\<rparr>) x = sfd" by (simp add: sfd_of_def c2(3))
    then show ?thesis using True i(8) [OF j] i(5) tid qe [OF j] sm [OF j] by (auto simp: share_snoc q2_def simp del: map_eq_conv)
  next
    case False
    then show ?thesis using i(8) [OF j] ne [OF j] tid(1) qe [OF j] sm [OF j] by (auto simp: share_snoc q2_def simp del: map_eq_conv)
  qed
  moreover have "(int tid + 1) mod int ?n = (int (length acc) + 1) mod int ?n"
    using tid(1) by (simp add: zmod_int mod_add_left_eq)
  ultimately show ?thesis using s(2) i(2,4,5,9) r c2(1,2)
    by (intro exI [of _ ?w] exI [of _ q2]) (auto simp: winv_def Let_def q2_def [symmetric] add.commute)
qed

lemma worker_ok:
  assumes inv: "winv cf w acc dl q" and j: "j < length (pipes w)" "0 < pipes w ! j"
  shows "\<exists>sfd w' q'. worker_step sy cf j w = Some (Some sfd, w') \<and> winv cf w' acc (dl(j := dl j @ [sfd])) q' \<and> cq_heads w' = cq_heads w"
proof -
  let ?p = "wk_pool w" and ?hs = "cq_heads w" and ?n = "length (cq_heads w)" and ?f = "freecitems (wk_pool w)"
  let ?H = "insert ?f (set ?hs)" and ?h = "cq_heads w ! j"
  note i = winvD [OF inv]
  have jn: "j < ?n" using j(1) i(5) by simp
  obtain x xs where x: "q ?h = x # xs" using j(2) i(8) [OF jn] by (cases "q ?h") auto
  have hm: "?h \<in> ?H" "?h \<noteq> ?f" by (rule winv_head [OF inv jn])+
  obtain s where s: "pop_item ?h ?p = Some (x, ?p\<lparr>p_links := s\<rparr>)" "pool_inv (?p\<lparr>p_links := s\<rparr>) ?H (q(?h := xs))"
    "x \<in> dom (cells (p_items ?p))" "x \<notin> queued ?H (q(?h := xs))" "x \<noteq> NULL" using pop_item_ok [OF i(1) hm(1) x] by blast
  obtain it where it: "cells (p_items ?p) x = Some it" using s(3) by blast
  have "ci_sfd it \<in> set (share ?n j acc)" using i(8) [OF jn] x it by (metis sfd_of_def Un_iff list.set_intros(1) list.simps(9) option.sel set_append)
  then have rng: "0 \<le> ci_sfd it" "ci_sfd it < cf_max_fds cf" using share_subset i(9) by blast+
  obtain ok cs k where cn: "conn_new sy (cf_max_fds cf) (ci_sfd it) (ci_init_state it) (cf_conn_buffer_size cf)
      (ci_event_flags it) (wk_conns w) (wk_calls w) = Some (ok, cs, k)"
    using conn_new_defined [OF rng] by blast
  define q1 where "q1 = q(?h := xs)"
  obtain p' where p': "conn_item_free x (?p\<lparr>p_links := s\<rparr>) = Some p'" "pool_inv p' ?H (q1(?f := q1 ?f @ [x]))" "freecitems p' = ?f"
    "oom (p_items p') = oom (p_items ?p)" "\<forall>y. y \<noteq> x \<longrightarrow> cells (p_items p') y = cells (p_items ?p) y"
    using conn_item_free_ok [OF s(2), of x] s(3,4) by (auto simp: q1_def)
  define q2 where "q2 = q1(?f := q1 ?f @ [x])"
  let ?w = "w\<lparr>pipes := (pipes w)[j := pipes w ! j - 1], wk_pool := p', wk_conns := cs, wk_calls := k,
    wk_closed := (if ok then wk_closed w else wk_closed w @ [ci_sfd it])\<rparr>"
  have "worker_step sy cf j w = Some (Some (ci_sfd it), ?w)"
    using j jn s(1,5) it cn p'(1) by (simp add: worker_step_def libevent_thread_callback_def)
  moreover have "pipes ?w ! a = length (q2 (?hs ! a)) \<and>
      (dl(j := dl j @ [ci_sfd it])) a @ map (sfd_of (wk_pool ?w)) (q2 (?hs ! a)) = share ?n a acc" if a: "a < ?n" for a
  proof -
    have f: "?hs ! a \<noteq> ?f" by (rule winv_head(2) [OF inv a])
    have sf: "sfd_of p' y = sfd_of ?p y" if "y \<in> set (q1 (?hs ! a))" for y
    proof -
      have "y \<noteq> x" using that s(4) queuedI [OF winv_head(1) [OF inv a], of y q1] by (auto simp: q1_def)
      then show ?thesis using p'(5) by (simp add: sfd_of_def)
    qed
    then have sm: "map (sfd_of p') (q1 (?hs ! a)) = map (sfd_of ?p) (q1 (?hs ! a))" by simp
    have sx: "sfd_of ?p x = ci_sfd it" by (simp add: sfd_of_def it)
    show ?thesis
    proof (cases "a = j")
      case True
      then show ?thesis using i(8) [OF jn] x f sm sx j(1) by (auto simp: q2_def q1_def simp del: map_eq_conv)
    next
      case False
      then have "?hs ! a \<noteq> ?h" using a jn i(2) by (simp add: nth_eq_iff_index_eq)
      then show ?thesis using False i(8) [OF a] f sm by (auto simp: q2_def q1_def simp del: map_eq_conv)
    qed
  qed
  ultimately show ?thesis using p'(2-4) i(2-7,9)
    by (intro exI [of _ "ci_sfd it"] exI [of _ ?w] exI [of _ q2]) (auto simp: winv_def Let_def q2_def [symmetric])
qed

subsection \<open>Start\<close>

text \<open>The state before the threads are created: no items yet, the list of free items is initialised,
  the structures of \<open>threads\<close> are allocated.\<close>

definition before_init :: "workers \<Rightarrow> nat list \<Rightarrow> bool" where
  "before_init w hs \<longleftrightarrow>
     (let p = wk_pool w in
      cells (p_items p) = Map.empty \<and> 0 < brk (p_items p) \<and> oom (p_items p) = (\<lambda>_. False) \<and> last_tid w = -1 \<and>
      dlist (p_links p) (freecitems p) [] \<and> distinct (freecitems p # hs) \<and>
      (\<forall>h \<in> set (freecitems p # hs). p_links p h \<noteq> None \<and> h < brk (p_items p)))"

lemma setup_threads_ok:
  "\<forall>r \<in> set rs. r = (True, True, True) \<Longrightarrow> length rs = length hs \<Longrightarrow> distinct hs \<Longrightarrow> (\<And>h. h \<in> set hs \<Longrightarrow> p_links (wk_pool w) h \<noteq> None) \<Longrightarrow>
   \<exists>w' s. setup_threads rs hs w = Some (True, w') \<and> wk_pool w' = (wk_pool w)\<lparr>p_links := s\<rparr> \<and> dom s = dom (p_links (wk_pool w)) \<and>
     (\<forall>h \<in> set hs. dlist s h []) \<and> (\<forall>y. y \<notin> set hs \<longrightarrow> s y = p_links (wk_pool w) y) \<and>
     pipes w' = pipes w @ replicate (length hs) 0 \<and> last_tid w' = last_tid w \<and> cq_heads w' = cq_heads w"
proof (induction hs arbitrary: rs w)
  case Nil
  then show ?case by (intro exI [of _ w] exI [of _ "p_links (wk_pool w)"]) simp
next
  case (Cons h hs)
  obtain rs' where rs: "rs = (True, True, True) # rs'" "\<forall>r \<in> set rs'. r = (True, True, True)" "length rs' = length hs"
    using Cons.prems(1,2) by (cases rs) auto
  obtain s where s: "init_queue h (p_links (wk_pool w)) = Some s" "dlist s h []" "\<forall>y. y \<noteq> h \<longrightarrow> s y = p_links (wk_pool w) y"
    "dom s = dom (p_links (wk_pool w))"
    using INIT_LIST_HEAD_ok [of "p_links (wk_pool w)" h] Cons.prems(4) by (auto simp: init_queue_def)
  define w1 where "w1 = w\<lparr>wk_pool := (wk_pool w)\<lparr>p_links := s\<rparr>, pipes := pipes w @ [0], cx_reserved_fds := cx_reserved_fds w + 5\<rparr>"
  have "p_links (wk_pool w1) g \<noteq> None" if "g \<in> set hs" for g
    using Cons.prems(4) [of g] that s(4) by (auto simp: w1_def)
  then obtain w' t where t: "setup_threads rs' hs w1 = Some (True, w')" "wk_pool w' = (wk_pool w1)\<lparr>p_links := t\<rparr>"
    "dom t = dom (p_links (wk_pool w1))" "\<forall>g \<in> set hs. dlist t g []" "\<forall>y. y \<notin> set hs \<longrightarrow> t y = p_links (wk_pool w1) y"
    "pipes w' = pipes w1 @ replicate (length hs) 0" "last_tid w' = last_tid w1" "cq_heads w' = cq_heads w1"
    using Cons.IH [OF rs(2,3), of w1] Cons.prems(3) by auto
  have "dlist t h []" by (rule dlist_cong [OF s(2)]) (use t(5) Cons.prems(3) in \<open>simp add: w1_def\<close>)
  moreover have "setup_threads rs (h # hs) w = Some (True, w')" using t(1) s(1) rs(1) by (simp add: setup_thread_def w1_def)
  ultimately show ?case using t(2-8) s(3,4)
    by (intro exI [of _ w'] exI [of _ t]) (auto simp: w1_def)
qed

lemma ts_thread_init_ok:
  assumes w: "before_init w hs" and hs: "hs \<noteq> []" and rs: "\<forall>r \<in> set rs. r = (True, True, True)" "length rs = length hs"
  shows "\<exists>w'. ts_thread_init True rs hs w = Some (0, w') \<and> winv cf w' [] (\<lambda>_. []) (\<lambda>_. []) \<and> cq_heads w' = hs"
proof -
  let ?w = "w\<lparr>cq_heads := hs, pipes := []\<rparr>" and ?p = "wk_pool w"
  have d: "distinct hs" "freecitems ?p \<notin> set hs" "\<And>h. h \<in> set hs \<Longrightarrow> p_links (wk_pool ?w) h \<noteq> None"
    using w by (auto simp: before_init_def Let_def)
  obtain w' s where s: "setup_threads rs hs ?w = Some (True, w')" "wk_pool w' = ?p\<lparr>p_links := s\<rparr>" "dom s = dom (p_links ?p)"
    "\<forall>h \<in> set hs. dlist s h []" "\<forall>y. y \<notin> set hs \<longrightarrow> s y = p_links ?p y" "pipes w' = replicate (length hs) 0"
    "last_tid w' = last_tid w" "cq_heads w' = hs"
    using setup_threads_ok [OF rs d(1,3)] by auto
  have "dlist s (freecitems ?p) []"
    by (rule dlist_cong [of "p_links ?p"]) (use w s(5) d(2) in \<open>auto simp: before_init_def Let_def\<close>)
  then have "pool_inv (wk_pool w') (insert (freecitems ?p) (set hs)) (\<lambda>_. [])"
    using w s(2-4) by (auto simp: before_init_def Let_def pool_inv_def heap_ok_def)
  then have "winv cf w' [] (\<lambda>_. []) (\<lambda>_. [])"
    using w s(2,6-8) d hs by (simp add: winv_def Let_def before_init_def share_def)
  then show ?thesis using s(1,8) by (simp add: ts_thread_init_def)
qed

lemma wrun_inv:
  assumes "wrun sy cf w0 w acc dl" and "winv cf w0 [] (\<lambda>_. []) q0"
  shows "\<exists>q. winv cf w acc dl q \<and> cq_heads w = cq_heads w0"
  using assms
proof (induction rule: wrun.induct)
  case (handed w acc dl sfd w')
  then show ?case using dispatch_ok by (metis option.inject)
next
  case (taken w acc dl i sfd w')
  then obtain q where q: "winv cf w acc dl q" "cq_heads w = cq_heads w0" by blast
  have "i < length (pipes w)" "0 < pipes w ! i" using taken(2) by (auto simp: worker_step_def split: if_splits)
  from worker_ok [OF q(1) this, of sy] obtain q' where "winv cf w' acc (dl(i := dl i @ [sfd])) q'" "cq_heads w' = cq_heads w"
    using taken(2) by auto
  then show ?case using q(2) by (metis (no_types, lifting))
next
  case (idle w acc dl i w')
  then obtain q where q: "winv cf w acc dl q" "cq_heads w = cq_heads w0" by blast
  have "i < length (pipes w)" "0 < pipes w ! i" using idle(2) by (auto simp: worker_step_def split: if_splits)
  from worker_ok [OF q(1) this, of sy] show ?case using idle(2) by auto
qed blast

subsection \<open>Properties\<close>

text \<open>C13: Whatever the interleaving of the main thread and the workers, connections go to the workers in turn and no
  connection is lost: what worker \<open>i\<close> has taken is a prefix of every \<open>n\<close>-th connection, what is missing
  is exactly announced in its pipe, a worker with an announcement takes a connection, and handing
  over the next connection never fails.\<close>

theorem connections_round_robin:
  assumes "before_init w hs" and "hs \<noteq> []" and "\<forall>r \<in> set rs. r = (True, True, True)" and "length rs = length hs"
    and "ts_thread_init True rs hs w = Some (0, w0)" and "wrun sy cf w0 w1 acc dl"
  shows "(\<forall>i < length hs. \<exists>pending. dl i @ pending = share (length hs) i acc \<and> length pending = pipes w1 ! i \<and>
      (0 < pipes w1 ! i \<longrightarrow> (\<exists>w2. worker_step sy cf i w1 = Some (Some (hd pending), w2)))) \<and>
    (\<forall>sfd. 0 \<le> sfd \<and> sfd < cf_max_fds cf \<longrightarrow> dispatch_conn True sfd w1 \<noteq> None)"
proof -
  obtain q where q: "winv cf w1 acc dl q" "cq_heads w1 = hs"
    using ts_thread_init_ok [OF assms(1-4), of cf] wrun_inv [OF assms(6)] assms(5) by auto
  note i = winvD [OF q(1), unfolded q(2)]
  have "\<exists>pending. dl j @ pending = share (length hs) j acc \<and> length pending = pipes w1 ! j \<and>
      (0 < pipes w1 ! j \<longrightarrow> (\<exists>w2. worker_step sy cf j w1 = Some (Some (hd pending), w2)))" if j: "j < length hs" for j
  proof (intro exI [of _ "map (sfd_of (wk_pool w1)) (q (hs ! j))"] conjI impI)
    show "dl j @ map (sfd_of (wk_pool w1)) (q (hs ! j)) = share (length hs) j acc"
      "length (map (sfd_of (wk_pool w1)) (q (hs ! j))) = pipes w1 ! j" using i(8) [OF j] by auto
    assume p: "0 < pipes w1 ! j"
    have jl: "j < length (pipes w1)" using j i(5) by simp
    obtain sfd w2 q' where s: "worker_step sy cf j w1 = Some (Some sfd, w2)" "winv cf w2 acc (dl(j := dl j @ [sfd])) q'"
      "cq_heads w2 = hs" using worker_ok [OF q(1) jl p, of sy] q(2) by blast
    have "(dl j @ [sfd]) @ map (sfd_of (wk_pool w2)) (q' (hs ! j)) = share (length hs) j acc"
      using winvD(8) [OF s(2), unfolded s(3), OF j] by simp
    then have "hd (map (sfd_of (wk_pool w1)) (q (hs ! j))) = sfd" using i(8) [OF j] by (metis append_assoc append_Cons list.sel(1) same_append_eq)
    then show "\<exists>w2. worker_step sy cf j w1 = Some (Some (hd (map (sfd_of (wk_pool w1)) (q (hs ! j)))), w2)" using s(1) by simp
  qed
  then show ?thesis using dispatch_ok [OF q(1)] by fastforce
qed

definition demo_sys :: sys where
  "demo_sys = \<lparr>sys_read = (\<lambda>k n. R_again), sys_write = (\<lambda>k bs. W_sent (length bs)), sys_event = (\<lambda>k. 0), sys_mem = (\<lambda>k. True)\<rparr>"

definition demo_workers :: workers where
  "demo_workers =
     \<lparr>wk_pool = \<lparr>freecitems = 1, p_links = [1 \<mapsto> \<lparr>lh_next = 1, lh_prev = 1\<rparr>, 2 \<mapsto> zero_link, 3 \<mapsto> zero_link],
        p_items = \<lparr>cells = Map.empty, brk = 4, oom = (\<lambda>_. False), nalloc = 0\<rparr>\<rparr>,
      cq_heads = [], pipes = [], last_tid = -1, cx_curr_conns = 0, cx_total_conns = 0, cx_rejected_conns = 0,
      cx_reserved_fds = 5, wk_conns = Map.empty, wk_closed = [], wk_calls = 0\<rparr>"

lemma demo_workers_before: "before_init demo_workers [2, 3]"
  by (simp add: before_init_def demo_workers_def dlist_def nx_def pv_def)

theorem connections_round_robin_witness:
  "\<exists>w0 w1. ts_thread_init True (replicate 2 (True, True, True)) [2, 3] demo_workers = Some (0, w0) \<and>
     wrun demo_sys \<lparr>cf_max_connections = 9, cf_conn_buffer_size = 64, cf_max_fds = 10\<rparr> w0 w1 [5] (\<lambda>_. []) \<and>
     (\<exists>w2. worker_step demo_sys \<lparr>cf_max_connections = 9, cf_conn_buffer_size = 64, cf_max_fds = 10\<rparr> 0 w1 = Some (Some 5, w2))"
proof -
  let ?cf = "\<lparr>cf_max_connections = 9, cf_conn_buffer_size = 64, cf_max_fds = 10\<rparr>"
  let ?rs = "replicate 2 (True, True, True)"
  have rs: "\<forall>r \<in> set ?rs. r = (True, True, True)" "length ?rs = length [2, 3 :: nat]" by simp_all
  obtain w0 where w0: "ts_thread_init True ?rs [2, 3] demo_workers = Some (0, w0)" "winv ?cf w0 [] (\<lambda>_. []) (\<lambda>_. [])"
    using ts_thread_init_ok [OF demo_workers_before _ rs, of ?cf] by auto
  then obtain w1 where w1: "dispatch_conn True 5 w0 = Some w1" using dispatch_ok [OF w0(2), of 5] by auto
  then have r: "wrun demo_sys ?cf w0 w1 [5] (\<lambda>_. [])" using wrun.handed [OF wrun.start [of demo_sys ?cf w0], of 5 w1] by simp
  have "\<exists>pending. [] @ pending = share 2 0 [5] \<and> length pending = pipes w1 ! 0 \<and>
      (0 < pipes w1 ! 0 \<longrightarrow> (\<exists>w2. worker_step demo_sys ?cf 0 w1 = Some (Some (hd pending), w2)))"
    using conjunct1 [OF connections_round_robin [OF demo_workers_before _ rs w0(1) r], rule_format, of 0] by (simp add: numeral_2_eq_2)
  then have "\<exists>w2. worker_step demo_sys ?cf 0 w1 = Some (Some 5, w2)" by (auto simp: share_def)
  then show ?thesis using w0(1) r by blast
qed

end
