(* ===== verification/Ts_Machine.thy ===== *)
theory Ts_Machine
  imports Ts_Service Ts_Accept
begin

text \<open>
  The second half of \<open>src/trackerserver/ts_thread.c\<close>: a worker thread drives a connection through its
  states (\<open>__state_machine\<close>). It reads what the socket has (\<open>__network_read\<close>), looks for a complete
  request (\<open>__parse_protocol_cmd\<close>), runs the handler of the command and writes the response
  (\<open>__network_write_noblock\<close>). The state \<open>machine\<close> holds the connection, the service, the number of calls
  to the system, the bytes that were written to the socket so far and the number of connections.
\<close>

definition MAX_PACKAGE_DATA_SIZE :: int where "MAX_PACKAGE_DATA_SIZE = 8 * 1024"

datatype network_read_result = READ_DATA_RECEIVED | READ_NO_DATA_RECEIVED | READ_SOFT_ERROR | READ_HARD_ERROR

datatype network_write_result = WRITE_COMPLETE | WRITE_INCOMPLETE | WRITE_SOFT_ERROR | WRITE_HARD_ERROR

subsection \<open>Reading\<close>

text \<open>A full buffer is doubled; the new half is indeterminate in the source and zero here.\<close>

definition grow_rbuff :: "conn \<Rightarrow> conn" where
  "grow_rbuff c = c\<lparr>rbuff := rbuff c @ replicate (rsize c) 0, rcurr := 0, rsize := rsize c * 2\<rparr>"

partial_function (option) network_read_loop ::
  "sys \<Rightarrow> nat \<Rightarrow> network_read_result \<Rightarrow> conn \<Rightarrow> nat \<Rightarrow> (network_read_result \<times> conn \<times> nat) option" where
  [code]: "network_read_loop sy allocs st c k =
     (if int (rsize c) \<le> rbytes c \<and> allocs > 1 then Some (READ_SOFT_ERROR, c, k)
      else if int (rsize c) \<le> rbytes c \<and> \<not> sys_mem sy k then Some (READ_SOFT_ERROR, c\<lparr>c_writeto := conn_closed\<rparr>, k + 1)
      else do {
        let (allocs, c, k) = (if int (rsize c) \<le> rbytes c then (allocs + 1, grow_rbuff c, k + 1) else (allocs, c, k));
        let avail = nat (int (rsize c) - rbytes c);
        case sys_read sy k avail of
          R_data bs \<Rightarrow>
            if bs = [] then Some (READ_SOFT_ERROR, c, k + 1)
            else do {
              rb \<leftarrow> put_bytes (rbuff c) (rcurr c + nat (rbytes c)) bs;
              let c = c\<lparr>rbuff := rb, rbytes := rbytes c + int (length bs)\<rparr>;
              if length bs = avail then network_read_loop sy allocs READ_DATA_RECEIVED c (k + 1)
              else Some (READ_DATA_RECEIVED, c, k + 1)
            }
        | R_again \<Rightarrow> Some (st, c, k + 1)
        | R_error \<Rightarrow> Some (READ_HARD_ERROR, c, k + 1)
      })"

definition network_read :: "sys \<Rightarrow> conn \<Rightarrow> nat \<Rightarrow> (network_read_result \<times> conn \<times> nat) option" where
  "network_read sy c k = network_read_loop sy 0 READ_NO_DATA_RECEIVED c k"

subsection \<open>Writing\<close>

text \<open>The last element of the result is what the socket took. \<open>W_again\<close> stands for \<open>EINTR\<close> and
  \<open>EWOULDBLOCK\<close>; any other error is treated like progress.\<close>

definition network_write_noblock :: "sys \<Rightarrow> conn \<Rightarrow> nat \<Rightarrow> (network_write_result \<times> conn \<times> nat \<times> byte list) option" where
  "network_write_noblock sy c k =
     (let remain = wbytes c - wused c; c = c\<lparr>wcurr := nat (wused c)\<rparr> in
      if remain > 0 then do {
        bs \<leftarrow> get_bytes (wbuff c) (nat (wused c)) (nat remain);
        case sys_write sy k bs of
          W_sent n \<Rightarrow>
            if n > 0 then Some (WRITE_INCOMPLETE, c\<lparr>wused := wused c + int n\<rparr>, k + 1, take n bs)
            else Some (WRITE_INCOMPLETE, c, k + 1, [])
        | W_again \<Rightarrow>
            let (ret, c, k) = update_conn_event sy (EV_WRITE + EV_PERSIST) c (k + 1) in
            Some (if ret \<noteq> 0 then WRITE_HARD_ERROR else WRITE_SOFT_ERROR, c, k, [])
        | W_error \<Rightarrow> Some (WRITE_INCOMPLETE, c, k + 1, [])
      }
      else Some (WRITE_COMPLETE, c\<lparr>c_writeto := conn_waiting\<rparr>, k, []))"

subsection \<open>Requests\<close>

definition parse_protocol_cmd ::
  "service_env \<Rightarrow> (nat \<Rightarrow> byte) \<Rightarrow> conn \<Rightarrow> service \<Rightarrow> (int \<times> conn \<times> service) option" where
  "parse_protocol_cmd e junk c s =
     (if \<not> rbytes c > 0 then None
      else if rbytes c < int header_size then Some (LFS_OK, c, s)
      else do {
        h \<leftarrow> get_header (rbuff c);
        if uint (body_len h) > MAX_PACKAGE_DATA_SIZE then do {
          c \<leftarrow> handle_protocol_error (status_code RS_ERROR_PACKAGESIZE_OVERFLOW) c;
          Some (LFS_ERROR, c, s)
        }
        else if rbytes c - int header_size \<ge> uint (body_len h) then do {
          (c, s) \<leftarrow> dispatch_cmd e (junk (sv_reqs s)) (h_cmd h) (c\<lparr>rbytes := rbytes c - int header_size, rcurr := header_size\<rparr>) s;
          Some (1, c, s)
        }
        else Some (LFS_OK, c, s)
      })"

subsection \<open>The state machine\<close>

record machine =
  m_conn :: conn
  m_srv :: service
  m_calls :: nat
  m_sent :: "byte list"
  m_curr_conns :: u32

text \<open>One round of the loop; the first element of the result is the flag that ends it.\<close>

definition machine_step :: "sys \<Rightarrow> service_env \<Rightarrow> (nat \<Rightarrow> byte) \<Rightarrow> machine \<Rightarrow> (bool \<times> machine) option" where
  "machine_step sy e junk m =
     (let c = m_conn m in
      case c_state c of
        conn_waiting \<Rightarrow>
          let (ret, c, k) = update_conn_event sy (EV_READ + EV_PERSIST) c (m_calls m); m = m\<lparr>m_calls := k\<rparr> in
          if ret \<noteq> 0 then Some (False, m\<lparr>m_conn := set_conn_state conn_closed c\<rparr>)
          else Some (True, m\<lparr>m_conn := set_conn_state conn_read c\<rparr>)
      | conn_read \<Rightarrow> do {
          (ret, c, k) \<leftarrow> network_read sy c (m_calls m);
          let st = (case ret of READ_NO_DATA_RECEIVED \<Rightarrow> conn_waiting | READ_DATA_RECEIVED \<Rightarrow> conn_parse_cmd
                      | READ_HARD_ERROR \<Rightarrow> conn_closed | READ_SOFT_ERROR \<Rightarrow> conn_closed);
          Some (False, m\<lparr>m_conn := set_conn_state st c, m_calls := k\<rparr>)
        }
      | conn_nread \<Rightarrow> Some (False, m)
      | conn_parse_cmd \<Rightarrow> do {
          (ret, c, s) \<leftarrow> parse_protocol_cmd e junk c (m_srv m);
          Some (False, m\<lparr>m_conn := (if ret = 0 then set_conn_state conn_waiting c else c), m_srv := s\<rparr>)
        }
      | conn_write \<Rightarrow> do {
          (ret, c, k, bs) \<leftarrow> network_write_noblock sy c (m_calls m);
          let m = m\<lparr>m_calls := k, m_sent := m_sent m @ bs\<rparr>;
          case ret of
            WRITE_COMPLETE \<Rightarrow> Some (False, m\<lparr>m_conn := set_conn_state (c_writeto c) (conn_reset c)\<rparr>)
          | WRITE_INCOMPLETE \<Rightarrow> Some (False, m\<lparr>m_conn := c\<rparr>)
          | WRITE_HARD_ERROR \<Rightarrow> Some (False, m\<lparr>m_conn := set_conn_state conn_closed c\<rparr>)
          | WRITE_SOFT_ERROR \<Rightarrow> Some (True, m\<lparr>m_conn := c\<rparr>)
        }
      | conn_closed \<Rightarrow>
          let (c, n, k) = conn_close c (m_curr_conns m) (m_calls m) in
          Some (True, m\<lparr>m_conn := c, m_curr_conns := n, m_calls := k\<rparr>))"

partial_function (option) state_machine :: "sys \<Rightarrow> service_env \<Rightarrow> (nat \<Rightarrow> byte) \<Rightarrow> machine \<Rightarrow> machine option" where
  [code]: "state_machine sy e junk m = do {
     (flag, m) \<leftarrow> machine_step sy e junk m;
     if flag then Some m else state_machine sy e junk m
   }"

definition event_handler_callback ::
  "sys \<Rightarrow> service_env \<Rightarrow> (nat \<Rightarrow> byte) \<Rightarrow> int \<Rightarrow> int \<Rightarrow> machine \<Rightarrow> machine option" where
  "event_handler_callback sy e junk fd which m =
     (let c = (m_conn m)\<lparr>c_which := which\<rparr> in
      if fd \<noteq> c_sfd c then
        let (c, n, k) = conn_close c (m_curr_conns m) (m_calls m) in
        Some (m\<lparr>m_conn := c, m_curr_conns := n, m_calls := k\<rparr>)
      else state_machine sy e junk (m\<lparr>m_conn := c\<rparr>))"

subsection \<open>Reading returns\<close>

definition read_ok :: "conn \<Rightarrow> bool" where
  "read_ok c \<longleftrightarrow> rcurr c = 0 \<and> length (rbuff c) = rsize c \<and> 0 < rsize c \<and> 0 \<le> rbytes c \<and> rbytes c \<le> int (rsize c)"

lemma read_ok_grow: "read_ok c \<Longrightarrow> read_ok (grow_rbuff c)"
  by (simp add: read_ok_def grow_rbuff_def)

lemma put_bytes_take: "put_bytes buf off bs = Some buf' \<Longrightarrow> n \<le> off \<Longrightarrow> take n buf' = take n buf"
  by (auto simp: put_bytes_def split: if_splits)

text \<open>The bytes of a list of calls of \<open>read\<close>, each with its number and the size it asks for.\<close>

definition bytes_of :: "sys \<Rightarrow> nat \<times> nat \<Rightarrow> byte list" where
  "bytes_of sy jn = (case sys_read sy (fst jn) (snd jn) of R_data bs \<Rightarrow> bs | _ \<Rightarrow> [])"

definition read_from :: "sys \<Rightarrow> conn \<Rightarrow> nat \<Rightarrow> conn \<Rightarrow> nat \<Rightarrow> bool" where
  "read_from sy c k c' k' \<longleftrightarrow> k \<le> k' \<and> (\<exists>calls. sorted_wrt (<) (map fst calls) \<and> (\<forall>j \<in> set calls. k \<le> fst j \<and> fst j < k') \<and>
     take (nat (rbytes c')) (rbuff c') = take (nat (rbytes c)) (rbuff c) @ concat (map (bytes_of sy) calls))"

lemma read_from_refl: "k \<le> k' \<Longrightarrow> rbytes c' = rbytes c \<Longrightarrow> take (nat (rbytes c)) (rbuff c') = take (nat (rbytes c)) (rbuff c) \<Longrightarrow> read_from sy c k c' k'"
  unfolding read_from_def by (intro conjI exI [of _ "[]"]) simp_all

lemma read_from_one:
  assumes "k \<le> j" "j < k'" "sys_read sy j n = R_data bs" "nat (rbytes c) \<le> length (rbuff c)" "0 \<le> rbytes c"
    and "put_bytes (rbuff c) (nat (rbytes c)) bs = Some rb" "rbuff c' = rb" "rbytes c' = rbytes c + int (length bs)"
  shows "read_from sy c k c' k'"
proof -
  have rb: "rb = take (nat (rbytes c)) (rbuff c) @ bs @ drop (nat (rbytes c) + length bs) (rbuff c)" "nat (rbytes c) + length bs \<le> length (rbuff c)"
    using assms(6) by (auto simp: put_bytes_def split: if_splits)
  have "nat (rbytes c') = nat (rbytes c) + length bs" using assms(5,8) by (simp add: nat_add_distrib)
  then have "take (nat (rbytes c')) (rbuff c') = take (nat (rbytes c)) (rbuff c) @ bs" using rb assms(4,7) by simp
  then show ?thesis unfolding read_from_def using assms(1-3)
    by (intro conjI exI [of _ "[(j, n)]"]) (simp_all add: bytes_of_def)
qed

lemma read_from_trans:
  assumes "read_from sy c k c1 k1" and "read_from sy c1 k1 c2 k2"
  shows "read_from sy c k c2 k2"
proof -
  obtain l1 l2 where l: "sorted_wrt (<) (map fst l1)" "\<forall>j \<in> set l1. k \<le> fst j \<and> fst j < k1"
    "take (nat (rbytes c1)) (rbuff c1) = take (nat (rbytes c)) (rbuff c) @ concat (map (bytes_of sy) l1)"
    "sorted_wrt (<) (map fst l2)" "\<forall>j \<in> set l2. k1 \<le> fst j \<and> fst j < k2"
    "take (nat (rbytes c2)) (rbuff c2) = take (nat (rbytes c1)) (rbuff c1) @ concat (map (bytes_of sy) l2)"
    and k: "k \<le> k1" "k1 \<le> k2"
    using assms unfolding read_from_def by auto
  have "sorted_wrt (<) (map fst (l1 @ l2))" using l(1,2,4,5) by (fastforce simp: sorted_wrt_append)
  moreover have "\<forall>j \<in> set (l1 @ l2). k \<le> fst j \<and> fst j < k2" using l(2,5) k by fastforce
  ultimately show ?thesis unfolding read_from_def using l(3,6) k by (intro conjI exI [of _ "l1 @ l2"]) auto
qed

text \<open>One round of the loop: it ends, or it has filled the buffer, after at most one allocation.\<close>

definition full :: "conn \<Rightarrow> bool" where
  "full c \<longleftrightarrow> int (rsize c) \<le> rbytes c"

definition kept :: "conn \<Rightarrow> conn \<Rightarrow> bool" where
  "kept c c' \<longleftrightarrow> c_sfd c' = c_sfd c \<and> c_state c' = c_state c \<and> c_event_flags c' = c_event_flags c \<and> wbuff c' = wbuff c \<and>
     wsize c' = wsize c \<and> wbytes c' = wbytes c \<and> wused c' = wused c"

lemma kept_trans: "kept c d \<Longrightarrow> kept d e \<Longrightarrow> kept c e"
  by (simp add: kept_def)

definition read_done :: "sys \<Rightarrow> nat \<Rightarrow> conn \<Rightarrow> nat \<Rightarrow> (network_read_result \<times> conn \<times> nat) option \<Rightarrow> bool" where
  "read_done sy a c k r \<longleftrightarrow> (\<exists>st c' k'. r = Some (st, c', k') \<and> read_ok c' \<and> kept c c' \<and> rsize c \<le> rsize c' \<and> rsize c' \<le> 2 ^ (2 - a) * rsize c \<and>
     read_from sy c k c' k')"

lemma grow_simps [simp]:
  "rbuff (grow_rbuff c) = rbuff c @ replicate (rsize c) 0" "rsize (grow_rbuff c) = 2 * rsize c" "rbytes (grow_rbuff c) = rbytes c"
  "rcurr (grow_rbuff c) = 0"
  by (simp_all add: grow_rbuff_def)

lemma read_done_later:
  assumes "read_done sy a' c1 k1 r" and "kept c c1" "rsize c \<le> rsize c1" "rsize c1 \<le> 2 ^ (a' - a) * rsize c" "a \<le> a'" "a' \<le> 2"
    and "read_from sy c k c1 k1"
  shows "read_done sy a c k r"
proof -
  obtain st c' k' where r: "r = Some (st, c', k')" "read_ok c'" "kept c1 c'" "rsize c1 \<le> rsize c'" "rsize c' \<le> 2 ^ (2 - a') * rsize c1"
    "read_from sy c1 k1 c' k'" using assms(1) by (auto simp: read_done_def)
  have "2 ^ (2 - a') * rsize c1 \<le> 2 ^ (2 - a') * (2 ^ (a' - a) * rsize c)" using assms(4) by simp
  also have "\<dots> = 2 ^ (2 - a) * rsize c" using assms(5,6) by (simp flip: power_add mult.assoc)
  finally have "rsize c' \<le> 2 ^ (2 - a) * rsize c" using r(5) by simp
  then show ?thesis unfolding read_done_def
    using r kept_trans [OF assms(2) r(3)] read_from_trans [OF assms(7) r(6)] assms(3) by auto
qed

text \<open>The part of a round after the allocation.\<close>

definition read_round :: "sys \<Rightarrow> nat \<Rightarrow> network_read_result \<Rightarrow> conn \<Rightarrow> nat \<Rightarrow> (network_read_result \<times> conn \<times> nat) option" where
  "read_round sy a st c k =
     (let avail = nat (int (rsize c) - rbytes c) in
      case sys_read sy k avail of
        R_data bs \<Rightarrow>
          if bs = [] then Some (READ_SOFT_ERROR, c, k + 1)
          else do {
            rb \<leftarrow> put_bytes (rbuff c) (rcurr c + nat (rbytes c)) bs;
            let c = c\<lparr>rbuff := rb, rbytes := rbytes c + int (length bs)\<rparr>;
            if length bs = avail then network_read_loop sy a READ_DATA_RECEIVED c (k + 1)
            else Some (READ_DATA_RECEIVED, c, k + 1)
          }
      | R_again \<Rightarrow> Some (st, c, k + 1)
      | R_error \<Rightarrow> Some (READ_HARD_ERROR, c, k + 1))"

lemma network_read_loop_round:
  "network_read_loop sy a st c k =
     (if full c \<and> a > 1 then Some (READ_SOFT_ERROR, c, k)
      else if full c \<and> \<not> sys_mem sy k then Some (READ_SOFT_ERROR, c\<lparr>c_writeto := conn_closed\<rparr>, k + 1)
      else if full c then read_round sy (a + 1) st (grow_rbuff c) (k + 1)
      else read_round sy a st c k)"
  by (subst network_read_loop.simps) (simp add: read_round_def full_def Let_def del: grow_simps)

lemma read_done_refl:
  assumes "read_ok c" and "a \<le> 2"
  shows "read_done sy a c k (Some (st, c, k))" "read_done sy a c k (Some (st, c, k + 1))"
    "read_done sy a c k (Some (st, c\<lparr>c_writeto := x\<rparr>, k + 1))"
  using assms by (auto simp: read_done_def kept_def read_ok_def intro: read_from_refl)

lemma read_round_done:
  assumes ok: "sys_ok sy" "read_ok c" "\<not> full c" "a \<le> 2"
    and again: "\<And>c1. read_ok c1 \<Longrightarrow> full c1 \<Longrightarrow> rsize c1 = rsize c \<Longrightarrow> read_done sy a c1 (k + 1) (network_read_loop sy a READ_DATA_RECEIVED c1 (k + 1))"
  shows "read_done sy a c k (read_round sy a st c k)"
proof (cases "sys_read sy k (nat (int (rsize c) - rbytes c))")
  case R_again
  then show ?thesis using read_done_refl(2) [OF ok(2,4)] by (simp add: read_round_def)
next
  case R_error
  then show ?thesis using read_done_refl(2) [OF ok(2,4)] by (simp add: read_round_def)
next
  case (R_data bs)
  let ?av = "nat (int (rsize c) - rbytes c)"
  have rng: "rcurr c = 0" "length (rbuff c) = rsize c" "0 \<le> rbytes c" "rbytes c < int (rsize c)" "length bs \<le> ?av"
    using ok(1-3) R_data by (auto simp: read_ok_def full_def sys_ok_def)
  then obtain rb where p: "put_bytes (rbuff c) (nat (rbytes c)) bs = Some rb"
    using put_bytes_Some [of "nat (rbytes c)" bs "rbuff c"] by auto
  note rb = p put_bytes_length [OF p, unfolded rng(2)]
  let ?c1 = "c\<lparr>rbuff := rb, rbytes := rbytes c + int (length bs)\<rparr>"
  have c1: "read_ok ?c1" using rng rb(2) by (auto simp: read_ok_def)
  have f: "read_from sy c k ?c1 (k + 1)" using read_from_one [of k k "k + 1" sy ?av bs c rb ?c1] R_data rng rb(1) by simp
  have kp: "kept c ?c1" by (simp add: kept_def)
  show ?thesis
  proof (cases "bs = []")
    case True
    then show ?thesis using read_done_refl(2) [OF ok(2,4)] R_data by (simp add: read_round_def)
  next
    case ne: False
    show ?thesis
    proof (cases "length bs = ?av")
      case True
      then have "full ?c1" using rng by (simp add: full_def)
      from read_done_later [OF again [OF c1 this] kp _ _ order_refl ok(4) f] show ?thesis
        using ne True R_data rng rb(1) by (simp add: read_round_def)
    next
      case False
      have "read_done sy a ?c1 (k + 1) (Some (READ_DATA_RECEIVED, ?c1, k + 1))" by (rule read_done_refl(1) [OF c1 ok(4)])
      from read_done_later [OF this kp _ _ order_refl ok(4) f] show ?thesis
        using ne False R_data rng rb(1) by (simp add: read_round_def)
    qed
  qed
qed

lemma network_read_loop_full:
  "sys_ok sy \<Longrightarrow> read_ok c \<Longrightarrow> full c \<Longrightarrow> a \<le> 2 \<Longrightarrow> read_done sy a c k (network_read_loop sy a st c k)"
proof (induction "2 - a" arbitrary: a c k st)
  case 0
  then show ?case using read_done_refl(1) [OF 0(3,5)] by (subst network_read_loop_round) simp
next
  case (Suc n)
  let ?c = "grow_rbuff c"
  have a: "n = 2 - (a + 1)" "a + 1 \<le> 2" using Suc.hyps(2) by simp_all
  have g: "read_ok ?c" "\<not> full ?c" "kept c ?c" using read_ok_grow [OF Suc.prems(2)] Suc.prems(2,3)
    by (auto simp: full_def read_ok_def kept_def grow_rbuff_def)
  have "read_done sy (a + 1) ?c (k + 1) (read_round sy (a + 1) st ?c (k + 1))"
    by (rule read_round_done [OF Suc.prems(1) g(1,2) a(2)]) (use Suc.hyps(1) [OF a(1) Suc.prems(1) _ _ a(2)] in blast)
  then have "read_done sy a c k (read_round sy (a + 1) st ?c (k + 1))"
    by (rule read_done_later [OF _ g(3)]) (use a(2) Suc.prems(2) in \<open>auto intro!: read_from_refl simp: read_ok_def\<close>)
  then show ?case using read_done_refl(3) [OF Suc.prems(2,4)] Suc.prems(3) a(2)
    by (subst network_read_loop_round) simp
qed

lemma network_read_done:
  assumes "sys_ok sy" and "read_ok c"
  shows "read_done sy 0 c k (network_read sy c k)"
proof (cases "full c")
  case True
  then show ?thesis using network_read_loop_full [OF assms, of 0] by (simp add: network_read_def)
next
  case False
  then have "network_read sy c k = read_round sy 0 READ_NO_DATA_RECEIVED c k"
    by (simp add: network_read_def network_read_loop_round)
  then show ?thesis using read_round_done [OF assms False, of 0] network_read_loop_full [OF assms(1), of _ 0] by simp
qed

subsection \<open>Steps of the state machine\<close>

lemma state_machine_step:
  "machine_step sy e junk m = Some (False, m') \<Longrightarrow> state_machine sy e junk m = state_machine sy e junk m'"
  "machine_step sy e junk m = Some (True, m') \<Longrightarrow> state_machine sy e junk m = Some m'"
  by (subst state_machine.simps, simp)+

text \<open>A socket that takes at least one byte of what it is given, and an event library without errors.\<close>

definition takes_bytes :: "sys \<Rightarrow> bool" where
  "takes_bytes sy \<longleftrightarrow> (\<forall>k bs. bs \<noteq> [] \<longrightarrow> (\<exists>n. 0 < n \<and> n \<le> length bs \<and> sys_write sy k bs = W_sent n))"

definition events_ok :: "sys \<Rightarrow> bool" where
  "events_ok sy \<longleftrightarrow> (\<forall>k. sys_event sy k = LFS_OK)"

text \<open>The rest of a response is written in as many rounds as the socket needs.\<close>

lemma take_split: "take n (take (n + r) (drop u xs)) @ take r (drop (u + n) xs) = take (n + r) (drop u xs)"
proof -
  have "take n (take (n + r) (drop u xs)) = take n (drop u xs)" by (simp add: min_def)
  then show ?thesis using take_add [of n r "drop u xs"] by (metis add.commute drop_drop)
qed

lemma machine_write:
  assumes "takes_bytes sy"
  shows "c_state c = conn_write \<Longrightarrow> 0 \<le> wused c \<Longrightarrow> wused c \<le> wbytes c \<Longrightarrow> wbytes c \<le> int (length (wbuff c)) \<Longrightarrow>
    \<exists>k'. state_machine sy e junk (m\<lparr>m_conn := c\<rparr>) = state_machine sy e junk
      (m\<lparr>m_conn := set_conn_state conn_waiting (conn_reset (c\<lparr>c_writeto := conn_waiting\<rparr>)), m_calls := k',
         m_sent := m_sent m @ take (nat (wbytes c - wused c)) (drop (nat (wused c)) (wbuff c))\<rparr>)"
proof (induction "nat (wbytes c - wused c)" arbitrary: c m rule: less_induct)
  case less
  show ?case
  proof (cases "wbytes c - wused c > 0")
    case False
    then have "machine_step sy e junk (m\<lparr>m_conn := c\<rparr>) = Some (False, m\<lparr>m_conn := set_conn_state conn_waiting (conn_reset (c\<lparr>c_writeto := conn_waiting\<rparr>))\<rparr>)"
      using less.prems(1) by (simp add: machine_step_def network_write_noblock_def conn_reset_def)
    from state_machine_step(1) [OF this] show ?thesis using False by (intro exI [of _ "m_calls m"]) simp
  next
    case True
    let ?bs = "take (nat (wbytes c - wused c)) (drop (nat (wused c)) (wbuff c))"
    have g: "get_bytes (wbuff c) (nat (wused c)) (nat (wbytes c - wused c)) = Some ?bs" "?bs \<noteq> []" "length ?bs = nat (wbytes c - wused c)"
      using less.prems(2-4) True by (auto simp: get_bytes_def)
    then obtain n where n: "0 < n" "n \<le> length ?bs" "sys_write sy (m_calls m) ?bs = W_sent n"
      using assms unfolding takes_bytes_def by blast
    let ?c = "c\<lparr>wcurr := nat (wused c), wused := wused c + int n\<rparr>" and ?m = "m\<lparr>m_calls := Suc (m_calls m), m_sent := m_sent m @ take n ?bs\<rparr>"
    have "machine_step sy e junk (m\<lparr>m_conn := c\<rparr>) = Some (False, ?m\<lparr>m_conn := ?c\<rparr>)"
      using less.prems(1) True g(1) n(1,3) by (simp add: machine_step_def network_write_noblock_def)
    note st = state_machine_step(1) [OF this]
    have l: "nat (wbytes ?c - wused ?c) < nat (wbytes c - wused c)" "wused ?c \<le> wbytes ?c"
      using n(1) n(2) [unfolded g(3)] True by simp_all
    have "nat (wbytes c - wused c) = n + nat (wbytes c - (wused c + int n))" "nat (wused c + int n) = nat (wused c) + n"
      using n(2) [unfolded g(3)] less.prems(2,3) by (simp_all add: nat_add_distrib)
    then have sent: "take n ?bs @ take (nat (wbytes ?c - wused ?c)) (drop (nat (wused ?c)) (wbuff ?c)) = ?bs"
      using take_split [of n "nat (wbytes c - (wused c + int n))" "nat (wused c)" "wbuff c"] by simp
    have rs: "conn_reset (?c\<lparr>c_writeto := conn_waiting\<rparr>) = conn_reset (c\<lparr>c_writeto := conn_waiting\<rparr>)" by (simp add: conn_reset_def)
    obtain k' where "state_machine sy e junk (?m\<lparr>m_conn := ?c\<rparr>) = state_machine sy e junk
      (?m\<lparr>m_conn := set_conn_state conn_waiting (conn_reset (c\<lparr>c_writeto := conn_waiting\<rparr>)), m_calls := k', m_sent := m_sent m @ ?bs\<rparr>)"
      using less.hyps [OF l(1), of ?m] less.prems l(2) sent rs by auto
    then show ?thesis unfolding st by (intro exI [of _ k']) simp
  qed
qed

lemma machine_wait:
  assumes "events_ok sy" and "c_state (m_conn m) = conn_waiting"
  shows "\<exists>k. state_machine sy e junk m =
    Some (m\<lparr>m_conn := (m_conn m)\<lparr>c_state := conn_read, c_event_flags := EV_READ + EV_PERSIST\<rparr>, m_calls := k\<rparr>)"
proof -
  have "\<exists>k. machine_step sy e junk m = Some (True, m\<lparr>m_conn := (m_conn m)\<lparr>c_state := conn_read, c_event_flags := EV_READ + EV_PERSIST\<rparr>, m_calls := k\<rparr>)"
  proof (cases "c_event_flags (m_conn m) = EV_READ + EV_PERSIST")
    case True
    then show ?thesis using assms(2)
      by (intro exI [of _ "m_calls m"]) (simp add: machine_step_def update_conn_event_def set_conn_state_def)
  next
    case False
    then show ?thesis using assms
      by (intro exI [of _ "m_calls m + 2"]) (simp add: machine_step_def update_conn_event_def events_ok_def set_conn_state_def)
  qed
  then show ?thesis using state_machine_step(2) by blast
qed

text \<open>The connection after a request of the bytes \<open>bs\<close> has been read into an empty buffer.\<close>

definition with_request :: "byte list \<Rightarrow> conn \<Rightarrow> conn" where
  "with_request bs c = c\<lparr>rbuff := bs @ drop (length bs) (rbuff c), rbytes := int (length bs)\<rparr>"

lemma network_read_request:
  assumes "read_ok c" and "rbytes c = 0" and "sys_read sy k (rsize c) = R_data bs" and "bs \<noteq> []" and "length bs < rsize c"
  shows "network_read sy c k = Some (READ_DATA_RECEIVED, with_request bs c, k + 1)"
proof -
  have f: "\<not> full c" "rcurr c = 0" "length (rbuff c) = rsize c" using assms(1,2) by (auto simp: full_def read_ok_def)
  then show ?thesis using assms(2-5)
    by (simp add: network_read_def network_read_loop_round read_round_def put_bytes_def with_request_def)
qed

text \<open>The state machine on a connection whose request has been read.\<close>

definition for_handler :: "byte list \<Rightarrow> conn \<Rightarrow> conn" where
  "for_handler bs c = (with_request bs c)\<lparr>c_state := conn_parse_cmd, rbytes := int (length bs) - int header_size, rcurr := header_size\<rparr>"

lemma get_header_append: "header_size \<le> length bs \<Longrightarrow> get_header (bs @ ys) = get_header bs"
  by (simp add: get_header_def get_bytes_def header_size_def)

lemma machine_request:
  assumes "read_ok c" "rbytes c = 0" "c_state c = conn_read" "m_conn m = c"
    and bs: "sys_read sy (m_calls m) (rsize c) = R_data bs" "length bs < rsize c" "header_size \<le> length bs"
    and h: "get_header bs = Some h" "uint (body_len h) \<le> MAX_PACKAGE_DATA_SIZE" "uint (body_len h) \<le> int (length bs) - int header_size"
    and d: "dispatch_cmd e (junk (sv_reqs (m_srv m))) (h_cmd h) (for_handler bs c) (m_srv m) = Some (c1, s1)"
  shows "state_machine sy e junk m = state_machine sy e junk (m\<lparr>m_calls := m_calls m + 1, m_srv := s1, m_conn := c1\<rparr>)"
proof -
  let ?m = "m\<lparr>m_conn := set_conn_state conn_parse_cmd (with_request bs c), m_calls := m_calls m + 1\<rparr>"
  have ne: "bs \<noteq> []" using bs(3) by (auto simp: header_size_def)
  have "machine_step sy e junk m = Some (False, ?m)"
    using network_read_request [OF assms(1,2) bs(1) ne bs(2)] assms(3,4) by (simp add: machine_step_def)
  note s1 = state_machine_step(1) [OF this]
  have c: "(set_conn_state conn_parse_cmd (with_request bs c))\<lparr>rbytes := int (length bs) - int header_size, rcurr := header_size\<rparr> = for_handler bs c"
    by (simp add: for_handler_def set_conn_state_def with_request_def assms(3))
  have "parse_protocol_cmd e junk (set_conn_state conn_parse_cmd (with_request bs c)) (m_srv m) = Some (1, c1, s1)"
    using h bs(3) ne d get_header_append [OF bs(3)] c by (simp add: parse_protocol_cmd_def with_request_def header_size_def)
  then have "machine_step sy e junk ?m = Some (False, m\<lparr>m_calls := m_calls m + 1, m_srv := s1, m_conn := c1\<rparr>)" by (simp add: machine_step_def)
  from state_machine_step(1) [OF this] show ?thesis unfolding s1 by simp
qed

subsection \<open>Properties\<close>

text \<open>C20: Reading from a socket returns whatever the socket delivers, and in whatever pieces: the buffer is doubled
  at most twice, what was in it stays, what the reads delivered is appended in the order of the
  reads, and the rest of the connection is not touched.\<close>

theorem network_read_returns:
  assumes "sys_ok sy" and "read_ok c"
  shows "\<exists>st c' k'. network_read sy c k = Some (st, c', k') \<and> read_ok c' \<and> kept c c' \<and> rsize c' \<le> 4 * rsize c \<and> read_from sy c k c' k'"
  using network_read_done [OF assms, of k] by (auto simp: read_done_def)


text \<open>C34: When the peer is gone, so that every attempt to write fails, the state machine never leaves the state
  that writes: the worker thread spins forever on this connection and serves no other one.\<close>

theorem write_error_spins:
  assumes "\<forall>k bs. sys_write sy k bs = W_error" and "c_state (m_conn m) = conn_write" and "wused (m_conn m) < wbytes (m_conn m)"
  shows "state_machine sy e junk m = None"
proof (rule ccontr)
  assume "state_machine sy e junk m \<noteq> None"
  then obtain y where ret: "state_machine sy e junk m = Some y" by auto
  let ?P = "\<lambda>sy e junk m (y :: machine). (\<forall>k bs. sys_write sy k bs = W_error) \<longrightarrow> \<not> (c_state (m_conn m) = conn_write \<and> wused (m_conn m) < wbytes (m_conn m))"
  have "?P sy e junk m y"
  proof (rule state_machine.raw_induct [where P = ?P, OF _ ret], goal_cases)
    case (1 f sy e junk m y)
    show ?case
    proof (intro impI notI)
      assume w: "\<forall>k bs. sys_write sy k bs = W_error" and a: "c_state (m_conn m) = conn_write \<and> wused (m_conn m) < wbytes (m_conn m)"
      obtain flag m1 where m1: "machine_step sy e junk m = Some (flag, m1)" "(if flag then Some m1 else f sy e junk m1) = Some y"
        using 1(2) by (auto simp: bind_eq_Some_conv)
      then have "\<not> flag" "c_state (m_conn m1) = conn_write" "wused (m_conn m1) < wbytes (m_conn m1)"
        using a w by (auto simp: machine_step_def network_write_noblock_def Let_def bind_eq_Some_conv)
      then show False using 1(1) [of sy e junk m1 y] m1(2) w by simp
    qed
  qed
  then show False using assms by simp
qed

subsection \<open>Witnesses\<close>

text \<open>A socket that delivers the heart beat of a server that nobody knows and takes one byte at a time, and
  a socket whose peer is gone.\<close>

definition demo_request :: "byte list" where
  "demo_request = header_bytes \<lparr>body_len = 50, h_cmd = cmd_code CMD_DATASERVER_HEARTBEAT, h_state = 0\<rparr> @ replicate 56 0"

definition slow_sys :: sys where
  "slow_sys = \<lparr>sys_read = (\<lambda>k n. if n < 66 then R_again else R_data demo_request), sys_write = (\<lambda>k bs. W_sent (if bs = [] then 0 else 1)),
     sys_event = (\<lambda>k. 0), sys_mem = (\<lambda>k. True)\<rparr>"

definition gone_sys :: sys where
  "gone_sys = \<lparr>sys_read = (\<lambda>k n. R_error), sys_write = (\<lambda>k bs. W_error), sys_event = (\<lambda>k. 0), sys_mem = (\<lambda>k. True)\<rparr>"

definition idle_conn :: conn where
  "idle_conn = (fresh_conn 5 256)\<lparr>c_state := conn_read\<rparr>"

lemma length_demo_request [simp]: "length demo_request = 66"
  by (simp add: demo_request_def)

lemma slow_sys_ok: "sys_ok slow_sys" "takes_bytes slow_sys" "events_ok slow_sys"
  by (auto simp: sys_ok_def takes_bytes_def events_ok_def slow_sys_def Suc_le_eq split: if_splits)

lemma idle_conn_ok: "read_ok idle_conn" "buf_ok idle_conn" "c_state idle_conn = conn_read" "rbytes idle_conn = 0" "wused idle_conn = 0"
    "rsize idle_conn = 256"
  by (simp_all add: idle_conn_def fresh_conn_def read_ok_def buf_ok_def header_size_def)

theorem network_read_returns_witness:
  "\<exists>st c' k'. network_read slow_sys idle_conn 0 = Some (st, c', k') \<and> read_ok c' \<and> rsize c' \<le> 1024"
  using network_read_returns [OF slow_sys_ok(1) idle_conn_ok(1), of 0] by (auto simp: idle_conn_ok(6))

lemma demo_request_header:
  "get_header demo_request = Some \<lparr>body_len = 50, h_cmd = cmd_code CMD_DATASERVER_HEARTBEAT, h_state = 0\<rparr>"
  unfolding demo_request_def by (rule header_of_bytes)


theorem write_error_spins_witness:
  "\<exists>m. c_state (m_conn m) = conn_write \<and> state_machine gone_sys demo_env (\<lambda>_. 0) m = None"
proof -
  obtain s :: service where True by blast
  let ?m = "\<lparr>m_conn = idle_conn\<lparr>c_state := conn_write, wbytes := 16\<rparr>, m_srv = s, m_calls = 0, m_sent = [], m_curr_conns = 1\<rparr>"
  have "state_machine gone_sys demo_env (\<lambda>_. 0) ?m = None"
    by (rule write_error_spins) (simp_all add: gone_sys_def idle_conn_ok)
  then show ?thesis by (intro exI [of _ ?m]) simp
qed

end
