(* ===== verification/Posix_Io.thy ===== *)
theory Posix_Io
  imports C_Stdlib
begin

text \<open>
  The part of the file interface of the system that the data server uses, as an explicit state: the
  contents of the files by name, the directories, the open descriptors with their offsets, and the
  number of calls so far. Every call can fail (\<open>fs_fails\<close> decides for each number of a call), a
  failing write may have transferred some of its bytes (\<open>fs_part\<close>), and \<open>fs_errno\<close> is the error number
  a failing call leaves. Descriptors are never reused. \<open>stat_file\<close>, \<open>fileExists\<close> and \<open>isDir\<close> are functions
  of \<open>src/common/shared_func.c\<close>.
\<close>

record ofile =
  of_path :: cstr
  of_off :: nat
  of_append :: bool

record fsys =
  fs_files :: "cstr \<rightharpoonup> byte list"
  fs_dirs :: "cstr \<Rightarrow> bool"
  fs_open :: "int \<rightharpoonup> ofile"
  fs_next :: int
  fs_calls :: nat
  fs_fails :: "nat \<Rightarrow> bool"
  fs_part :: "nat \<Rightarrow> nat"
  fs_errno :: "nat \<Rightarrow> int"

definition fs_fail :: "fsys \<Rightarrow> bool" where
  "fs_fail fs = fs_fails fs (fs_calls fs)"

definition fs_tick :: "fsys \<Rightarrow> fsys" where
  "fs_tick fs = fs\<lparr>fs_calls := Suc (fs_calls fs)\<rparr>"

text \<open>The error number of the last call.\<close>

definition last_errno :: "fsys \<Rightarrow> int" where
  "last_errno fs = fs_errno fs (fs_calls fs - 1)"

subsection \<open>Names\<close>

definition fileExists :: "cstr \<Rightarrow> fsys \<Rightarrow> bool" where
  "fileExists p fs \<longleftrightarrow> fs_files fs p \<noteq> None \<or> fs_dirs fs p"

definition isDir :: "cstr \<Rightarrow> fsys \<Rightarrow> bool" where
  "isDir p fs \<longleftrightarrow> fs_dirs fs p"

definition sys_mkdir :: "cstr \<Rightarrow> fsys \<Rightarrow> int \<times> fsys" where
  "sys_mkdir p fs =
     (if fs_fail fs \<or> fileExists p fs then (-1, fs_tick fs)
      else (0, fs_tick (fs\<lparr>fs_dirs := (fs_dirs fs)(p := True)\<rparr>)))"

definition sys_unlink :: "cstr \<Rightarrow> fsys \<Rightarrow> int \<times> fsys" where
  "sys_unlink p fs =
     (if fs_fail fs \<or> fs_files fs p = None then (-1, fs_tick fs)
      else (0, fs_tick (fs\<lparr>fs_files := (fs_files fs)(p := None)\<rparr>)))"

subsection \<open>Descriptors\<close>

definition new_fd :: "ofile \<Rightarrow> fsys \<Rightarrow> int \<times> fsys" where
  "new_fd f fs = (fs_next fs, fs\<lparr>fs_open := (fs_open fs)(fs_next fs \<mapsto> f), fs_next := fs_next fs + 1\<rparr>)"

text \<open>\<open>open\<close> for reading, for appending with \<open>O_CREAT\<close>, for writing with \<open>O_CREAT | O_TRUNC\<close>.\<close>

definition open_read :: "cstr \<Rightarrow> fsys \<Rightarrow> int \<times> fsys" where
  "open_read p fs =
     (if fs_fail fs \<or> fs_files fs p = None then (-1, fs_tick fs)
      else new_fd \<lparr>of_path = p, of_off = 0, of_append = False\<rparr> (fs_tick fs))"

definition open_append :: "cstr \<Rightarrow> fsys \<Rightarrow> int \<times> fsys" where
  "open_append p fs =
     (if fs_fail fs then (-1, fs_tick fs)
      else
        let fs = (if fs_files fs p = None then fs\<lparr>fs_files := (fs_files fs)(p \<mapsto> [])\<rparr> else fs) in
        new_fd \<lparr>of_path = p, of_off = 0, of_append = True\<rparr> (fs_tick fs))"

definition open_trunc :: "cstr \<Rightarrow> fsys \<Rightarrow> int \<times> fsys" where
  "open_trunc p fs =
     (if fs_fail fs then (-1, fs_tick fs)
      else new_fd \<lparr>of_path = p, of_off = 0, of_append = False\<rparr> (fs_tick (fs\<lparr>fs_files := (fs_files fs)(p \<mapsto> [])\<rparr>)))"

definition sys_close :: "int \<Rightarrow> fsys \<Rightarrow> fsys" where
  "sys_close fd fs = fs\<lparr>fs_open := (fs_open fs)(fd := None)\<rparr>"

text \<open>\<open>read\<close>: the bytes, or \<open>None\<close> for an error.\<close>

definition fd_read :: "int \<Rightarrow> nat \<Rightarrow> fsys \<Rightarrow> byte list option \<times> fsys" where
  "fd_read fd n fs =
     (case fs_open fs fd of
        None \<Rightarrow> (None, fs_tick fs)
      | Some f \<Rightarrow>
          if fs_fail fs then (None, fs_tick fs)
          else
            let bs = take n (drop (of_off f) (case fs_files fs (of_path f) of None \<Rightarrow> [] | Some d \<Rightarrow> d)) in
            (Some bs, fs_tick (fs\<lparr>fs_open := (fs_open fs)(fd \<mapsto> f\<lparr>of_off := of_off f + length bs\<rparr>)\<rparr>)))"

text \<open>Bytes written at an offset; a gap behind the end is filled with zeros.\<close>

definition write_at :: "nat \<Rightarrow> byte list \<Rightarrow> byte list \<Rightarrow> byte list" where
  "write_at off bs d = take off d @ replicate (off - length d) 0 @ bs @ drop (off + length bs) d"

definition put_data :: "int \<Rightarrow> ofile \<Rightarrow> byte list \<Rightarrow> fsys \<Rightarrow> fsys" where
  "put_data fd f bs fs =
     (let d = (case fs_files fs (of_path f) of None \<Rightarrow> [] | Some d \<Rightarrow> d);
          off = (if of_append f then length d else of_off f) in
      fs\<lparr>fs_files := (fs_files fs)(of_path f \<mapsto> write_at off bs d),
         fs_open := (fs_open fs)(fd \<mapsto> f\<lparr>of_off := off + length bs\<rparr>)\<rparr>)"

definition fd_write :: "int \<Rightarrow> byte list \<Rightarrow> fsys \<Rightarrow> int \<times> fsys" where
  "fd_write fd bs fs =
     (case fs_open fs fd of
        None \<Rightarrow> (-1, fs_tick fs)
      | Some f \<Rightarrow>
          if \<not> fs_fail fs then (int (length bs), fs_tick (put_data fd f bs fs))
          else
            let part = take (fs_part fs (fs_calls fs)) bs in
            if part = [] then (-1, fs_tick fs) else (int (length part), fs_tick (put_data fd f part fs)))"

definition fd_sync :: "int \<Rightarrow> fsys \<Rightarrow> int \<times> fsys" where
  "fd_sync fd fs = (if fs_fail fs \<or> fs_open fs fd = None then -1 else 0, fs_tick fs)"

definition fd_seek_end :: "int \<Rightarrow> fsys \<Rightarrow> int \<times> fsys" where
  "fd_seek_end fd fs =
     (case fs_open fs fd of
        None \<Rightarrow> (-1, fs_tick fs)
      | Some f \<Rightarrow>
          if fs_fail fs then (-1, fs_tick fs)
          else let n = length (case fs_files fs (of_path f) of None \<Rightarrow> [] | Some d \<Rightarrow> d) in
            (int n, fs_tick (fs\<lparr>fs_open := (fs_open fs)(fd \<mapsto> f\<lparr>of_off := n\<rparr>)\<rparr>)))"

definition fd_seek_set :: "int \<Rightarrow> int \<Rightarrow> fsys \<Rightarrow> int \<times> fsys" where
  "fd_seek_set fd off fs =
     (case fs_open fs fd of
        None \<Rightarrow> (-1, fs_tick fs)
      | Some f \<Rightarrow>
          if fs_fail fs \<or> off < 0 then (-1, fs_tick fs)
          else (off, fs_tick (fs\<lparr>fs_open := (fs_open fs)(fd \<mapsto> f\<lparr>of_off := nat off\<rparr>)\<rparr>)))"

subsection \<open>Streams\<close>

text \<open>\<open>fgets\<close> with a buffer of \<open>n\<close> bytes on the rest of a file: the line with its newline, at most \<open>n - 1\<close>
  bytes.\<close>

definition fgets :: "nat \<Rightarrow> byte list \<Rightarrow> (byte list \<times> byte list) option" where
  "fgets n s =
     (if s = [] \<or> n \<le> 1 then None
      else
        let k = (case strchr (take (n - 1) s) 10 of Some i \<Rightarrow> Suc i | None \<Rightarrow> min (n - 1) (length s)) in
        Some (take k s, drop k s))"

lemma fgets_shrinks: "fgets n s = Some (l, r) \<Longrightarrow> length r < length s"
  by (cases s) (auto simp: fgets_def Let_def split: if_splits option.splits)

lemma fgets_parts: "fgets n s = Some (l, r) \<Longrightarrow> s = l @ r"
  by (auto simp: fgets_def Let_def split: if_splits option.splits)

lemma fgets_line:
  assumes "10 \<notin> set l" and "length l + 1 < n"
  shows "fgets n (l @ 10 # r) = Some (l @ [10], r)"
proof -
  have "n - 1 - length l = Suc (n - 2 - length l)" using assms(2) by simp
  then have "take (n - 1) (l @ 10 # r) = l @ 10 # take (n - 2 - length l) r" using assms(2) by simp
  then show ?thesis using assms by (simp add: fgets_def)
qed

text \<open>The successive results of \<open>fgets\<close> on a file.\<close>

function fgets_all :: "nat \<Rightarrow> byte list \<Rightarrow> byte list list" where
  "fgets_all n s = (case fgets n s of None \<Rightarrow> [] | Some (l, r) \<Rightarrow> l # fgets_all n r)"
  by pat_completeness auto
termination by (relation "measure (length \<circ> snd)") (auto dest: fgets_shrinks)

declare fgets_all.simps [simp del]

lemma fgets_all_Nil [simp]: "fgets_all n [] = []"
  by (simp add: fgets_all.simps fgets_def)

lemma fgets_all_line: "10 \<notin> set l \<Longrightarrow> length l + 1 < n \<Longrightarrow> fgets_all n (l @ 10 # r) = (l @ [10]) # fgets_all n r"
  by (subst fgets_all.simps) (simp add: fgets_line)

lemma fgets_all_lines:
  "\<forall>l \<in> set ls. 10 \<notin> set l \<and> length l + 1 < n \<Longrightarrow> fgets_all n (concat (map (\<lambda>l. l @ [10]) ls)) = map (\<lambda>l. l @ [10]) ls"
  by (induction ls) (auto simp: fgets_all_line)

text \<open>\<open>snprintf\<close> into a buffer of \<open>n\<close> bytes.\<close>

definition snprintf :: "nat \<Rightarrow> cstr \<Rightarrow> cstr" where
  "snprintf n s = take (n - 1) s"

lemma snprintf_id: "length s < n \<Longrightarrow> snprintf n s = s"
  by (simp add: snprintf_def)

subsection \<open>Laws\<close>

text \<open>A file system without failing calls.\<close>

definition fs_quiet :: "fsys \<Rightarrow> bool" where
  "fs_quiet fs \<longleftrightarrow> (\<forall>k. \<not> fs_fails fs k) \<and> 0 \<le> fs_next fs"

lemma fs_quiet_fail [simp]: "fs_quiet fs \<Longrightarrow> \<not> fs_fail fs"
  by (simp add: fs_quiet_def fs_fail_def)

lemma fs_tick_simps [simp]:
  "fs_files (fs_tick fs) = fs_files fs" "fs_dirs (fs_tick fs) = fs_dirs fs" "fs_open (fs_tick fs) = fs_open fs"
  "fs_next (fs_tick fs) = fs_next fs" "fs_quiet (fs_tick fs) = fs_quiet fs" "fs_fails (fs_tick fs) = fs_fails fs"
  by (simp_all add: fs_tick_def fs_quiet_def)

lemma write_at_end: "write_at (length d) bs d = d @ bs"
  by (simp add: write_at_def)

lemma write_at_0: "write_at 0 bs [] = bs"
  by (simp add: write_at_def)

text \<open>Every open descriptor is older than the next one.\<close>

definition fs_ok :: "fsys \<Rightarrow> bool" where
  "fs_ok fs \<longleftrightarrow> 0 \<le> fs_next fs \<and> (\<forall>fd \<in> dom (fs_open fs). 0 \<le> fd \<and> fd < fs_next fs)"

lemma fs_ok_fresh: "fs_ok fs \<Longrightarrow> fs_open fs (fs_next fs) = None"
  by (fastforce simp: fs_ok_def)

end
