(* ===== verification/Ds_Binlog.thy ===== *)
theory Ds_Binlog
  imports Posix_Io Lfs_Protocol
begin

text \<open>
  The binary log of the data server (\<open>src/dataserver/ds_binlog.c\<close>): one line per operation on a file,
  collected in a cache and appended to the current file of the log, and the readers that send the
  operations to the other servers of the volume. A log is a sequence of files with a running number; a
  file with the number of the current one and a mark file per reader survive a restart. The state of
  the file system is \<open>fsys\<close>; the mutex of the log makes each section under it one step, and its
  operations succeed; a result of \<open>None\<close> stands for undefined behaviour.
\<close>

subsection \<open>Data\<close>

definition MAX_PATH_SIZE :: nat where "MAX_PATH_SIZE = 256"
definition BINLOG_CACHE_BUFFER_SIZE :: nat where "BINLOG_CACHE_BUFFER_SIZE = 16 * 1024"
definition BINLOG_BUFFER_SIZE :: nat where "BINLOG_BUFFER_SIZE = 64 * 1024"
definition BINLOG_MAX_FILE_SIZE :: int where "BINLOG_MAX_FILE_SIZE = 1024 * 1024 * 1024"
definition BINLOG_RECORD_SIZE :: nat where "BINLOG_RECORD_SIZE = 256"
definition SYNC_BAT_DATAFIELDS :: int where "SYNC_BAT_DATAFIELDS = 4"
definition BINLOG_RECORD_COLUMN :: int where "BINLOG_RECORD_COLUMN = 3"
definition SPLITSYMBOL :: byte where "SPLITSYMBOL = 124"

definition B_FILE_OK :: int where "B_FILE_OK = 0"
definition B_FILE_ERROR :: int where "B_FILE_ERROR = 1"
definition B_FILE_NODATA :: int where "B_FILE_NODATA = 2"
definition B_FILE_END :: int where "B_FILE_END = 3"

record binlog_ctx =
  binlog_fd :: int
  curr_binlog_file_index :: int
  binlog_file_size :: int
  binlog_file_update_timestamp :: int
  binlog_path :: cstr
  binlog_mark_file_name :: cstr
  binlog_file_name :: cstr
  binlog_wcache :: "cstr option"

text \<open>\<open>memset(bctx, 0, sizeof(binlog_ctx))\<close>: the descriptor is 0, not -1.\<close>

definition zero_binlog_ctx :: binlog_ctx where
  "zero_binlog_ctx =
     \<lparr>binlog_fd = 0, curr_binlog_file_index = 0, binlog_file_size = 0, binlog_file_update_timestamp = 0,
      binlog_path = [], binlog_mark_file_name = [], binlog_file_name = [], binlog_wcache = None\<rparr>"

record binlog_buff =
  bb_buff :: "byte list"
  bb_cur :: nat
  bb_flag :: int
  bb_length :: nat

record sync_ctx =
  f_mark :: cstr
  b_index :: int
  b_fd :: int
  m_fd :: int
  last_timestamp :: int
  b_buff :: binlog_buff
  b_offset :: int
  sync_count :: int
  last_sync_count :: int

record binlog_record =
  op_type :: byte
  f_map_name :: cstr
  f_block_map_name :: cstr
  f_id :: cstr
  f_id_length :: int
  br_sequence :: int
  mnt_block_index :: int

definition zero_record :: binlog_record where
  "zero_record = \<lparr>op_type = 0, f_map_name = [], f_block_map_name = [], f_id = [], f_id_length = 0, br_sequence = 0, mnt_block_index = 0\<rparr>"

definition BINLOG_FILENAME :: "cstr \<Rightarrow> int \<Rightarrow> cstr" where
  "BINLOG_FILENAME pre i = snprintf MAX_PATH_SIZE (pre @ asc ''.'' @ fmt_03d i)"

definition SYNC_MARK_FILENAME :: "cstr \<Rightarrow> cstr \<Rightarrow> cstr" where
  "SYNC_MARK_FILENAME base bid = snprintf MAX_PATH_SIZE (base @ asc ''/sync/'' @ bid @ asc ''.mark'')"

subsection \<open>The writer\<close>

definition write_curr_binlog_file_index :: "binlog_ctx \<Rightarrow> int \<Rightarrow> fsys \<Rightarrow> int \<times> fsys" where
  "write_curr_binlog_file_index bctx curr_index fs =
     (let (fd, fs) = open_trunc (binlog_mark_file_name bctx) fs in
      if fd < 0 then (LFS_ERROR, fs)
      else
        let buff = fmt_d curr_index; (n, fs) = fd_write fd buff fs; fs = sys_close fd fs in
        if n \<noteq> int (length buff) then (LFS_ERROR, fs) else (LFS_OK, fs))"

definition open_new_binlog_file :: "binlog_ctx \<Rightarrow> fsys \<Rightarrow> int \<times> binlog_ctx \<times> fsys" where
  "open_new_binlog_file bctx fs =
     (let fs = (if binlog_fd bctx \<ge> 0 then sys_close (binlog_fd bctx) fs else fs);
          (fd, fs) = open_append (BINLOG_FILENAME (binlog_file_name bctx) (curr_binlog_file_index bctx)) fs;
          bctx = bctx\<lparr>binlog_fd := fd\<rparr> in
      if fd < 0 then (B_FILE_ERROR, bctx, fs) else (B_FILE_OK, bctx, fs))"

text \<open>The last part of \<open>__binlog_flush\<close>: the file is full.\<close>

definition binlog_rotate :: "binlog_ctx \<Rightarrow> fsys \<Rightarrow> int \<times> binlog_ctx \<times> fsys" where
  "binlog_rotate bctx fs =
     (let (ret, fs) = write_curr_binlog_file_index bctx (curr_binlog_file_index bctx + 1) fs in
      if ret = 0 then open_new_binlog_file (bctx\<lparr>curr_binlog_file_index := curr_binlog_file_index bctx + 1\<rparr>) fs
      else (ret, bctx, fs))"

definition binlog_flush :: "int \<Rightarrow> binlog_ctx \<Rightarrow> fsys \<Rightarrow> int \<times> binlog_ctx \<times> fsys" where
  "binlog_flush now bctx fs =
     (case binlog_wcache bctx of
        None \<Rightarrow> (LFS_OK, bctx, fs)
      | Some cache \<Rightarrow>
          if cache = [] then (LFS_OK, bctx, fs)
          else
            let (n, fs) = fd_write (binlog_fd bctx) cache fs in
            if n \<noteq> int (length cache) then (LFS_ERROR, bctx, fs)
            else
              let (r, fs) = fd_sync (binlog_fd bctx) fs in
              if r \<noteq> 0 then (LFS_ERROR, bctx, fs)
              else
                let bctx = bctx\<lparr>binlog_file_size := binlog_file_size bctx + int (length cache), binlog_file_update_timestamp := now\<rparr>;
                    (ret, bctx, fs) =
                      (if binlog_file_size bctx \<ge> BINLOG_MAX_FILE_SIZE
                       then let (ret, bctx, fs) = binlog_rotate bctx fs in (ret, bctx\<lparr>binlog_file_size := 0\<rparr>, fs)
                       else (LFS_OK, bctx, fs))
                in (ret, bctx\<lparr>binlog_wcache := Some []\<rparr>, fs))"

definition binlog_lock_flush :: "int \<Rightarrow> binlog_ctx \<Rightarrow> fsys \<Rightarrow> int \<times> binlog_ctx \<times> fsys" where
  "binlog_lock_flush now bctx fs = (let (_, bctx, fs) = binlog_flush now bctx fs in (LFS_OK, bctx, fs))"

text \<open>The line is printed behind the cached bytes; a line that does not fit with its terminator is
  written beyond the cache. The result of the flush is replaced by the result of unlocking.\<close>

definition binlog_write :: "int \<Rightarrow> cstr \<Rightarrow> binlog_ctx \<Rightarrow> fsys \<Rightarrow> (int \<times> binlog_ctx \<times> fsys) option" where
  "binlog_write now line bctx fs =
     (case binlog_wcache bctx of
        None \<Rightarrow> None
      | Some cache \<Rightarrow>
          if length cache + length line + 1 > BINLOG_CACHE_BUFFER_SIZE then None
          else
            let bctx = bctx\<lparr>binlog_wcache := Some (cache @ line)\<rparr>;
                (ret, bctx, fs) =
                  (if int BINLOG_CACHE_BUFFER_SIZE - int (length (cache @ line)) < 256 then binlog_flush now bctx fs
                   else (LFS_OK, bctx, fs))
            in Some (0, bctx, fs))"

definition binlog_ctx_destroy :: "int \<Rightarrow> binlog_ctx \<Rightarrow> fsys \<Rightarrow> binlog_ctx \<times> fsys" where
  "binlog_ctx_destroy now bctx fs =
     (let (bctx, fs) =
        (if binlog_fd bctx \<ge> 0 then
           let (_, bctx, fs) = binlog_lock_flush now bctx fs in (bctx\<lparr>binlog_fd := -1\<rparr>, sys_close (binlog_fd bctx) fs)
         else (bctx, fs))
      in (bctx\<lparr>binlog_wcache := None\<rparr>, fs))"

text \<open>\<open>local_binlog_init\<close> and \<open>remote_binlog_init\<close> differ in the names of the directory and the files. When
  the directory cannot be made the result is still \<open>LFS_OK\<close>. \<open>mem\<close> is the outcome of \<open>malloc\<close>.\<close>

definition read_index :: "binlog_ctx \<Rightarrow> fsys \<Rightarrow> int \<times> binlog_ctx \<times> fsys" where
  "read_index bctx fs =
     (let (fd, fs) = open_read (binlog_mark_file_name bctx) fs in
      if fd \<ge> 0 then
        let (r, fs) = fd_read fd 63 fs; fs = sys_close fd fs in
        case r of
          None \<Rightarrow> (LFS_ERROR, bctx, fs)
        | Some bs \<Rightarrow>
            if bs = [] then (LFS_ERROR, bctx, fs)
            else let bctx = bctx\<lparr>curr_binlog_file_index := atoi (cstr_of bs)\<rparr> in
              (if curr_binlog_file_index bctx < 0 then LFS_ERROR else LFS_OK, bctx, fs)
      else
        let bctx = bctx\<lparr>curr_binlog_file_index := 0\<rparr>; (ret, fs) = write_curr_binlog_file_index bctx 0 fs in
        (ret, bctx, fs))"

definition open_binlog :: "int \<Rightarrow> cstr \<Rightarrow> binlog_ctx \<Rightarrow> fsys \<Rightarrow> int \<times> binlog_ctx \<times> fsys" where
  "open_binlog now file bctx fs =
     (let bctx = bctx\<lparr>binlog_wcache := Some [], binlog_file_name := snprintf MAX_PATH_SIZE (binlog_path bctx @ file)\<rparr>;
          (fd, fs) = open_append (BINLOG_FILENAME (binlog_file_name bctx) (curr_binlog_file_index bctx)) fs;
          bctx = bctx\<lparr>binlog_fd := fd\<rparr> in
      if fd < 0 then let (bctx, fs) = binlog_ctx_destroy now bctx fs in (LFS_ERROR, bctx, fs)
      else
        let (n, fs) = fd_seek_end fd fs; bctx = bctx\<lparr>binlog_file_size := n\<rparr> in
        if n < 0 then let (bctx, fs) = binlog_ctx_destroy now bctx fs in (LFS_ERROR, bctx, fs)
        else (LFS_OK, bctx, fs))"

definition binlog_ctx_init :: "bool \<Rightarrow> int \<Rightarrow> cstr \<Rightarrow> cstr \<Rightarrow> cstr \<Rightarrow> fsys \<Rightarrow> int \<times> binlog_ctx \<times> fsys" where
  "binlog_ctx_init mem now dir index_file file fs =
     (let bctx = zero_binlog_ctx\<lparr>binlog_path := snprintf MAX_PATH_SIZE dir\<rparr>;
          (r, fs) = (if isDir (binlog_path bctx) fs then (0, fs) else sys_mkdir (binlog_path bctx) fs) in
      if r \<noteq> 0 then (LFS_OK, bctx, fs)
      else
        let bctx = bctx\<lparr>binlog_mark_file_name := snprintf MAX_PATH_SIZE (binlog_path bctx @ index_file)\<rparr>;
            (ret, bctx, fs) = read_index bctx fs in
        if ret \<noteq> 0 then (ret, bctx, fs)
        else if \<not> mem then (LFS_ERROR, bctx, fs)
        else open_binlog now file bctx fs)"

definition local_binlog_init :: "bool \<Rightarrow> int \<Rightarrow> cstr \<Rightarrow> fsys \<Rightarrow> int \<times> binlog_ctx \<times> fsys" where
  "local_binlog_init mem now base fs =
     binlog_ctx_init mem now (base @ asc ''/bin'') (asc ''/binlog.index'') (asc ''/binlog.bat'') fs"

definition remote_binlog_init :: "bool \<Rightarrow> int \<Rightarrow> cstr \<Rightarrow> fsys \<Rightarrow> int \<times> binlog_ctx \<times> fsys" where
  "remote_binlog_init mem now base fs =
     binlog_ctx_init mem now (base @ asc ''/sync'') (asc ''/syncbinlog.index'') (asc ''/syncbinlog.bat'') fs"

definition binlog_init :: "bool \<Rightarrow> bool \<Rightarrow> int \<Rightarrow> cstr \<Rightarrow> binlog_ctx \<Rightarrow> fsys \<Rightarrow> int \<times> binlog_ctx \<times> binlog_ctx \<times> fsys" where
  "binlog_init mem1 mem2 now base rbctx fs =
     (let (ret, bctx, fs) = local_binlog_init mem1 now base fs in
      if ret \<noteq> 0 then (ret, bctx, rbctx, fs)
      else let (ret, rbctx, fs) = remote_binlog_init mem2 now base fs in (ret, bctx, rbctx, fs))"

definition binlog_destroy :: "int \<Rightarrow> binlog_ctx \<Rightarrow> binlog_ctx \<Rightarrow> fsys \<Rightarrow> binlog_ctx \<times> binlog_ctx \<times> fsys" where
  "binlog_destroy now bctx rbctx fs =
     (let (bctx, fs) = binlog_ctx_destroy now bctx fs; (rbctx, fs) = binlog_ctx_destroy now rbctx fs in (bctx, rbctx, fs))"

subsection \<open>Mark files\<close>

text \<open>With an open \<open>m_fd\<close> the local \<open>fd\<close> is not initialised. The descriptor is not closed.\<close>

definition mark_line :: "sync_ctx \<Rightarrow> cstr" where
  "mark_line s = join_cols SPLITSYMBOL [fmt_d (b_index s), fmt_d (last_timestamp s), fmt_d (b_offset s), fmt_d (sync_count s)] @ [10]"

definition sync_mark_file_batdata_write :: "cstr \<Rightarrow> sync_ctx \<Rightarrow> fsys \<Rightarrow> (int \<times> sync_ctx \<times> fsys) option" where
  "sync_mark_file_batdata_write base s fs =
     (if m_fd s \<ge> 0 then None
      else
        let (fd, fs) = open_trunc (SYNC_MARK_FILENAME base (f_mark s)) fs in
        if fd < 0 then Some (LFS_ERROR, s, fs)
        else
          let (n, fs) = fd_write fd (mark_line s) fs;
              ret = (if n \<noteq> int (length (mark_line s)) then if last_errno fs \<noteq> 0 then last_errno fs else 5 else LFS_OK)
          in Some (ret, s\<lparr>last_sync_count := sync_count s\<rparr>, fs))"

text \<open>The loop of \<open>__mark_file_batdata_load\<close> over the lines; the last good line wins.\<close>

primrec mark_load_loop :: "byte list list \<Rightarrow> sync_ctx \<Rightarrow> sync_ctx" where
  "mark_load_loop [] s = s"
| "mark_load_loop (l # ls) s =
     (let sline = cstr_of l; fields = splitStr sline SPLITSYMBOL SYNC_BAT_DATAFIELDS in
      if sline = [] then mark_load_loop ls s
      else if int (length fields) \<noteq> SYNC_BAT_DATAFIELDS then s
      else mark_load_loop ls
        (s\<lparr>b_index := atoi (trim True (fields ! 0)), last_timestamp := atol (trim True (fields ! 1)),
           b_offset := atol (trim True (fields ! 2)), sync_count := atol (trim True (fields ! 3)),
           last_sync_count := atol (trim True (fields ! 3))\<rparr>))"

definition mark_file_batdata_load :: "cstr \<Rightarrow> sync_ctx \<Rightarrow> fsys \<Rightarrow> int \<times> sync_ctx \<times> fsys" where
  "mark_file_batdata_load base s fs =
     (let m_fn = SYNC_MARK_FILENAME base (f_mark s) in
      case fs_files fs m_fn of
        None \<Rightarrow> (LFS_OK, s, fs_tick fs)
      | Some d \<Rightarrow>
          if fs_fail fs then (LFS_OK, s, fs_tick fs)
          else (LFS_OK, mark_load_loop (fgets_all BINLOG_RECORD_SIZE d) s, fs_tick fs))"

subsection \<open>Where a reader starts\<close>

text \<open>The loop of \<open>__binlog_sync_offset_locate\<close>: the length of the records that the other server has, \<open>None\<close>
  for a malformed record.\<close>

primrec locate_loop :: "int \<Rightarrow> int \<Rightarrow> byte list list \<Rightarrow> int option" where
  "locate_loop last_seq off [] = Some off"
| "locate_loop last_seq off (l # ls) =
     (let sline = cstr_of l; fields = splitStr sline SPLITSYMBOL BINLOG_RECORD_COLUMN in
      if sline = [] then locate_loop last_seq off ls
      else if int (length fields) \<noteq> BINLOG_RECORD_COLUMN then None
      else if last_seq \<ge> atol (fields ! 0) then locate_loop last_seq (off + int (length sline)) ls
      else Some off)"

definition binlog_sync_offset_locate :: "binlog_ctx \<Rightarrow> int \<Rightarrow> sync_ctx \<Rightarrow> fsys \<Rightarrow> int \<times> sync_ctx \<times> fsys" where
  "binlog_sync_offset_locate bctx last_seq s fs =
     (case fs_files fs (BINLOG_FILENAME (binlog_file_name bctx) (b_index s)) of
        None \<Rightarrow> (last_errno (fs_tick fs), s, fs_tick fs)
      | Some d \<Rightarrow>
          if fs_fail fs then (last_errno (fs_tick fs), s, fs_tick fs)
          else
            (case locate_loop last_seq 0 (fgets_all BINLOG_RECORD_SIZE d) of
               None \<Rightarrow> (LFS_OK, s, fs_tick fs)
             | Some off \<Rightarrow> (LFS_OK, s\<lparr>b_offset := off\<rparr>, fs_tick fs)))"

definition open_setting_binlog :: "sync_ctx \<Rightarrow> binlog_ctx \<Rightarrow> fsys \<Rightarrow> int \<times> sync_ctx \<times> fsys" where
  "open_setting_binlog s bctx fs =
     (let fs = (if b_fd s \<ge> 0 then sys_close (b_fd s) fs else fs);
          (fd, fs) = open_read (BINLOG_FILENAME (binlog_file_name bctx) (b_index s)) fs;
          s = s\<lparr>b_fd := fd\<rparr> in
      if fd < 0 then (last_errno fs, s, fs)
      else if b_offset s > 0 then
        let (r, fs) = fd_seek_set fd (b_offset s) fs in
        if r < 0 then (last_errno fs, s\<lparr>b_fd := -1\<rparr>, sys_close fd fs) else (LFS_OK, s, fs)
      else (LFS_OK, s, fs))"

text \<open>A fresh context for a reader with the name of its mark file.\<close>

definition new_sync_ctx :: "cstr \<Rightarrow> sync_ctx" where
  "new_sync_ctx mark =
     \<lparr>f_mark = snprintf 32 mark, b_index = 0, b_fd = -1, m_fd = -1, last_timestamp = 0,
      b_buff = \<lparr>bb_buff = replicate BINLOG_BUFFER_SIZE 0, bb_cur = 0, bb_flag = 0, bb_length = 0\<rparr>,
      b_offset = 0, sync_count = 0, last_sync_count = 0\<rparr>"

definition asyncctx_init ::
  "bool \<Rightarrow> cstr \<Rightarrow> cstr \<Rightarrow> int \<Rightarrow> int \<Rightarrow> binlog_ctx \<Rightarrow> fsys \<Rightarrow> (int \<times> sync_ctx \<times> fsys) option" where
  "asyncctx_init mem base ipaddr port last_seq bctx fs =
     (let s = new_sync_ctx (asc ''to_'' @ ipaddr @ asc '':'' @ fmt_d port) in
      if \<not> mem then Some (LFS_ERROR, s\<lparr>f_mark := [], b_buff := (b_buff s)\<lparr>bb_buff := []\<rparr>\<rparr>, fs)
      else do {
        (ret, s, fs) \<leftarrow>
          (if fileExists (SYNC_MARK_FILENAME base (f_mark s)) fs then Some (mark_file_batdata_load base s fs)
           else
             let (ret, s, fs) = binlog_sync_offset_locate bctx last_seq (s\<lparr>b_index := curr_binlog_file_index bctx\<rparr>) fs in
             if ret \<noteq> 0 then Some (ret, s, fs) else sync_mark_file_batdata_write base s fs);
        if ret \<noteq> 0 then Some (ret, s, fs) else Some (open_setting_binlog s bctx fs)
      })"

definition fullsyncctx_init :: "bool \<Rightarrow> cstr \<Rightarrow> cstr \<Rightarrow> int \<Rightarrow> binlog_ctx \<Rightarrow> fsys \<Rightarrow> int \<times> sync_ctx \<times> fsys" where
  "fullsyncctx_init mem base ipaddr port bctx fs =
     (let s = new_sync_ctx (asc ''from_'' @ ipaddr @ asc '':'' @ fmt_d port) in
      if \<not> mem then (LFS_ERROR, s\<lparr>f_mark := [], b_buff := (b_buff s)\<lparr>bb_buff := []\<rparr>\<rparr>, fs)
      else
        let (ret, s, fs) =
          (if fileExists (SYNC_MARK_FILENAME base (f_mark s)) fs then mark_file_batdata_load base s fs else (LFS_OK, s, fs)) in
        if ret \<noteq> 0 then (ret, s, fs) else open_setting_binlog s bctx fs)"

definition binlogsyncctx_destroy :: "sync_ctx \<Rightarrow> fsys \<Rightarrow> int \<times> sync_ctx \<times> fsys" where
  "binlogsyncctx_destroy s fs =
     (let (s, fs) = (if b_fd s \<ge> 0 then (s\<lparr>b_fd := -1\<rparr>, sys_close (b_fd s) fs) else (s, fs));
          (s, fs) = (if m_fd s \<ge> 0 then (s\<lparr>m_fd := -1\<rparr>, sys_close (m_fd s) fs) else (s, fs));
          s = (if bb_buff (b_buff s) \<noteq> [] then s\<lparr>b_buff := (b_buff s)\<lparr>bb_buff := [], bb_cur := 0, bb_length := 0\<rparr>\<rparr> else s)
      in (LFS_OK, s, fs))"

subsection \<open>The reader\<close>

text \<open>The bytes in the buffer that have not been delivered.\<close>

definition bb_data :: "binlog_buff \<Rightarrow> byte list" where
  "bb_data b = take (bb_length b) (drop (bb_cur b) (bb_buff b))"

text \<open>\<open>__binlog_record_read_do\<close>: the state, the record and its length, the buffer.\<close>

definition binlog_record_read_do :: "binlog_buff \<Rightarrow> int \<times> byte list \<times> nat \<times> binlog_buff" where
  "binlog_record_read_do b =
     (if bb_length b = 0 then (B_FILE_NODATA, [], 0, b)
      else case strchr (bb_data b) 10 of
             None \<Rightarrow> (B_FILE_NODATA, [], 0, b)
           | Some i \<Rightarrow>
               if Suc i \<ge> BINLOG_RECORD_SIZE then (B_FILE_ERROR, [], Suc i, b)
               else (B_FILE_OK, take (Suc i) (bb_data b), Suc i, b\<lparr>bb_cur := bb_cur b + Suc i, bb_length := bb_length b - Suc i\<rparr>))"

text \<open>\<open>__binlog_file_read\<close> moves the rest to the front of the buffer with \<open>memcpy\<close>, which is undefined when
  source and destination overlap.\<close>

definition compact :: "binlog_buff \<Rightarrow> binlog_buff option" where
  "compact b =
     (if bb_cur b = 0 then Some b
      else if bb_length b = 0 then Some (b\<lparr>bb_cur := 0\<rparr>)
      else if bb_cur b < bb_length b then None
      else do { d \<leftarrow> put_bytes (bb_buff b) 0 (bb_data b); Some (b\<lparr>bb_buff := d, bb_cur := 0\<rparr>) })"

definition binlog_file_read :: "sync_ctx \<Rightarrow> binlog_ctx \<Rightarrow> fsys \<Rightarrow> (int \<times> sync_ctx \<times> fsys) option" where
  "binlog_file_read s bctx fs =
     (if bb_flag (b_buff s) = 1 \<and> bb_length (b_buff s) = 0 then Some (B_FILE_END, s, fs)
      else do {
        b \<leftarrow> compact (b_buff s);
        let s = s\<lparr>b_buff := b\<rparr>;
        let (r, fs) = fd_read (b_fd s) (BINLOG_BUFFER_SIZE - bb_length b) fs;
        case r of
          None \<Rightarrow> Some (B_FILE_ERROR, s, fs)
        | Some bs \<Rightarrow>
            if bs = [] then
              if b_index s = curr_binlog_file_index bctx then Some (B_FILE_NODATA, s, fs)
              else Some (B_FILE_END, s\<lparr>b_buff := b\<lparr>bb_flag := 1\<rparr>\<rparr>, fs)
            else do {
              d \<leftarrow> put_bytes (bb_buff b) (bb_length b) bs;
              Some (B_FILE_OK, s\<lparr>b_buff := b\<lparr>bb_buff := d, bb_length := bb_length b + length bs\<rparr>\<rparr>, fs)
            }
      })"

definition binlog_record_read :: "sync_ctx \<Rightarrow> binlog_ctx \<Rightarrow> fsys \<Rightarrow> (int \<times> byte list \<times> nat \<times> sync_ctx \<times> fsys) option" where
  "binlog_record_read s bctx fs =
     (let (st, rec, n, b) = binlog_record_read_do (b_buff s) in
      if st \<noteq> B_FILE_NODATA then Some (st, rec, n, s\<lparr>b_buff := b\<rparr>, fs)
      else do {
        (st, s, fs) \<leftarrow> binlog_file_read s bctx fs;
        if st \<noteq> B_FILE_OK then Some (st, [], 0, s, fs)
        else
          let (st, rec, n, b) = binlog_record_read_do (b_buff s) in Some (st, rec, n, s\<lparr>b_buff := b\<rparr>, fs)
      })"

text \<open>\<open>LFS_SPLIT_BLOCK_INDEX_BY_FILE_ID\<close>: the text behind the first character of the third component of a file
  identifier and the rest. With an empty third component the first part runs into the second.\<close>

definition split_block_index :: "cstr \<Rightarrow> (cstr \<times> cstr) option" where
  "split_block_index file_id = do {
     let fid = snprintf LFS_FILE_ID_SIZE file_id;
     i \<leftarrow> strchr fid 47;
     let vmn = snprintf LFS_FILE_NAME_SIZE (drop (Suc i) fid);
     j \<leftarrow> strchr vmn 47;
     let mn = snprintf LFS_FILE_NAME_SIZE (drop (Suc j) vmn);
     k \<leftarrow> strchr mn 47;
     Some (if k = 0 then drop 1 mn else drop 1 (take k mn), drop (Suc k) mn)
   }"

text \<open>\<open>__binlog_record_parse\<close>; \<open>mounts\<close> are the mount paths of the blocks. A length of -1 is large as an
  unsigned number.\<close>

definition binlog_record_parse :: "cstr list \<Rightarrow> byte list \<Rightarrow> binlog_record \<Rightarrow> (int \<times> binlog_record) option" where
  "binlog_record_parse mounts rec br =
     (let cols = splitStr (cstr_of rec) SPLITSYMBOL BINLOG_RECORD_COLUMN in
      if int (length cols) < BINLOG_RECORD_COLUMN then Some (B_FILE_ERROR, br)
      else
        let br = br\<lparr>br_sequence := atol (cols ! 0), op_type := (if cols ! 1 = [] then 0 else hd (cols ! 1)),
                    f_id_length := int (length (cols ! 2)) - 1\<rparr> in
        if f_id_length br < 0 \<or> f_id_length br > int LFS_FILE_ID_SIZE - 1 then Some (B_FILE_ERROR, br)
        else
          let br = br\<lparr>f_id := take (nat (f_id_length br)) (cols ! 2)\<rparr> in
          case split_block_index (f_id br) of
            None \<Rightarrow> Some (LFS_ERROR, br)
          | Some (pblock_index, map_name) \<Rightarrow>
              let ix = atoi pblock_index; br = br\<lparr>mnt_block_index := ix, f_map_name := map_name\<rparr> in
              if ix < 0 \<or> int (length mounts) \<le> ix then None
              else
                let bn = mounts ! nat ix @ asc ''/'' @ map_name in
                if length bn \<ge> 256 then None else Some (B_FILE_OK, br\<lparr>f_block_map_name := bn\<rparr>))"

text \<open>\<open>binlog_read\<close>: at the end of a file that is not the current one the number of the file goes up, but it
  is the file of the writer that is opened again.\<close>

partial_function (option) binlog_read_loop ::
  "cstr \<Rightarrow> sync_ctx \<Rightarrow> binlog_ctx \<Rightarrow> fsys \<Rightarrow> (int \<times> byte list \<times> nat \<times> sync_ctx \<times> binlog_ctx \<times> fsys) option" where
  [code]: "binlog_read_loop base s bctx fs = do {
     (bfs, rec, n, s, fs) \<leftarrow> binlog_record_read s bctx fs;
     if bfs = B_FILE_OK then Some (B_FILE_OK, rec, n, s, bctx, fs)
     else if bfs \<noteq> B_FILE_END then Some (bfs, rec, n, s, bctx, fs)
     else if b_index s > curr_binlog_file_index bctx then Some (B_FILE_ERROR, rec, n, s, bctx, fs)
     else if bb_length (b_buff s) \<noteq> 0 then Some (B_FILE_ERROR, rec, n, s, bctx, fs)
     else do {
       let s = s\<lparr>b_index := b_index s + 1, b_offset := 0, b_buff := (b_buff s)\<lparr>bb_flag := 0\<rparr>\<rparr>;
       let (ret, bctx, fs) = open_new_binlog_file bctx fs;
       if ret \<noteq> 0 then Some (ret, rec, n, s, bctx, fs)
       else do {
         (ret, s, fs) \<leftarrow> sync_mark_file_batdata_write base s fs;
         if ret \<noteq> 0 then Some (B_FILE_ERROR, rec, n, s, bctx, fs) else binlog_read_loop base s bctx fs
       }
     }
   }"

definition binlog_read ::
  "cstr \<Rightarrow> cstr list \<Rightarrow> sync_ctx \<Rightarrow> binlog_ctx \<Rightarrow> fsys \<Rightarrow> (int \<times> binlog_record \<times> nat \<times> sync_ctx \<times> binlog_ctx \<times> fsys) option" where
  "binlog_read base mounts s bctx fs = do {
     (bfs, rec, n, s, bctx, fs) \<leftarrow> binlog_read_loop base s bctx fs;
     if bfs \<noteq> B_FILE_OK then Some (bfs, zero_record, n, s, bctx, fs)
     else do {
       (ret, br) \<leftarrow> binlog_record_parse mounts rec zero_record;
       if ret \<noteq> 0 then Some (ret, br, n, s, bctx, fs) else Some (B_FILE_OK, br, n, s, bctx, fs)
     }
   }"

subsection \<open>Lines\<close>

text \<open>A log holds complete lines that fit into the buffer for a record.\<close>

definition log_line :: "byte list \<Rightarrow> bool" where
  "log_line l \<longleftrightarrow> 10 \<notin> set l \<and> 0 \<notin> set l \<and> length l + 1 < BINLOG_RECORD_SIZE"

definition unlines :: "byte list list \<Rightarrow> byte list" where
  "unlines ls = concat (map (\<lambda>l. l @ [10]) ls)"

lemma unlines_simps [simp]: "unlines [] = []" "unlines (l # ls) = l @ 10 # unlines ls" "unlines (ls @ ms) = unlines ls @ unlines ms"
  by (simp_all add: unlines_def)

lemma last_unlines: "unlines ls \<noteq> [] \<Longrightarrow> last (unlines ls) = 10"
  by (induction ls) (auto simp: last_append)

lemma strchr_prefix:
  assumes "10 \<notin> set l" and "l @ 10 # r = xs @ ys"
  shows "if length l < length xs then strchr xs 10 = Some (length l) \<and> xs = l @ 10 # drop (Suc (length l)) xs \<and> r = drop (Suc (length l)) xs @ ys
    else strchr xs 10 = None \<and> xs = take (length xs) l"
proof (cases "length l < length xs")
  case True
  have "take (length xs) (l @ 10 # r) = xs" using assms(2) by simp
  then have xs: "xs = l @ 10 # take (length xs - length l - 1) r" using True
    by (cases "length xs - length l") (auto simp: take_Cons')
  then have d: "drop (Suc (length l)) xs = take (length xs - length l - 1) r" by (metis append_Cons append_Nil append.assoc append_eq_conv_conj length_append_singleton)
  have "r = drop (Suc (length l)) xs @ ys"
    using arg_cong [OF assms(2), of "drop (Suc (length l))"] True by simp
  moreover have "strchr xs 10 = Some (length l)" by (subst xs) (rule strchr_append [OF assms(1)])
  ultimately show ?thesis using True xs d by simp
next
  case False
  have "take (length xs) (l @ 10 # r) = xs" using assms(2) by simp
  then have "xs = take (length xs) l" using False by simp
  moreover have "10 \<notin> set xs" using assms(1) calculation set_take_subset [of "length xs" l] by auto
  ultimately show ?thesis using False by (simp add: strchr_None_iff)
qed

subsection \<open>What a reader has not delivered\<close>

definition log_file :: "binlog_ctx \<Rightarrow> cstr" where
  "log_file bctx = BINLOG_FILENAME (binlog_file_name bctx) (curr_binlog_file_index bctx)"

definition buff_ok :: "binlog_buff \<Rightarrow> bool" where
  "buff_ok b \<longleftrightarrow> length (bb_buff b) = BINLOG_BUFFER_SIZE \<and> bb_cur b + bb_length b \<le> BINLOG_BUFFER_SIZE \<and> bb_flag b = 0 \<and>
     (bb_data b = [] \<or> last (bb_data b) = 10 \<or> bb_cur b + bb_length b = BINLOG_BUFFER_SIZE)"

definition rd_inv :: "sync_ctx \<Rightarrow> binlog_ctx \<Rightarrow> fsys \<Rightarrow> byte list \<Rightarrow> bool" where
  "rd_inv s bctx fs pend \<longleftrightarrow> buff_ok (b_buff s) \<and> b_index s = curr_binlog_file_index bctx \<and>
     (\<exists>f d. fs_open fs (b_fd s) = Some f \<and> of_path f = log_file bctx \<and> fs_files fs (log_file bctx) = Some d \<and> of_off f \<le> length d \<and>
        pend = bb_data (b_buff s) @ drop (of_off f) d)"

lemma length_bb_data: "buff_ok b \<Longrightarrow> length (bb_data b) = bb_length b"
  by (auto simp: buff_ok_def bb_data_def)

lemma buff_ok_take:
  assumes "buff_ok b" and "n \<le> bb_length b"
  shows "buff_ok (b\<lparr>bb_cur := bb_cur b + n, bb_length := bb_length b - n\<rparr>)"
    "bb_data (b\<lparr>bb_cur := bb_cur b + n, bb_length := bb_length b - n\<rparr>) = drop n (bb_data b)"
proof -
  show d: "bb_data (b\<lparr>bb_cur := bb_cur b + n, bb_length := bb_length b - n\<rparr>) = drop n (bb_data b)"
    by (simp add: bb_data_def drop_take add.commute)
  have "drop n (bb_data b) \<noteq> [] \<Longrightarrow> bb_data b \<noteq> [] \<and> last (drop n (bb_data b)) = last (bb_data b)" by (auto simp: last_drop)
  then show "buff_ok (b\<lparr>bb_cur := bb_cur b + n, bb_length := bb_length b - n\<rparr>)"
    using assms unfolding buff_ok_def d by auto
qed

text \<open>A record in the buffer is delivered.\<close>

lemma read_do_line:
  assumes b: "buff_ok b" and l: "log_line l" and p: "l @ 10 # r = bb_data b @ ys"
  shows "if length l < bb_length b
    then \<exists>b'. binlog_record_read_do b = (B_FILE_OK, l @ [10], Suc (length l), b') \<and> buff_ok b' \<and> bb_data b' @ ys = r
    else binlog_record_read_do b = (B_FILE_NODATA, [], 0, b) \<and> bb_data b = take (bb_length b) l"
proof -
  note s = strchr_prefix [OF _ p, unfolded length_bb_data [OF b]]
  have n: "10 \<notin> set l" "Suc (length l) < BINLOG_RECORD_SIZE" using l by (simp_all add: log_line_def)
  show ?thesis
  proof (cases "length l < bb_length b")
    case True
    let ?b = "b\<lparr>bb_cur := bb_cur b + Suc (length l), bb_length := bb_length b - Suc (length l)\<rparr>"
    have e: "strchr (bb_data b) 10 = Some (length l)" "bb_data b = l @ 10 # drop (Suc (length l)) (bb_data b)" "r = drop (Suc (length l)) (bb_data b) @ ys"
      using s [OF n(1)] True by simp_all
    have "take (Suc (length l)) (bb_data b) = l @ [10]" by (subst e(2)) simp
    then have "binlog_record_read_do b = (B_FILE_OK, l @ [10], Suc (length l), ?b)"
      using e(1) n(2) True by (simp add: binlog_record_read_do_def)
    then show ?thesis using buff_ok_take [OF b, of "Suc (length l)"] True e(3) by simp
  next
    case False
    then have e: "strchr (bb_data b) 10 = None" "bb_data b = take (bb_length b) l" using s [OF n(1)] by (metis (full_types))+
    have "binlog_record_read_do b = (B_FILE_NODATA, [], 0, b)" by (simp add: binlog_record_read_do_def e(1))
    then show ?thesis using e(2) False by simp
  qed
qed

text \<open>When the buffer holds no complete record, its rest is short enough to be moved to the front, and the
  next read completes it.\<close>

lemma put_bytes_after:
  assumes "n + length bs \<le> length buf"
  shows "\<exists>e. put_bytes buf n bs = Some e \<and> length e = length buf \<and> take (n + length bs) e = take n buf @ bs"
  using assms by (simp add: put_bytes_def)

lemma compact_ok:
  assumes "buff_ok b" and "10 \<notin> set (bb_data b)" and "bb_length b < BINLOG_RECORD_SIZE"
  shows "\<exists>b'. compact b = Some b' \<and> bb_cur b' = 0 \<and> bb_length b' = bb_length b \<and> bb_data b' = bb_data b \<and> bb_flag b' = 0 \<and>
    length (bb_buff b') = BINLOG_BUFFER_SIZE"
proof (cases "bb_cur b = 0 \<or> bb_length b = 0")
  case True
  then show ?thesis using assms(1) by (auto simp: compact_def buff_ok_def bb_data_def)
next
  case False
  then have "bb_data b \<noteq> []" using length_bb_data [OF assms(1)] by auto
  then have "bb_cur b + bb_length b = BINLOG_BUFFER_SIZE" using assms(1,2) last_in_set [of "bb_data b"] by (metis buff_ok_def)
  then have c: "bb_length b \<le> bb_cur b" using assms(3) by (simp add: BINLOG_BUFFER_SIZE_def BINLOG_RECORD_SIZE_def)
  have l: "length (bb_buff b) = BINLOG_BUFFER_SIZE" "length (bb_data b) = bb_length b" using assms(1) length_bb_data by (auto simp: buff_ok_def)
  have "bb_length b \<le> BINLOG_BUFFER_SIZE" using assms(1) by (simp add: buff_ok_def)
  then obtain d where d: "put_bytes (bb_buff b) 0 (bb_data b) = Some d" "length d = BINLOG_BUFFER_SIZE" "take (bb_length b) d = bb_data b"
    using put_bytes_Some [of 0 "bb_data b" "bb_buff b"] l by auto
  moreover have "bb_flag b = 0" using assms(1) by (simp add: buff_ok_def)
  ultimately show ?thesis using False c by (simp add: compact_def bb_data_def)
qed

lemma fd_read_quiet:
  assumes "fs_quiet fs" and "fs_open fs fd = Some f" and "fs_files fs (of_path f) = Some d"
  shows "fd_read fd n fs = (Some (take n (drop (of_off f) d)),
    fs_tick (fs\<lparr>fs_open := (fs_open fs)(fd \<mapsto> f\<lparr>of_off := of_off f + length (take n (drop (of_off f) d))\<rparr>)\<rparr>))"
  using assms by (simp add: fd_read_def Let_def)

definition same_but_fd :: "int \<Rightarrow> fsys \<Rightarrow> fsys \<Rightarrow> bool" where
  "same_but_fd fd fs fs' \<longleftrightarrow> fs_files fs' = fs_files fs \<and> fs_quiet fs' = fs_quiet fs \<and> fs_next fs' = fs_next fs \<and>
     (\<forall>x. x \<noteq> fd \<longrightarrow> fs_open fs' x = fs_open fs x)"

lemma file_read_line:
  assumes q: "fs_quiet fs" and inv: "rd_inv s bctx fs (l @ 10 # unlines ls)" and l: "log_line l"
    and none: "binlog_record_read_do (b_buff s) = (B_FILE_NODATA, [], 0, b_buff s)" "bb_data (b_buff s) = take (bb_length (b_buff s)) l"
      "bb_length (b_buff s) \<le> length l"
  shows "\<exists>s' fs'. binlog_file_read s bctx fs = Some (B_FILE_OK, s', fs') \<and> rd_inv s' bctx fs' (l @ 10 # unlines ls) \<and>
    length l < bb_length (b_buff s') \<and> same_but_fd (b_fd s) fs fs' \<and> (\<exists>b. s' = s\<lparr>b_buff := b\<rparr>)"
proof -
  let ?b = "b_buff s"
  obtain f d where f: "buff_ok ?b" "b_index s = curr_binlog_file_index bctx" "fs_open fs (b_fd s) = Some f" "of_path f = log_file bctx"
    "fs_files fs (log_file bctx) = Some d" "of_off f \<le> length d" "l @ 10 # unlines ls = bb_data ?b @ drop (of_off f) d"
    using inv by (auto simp: rd_inv_def)
  have nl: "10 \<notin> set (bb_data ?b)" "bb_length ?b < BINLOG_RECORD_SIZE"
    using l none(2,3) set_take_subset [of "bb_length ?b" l] by (auto simp: log_line_def)
  obtain b where b: "compact ?b = Some b" "bb_cur b = 0" "bb_length b = bb_length ?b" "bb_data b = bb_data ?b" "bb_flag b = 0"
    "length (bb_buff b) = BINLOG_BUFFER_SIZE" using compact_ok [OF f(1) nl] by blast
  let ?sp = "BINLOG_BUFFER_SIZE - bb_length b" and ?rest = "drop (of_off f) d"
  let ?bs = "take ?sp ?rest"
  have len: "length (bb_data ?b) = bb_length ?b" by (rule length_bb_data [OF f(1)])
  have sp: "BINLOG_RECORD_SIZE \<le> ?sp" using nl(2) b(3) by (simp add: BINLOG_BUFFER_SIZE_def BINLOG_RECORD_SIZE_def)
  have lr: "length l + 1 \<le> bb_length b + length ?rest" using arg_cong [OF f(7), of length] len b(3) by simp
  have ll: "length l + 1 < BINLOG_RECORD_SIZE" using l by (simp add: log_line_def)
  then have lb: "length l < bb_length b + length ?bs" using lr sp none(3) b(3) by (cases "length ?rest \<le> ?sp") auto
  then have ne: "?bs \<noteq> []" using none(3) b(3) by auto
  have "bb_length b + length ?bs \<le> BINLOG_BUFFER_SIZE" using nl(2) b(3) by (simp add: BINLOG_BUFFER_SIZE_def BINLOG_RECORD_SIZE_def)
  then obtain e where e: "put_bytes (bb_buff b) (bb_length b) ?bs = Some e" "length e = BINLOG_BUFFER_SIZE"
    "take (bb_length b + length ?bs) e = bb_data b @ ?bs"
    using put_bytes_after [of "bb_length b" ?bs "bb_buff b", unfolded b(6)] b(2) by (auto simp: bb_data_def)
  let ?b' = "b\<lparr>bb_buff := e, bb_length := bb_length b + length ?bs\<rparr>" and ?f = "f\<lparr>of_off := of_off f + length ?bs\<rparr>"
  let ?fs = "fs_tick (fs\<lparr>fs_open := (fs_open fs)(b_fd s \<mapsto> ?f)\<rparr>)"
  have dt: "bb_data ?b' = bb_data ?b @ ?bs" using e(3) b(2,4) by (simp add: bb_data_def)
  have pend: "l @ 10 # unlines ls = bb_data ?b' @ drop (of_off ?f) d"
    using f(7) dt by (simp add: add.commute [of "of_off f"] min_def flip: drop_drop)
  have "buff_ok ?b'"
  proof (cases "length ?rest \<le> ?sp")
    case True
    then have "bb_data ?b' = l @ 10 # unlines ls" using pend by simp
    then have "last (bb_data ?b') = 10" using last_unlines [of "l # ls"] by simp
    then show ?thesis using e(2) b(2,3,5) nl(2) by (simp add: buff_ok_def BINLOG_BUFFER_SIZE_def BINLOG_RECORD_SIZE_def)
  next
    case False
    then show ?thesis using e(2) b(2,3,5) nl(2) by (simp add: buff_ok_def BINLOG_BUFFER_SIZE_def BINLOG_RECORD_SIZE_def)
  qed
  moreover have "of_off ?f \<le> length d" using f(6) by simp
  ultimately have "rd_inv (s\<lparr>b_buff := ?b'\<rparr>) bctx ?fs (l @ 10 # unlines ls)"
    unfolding rd_inv_def using f(2,4,5) pend by (intro conjI exI [of _ ?f] exI [of _ d]) simp_all
  moreover have "binlog_file_read s bctx fs = Some (B_FILE_OK, s\<lparr>b_buff := ?b'\<rparr>, ?fs)"
    using fd_read_quiet [OF q f(3), of d ?sp] f(1,4,5) b(1) ne e(1) by (simp add: binlog_file_read_def buff_ok_def)
  ultimately show ?thesis using lb by (intro exI [of _ "s\<lparr>b_buff := ?b'\<rparr>"] exI [of _ ?fs]) (auto simp: same_but_fd_def fs_quiet_def)
qed

text \<open>A reader with a complete record ahead of it delivers the record.\<close>

lemma record_read_line:
  assumes q: "fs_quiet fs" and inv: "rd_inv s bctx fs (unlines (l # ls))" and l: "log_line l"
  shows "\<exists>s' fs'. binlog_record_read s bctx fs = Some (B_FILE_OK, l @ [10], Suc (length l), s', fs') \<and> rd_inv s' bctx fs' (unlines ls) \<and>
    same_but_fd (b_fd s) fs fs' \<and> (\<exists>b. s' = s\<lparr>b_buff := b\<rparr>)"
proof -
  have one: "\<exists>s' fs'. binlog_record_read_do (b_buff t) = (B_FILE_OK, l @ [10], Suc (length l), b_buff s') \<and> rd_inv s' bctx fs1 (unlines ls) \<and>
      (\<exists>b. s' = t\<lparr>b_buff := b\<rparr>)" if t: "rd_inv t bctx fs1 (l @ 10 # unlines ls)" "length l < bb_length (b_buff t)" for t fs1
  proof -
    obtain f d where f: "buff_ok (b_buff t)" "b_index t = curr_binlog_file_index bctx" "fs_open fs1 (b_fd t) = Some f" "of_path f = log_file bctx"
      "fs_files fs1 (log_file bctx) = Some d" "of_off f \<le> length d" "l @ 10 # unlines ls = bb_data (b_buff t) @ drop (of_off f) d"
      using t(1) by (auto simp: rd_inv_def)
    obtain b' where b: "binlog_record_read_do (b_buff t) = (B_FILE_OK, l @ [10], Suc (length l), b')" "buff_ok b'" "bb_data b' @ drop (of_off f) d = unlines ls"
      using read_do_line [OF f(1) l f(7)] t(2) by auto
    then have "rd_inv (t\<lparr>b_buff := b'\<rparr>) bctx fs1 (unlines ls)"
      unfolding rd_inv_def using f(2-6) by (intro conjI exI [of _ f] exI [of _ d]) simp_all
    then show ?thesis using b(1) by (intro exI [of _ "t\<lparr>b_buff := b'\<rparr>"]) auto
  qed
  show ?thesis
  proof (cases "length l < bb_length (b_buff s)")
    case True
    then obtain s' where "binlog_record_read_do (b_buff s) = (B_FILE_OK, l @ [10], Suc (length l), b_buff s')" "rd_inv s' bctx fs (unlines ls)"
      "\<exists>b. s' = s\<lparr>b_buff := b\<rparr>" using one [of s fs] inv by auto
    then show ?thesis by (intro exI [of _ s'] exI [of _ fs]) (auto simp: binlog_record_read_def same_but_fd_def B_FILE_OK_def B_FILE_NODATA_def)
  next
    case False
    have "buff_ok (b_buff s)" "\<exists>ys. l @ 10 # unlines ls = bb_data (b_buff s) @ ys" using inv by (auto simp: rd_inv_def)
    then have n: "binlog_record_read_do (b_buff s) = (B_FILE_NODATA, [], 0, b_buff s)" "bb_data (b_buff s) = take (bb_length (b_buff s)) l"
      using read_do_line [OF _ l, of "b_buff s" "unlines ls"] False by (metis (full_types))+
    obtain s1 fs1 where r: "binlog_file_read s bctx fs = Some (B_FILE_OK, s1, fs1)" "rd_inv s1 bctx fs1 (l @ 10 # unlines ls)"
      "length l < bb_length (b_buff s1)" "same_but_fd (b_fd s) fs fs1" "\<exists>b. s1 = s\<lparr>b_buff := b\<rparr>"
      using file_read_line [OF q inv [unfolded unlines_simps] l n leI [OF False]] by blast
    obtain s' where "binlog_record_read_do (b_buff s1) = (B_FILE_OK, l @ [10], Suc (length l), b_buff s')" "rd_inv s' bctx fs1 (unlines ls)"
      "\<exists>b. s' = s1\<lparr>b_buff := b\<rparr>" using one [OF r(2,3)] by auto
    then show ?thesis using r(1,4,5) n(1)
      by (intro exI [of _ s'] exI [of _ fs1]) (auto simp: binlog_record_read_def B_FILE_OK_def B_FILE_NODATA_def)
  qed
qed

text \<open>A reader that has delivered everything says so and goes on waiting.\<close>

lemma record_read_nodata:
  assumes q: "fs_quiet fs" and inv: "rd_inv s bctx fs []"
  shows "\<exists>s' fs'. binlog_record_read s bctx fs = Some (B_FILE_NODATA, [], 0, s', fs') \<and> rd_inv s' bctx fs' [] \<and> same_but_fd (b_fd s) fs fs' \<and>
    (\<exists>b. s' = s\<lparr>b_buff := b\<rparr>)"
proof -
  let ?b = "b_buff s"
  obtain f d where f: "buff_ok ?b" "b_index s = curr_binlog_file_index bctx" "fs_open fs (b_fd s) = Some f" "of_path f = log_file bctx"
    "fs_files fs (log_file bctx) = Some d" "of_off f \<le> length d" "bb_data ?b = []" "length d \<le> of_off f"
    using inv by (auto simp: rd_inv_def)
  have l: "bb_length ?b = 0" using length_bb_data [OF f(1)] f(7) by simp
  then obtain b where b: "compact ?b = Some b" "bb_length b = 0" "buff_ok b" "bb_data b = []"
    using f(1,7) by (cases "bb_cur ?b = 0") (auto simp: compact_def buff_ok_def bb_data_def)
  let ?fs = "fs_tick (fs\<lparr>fs_open := (fs_open fs)(b_fd s \<mapsto> f\<lparr>of_off := of_off f\<rparr>)\<rparr>)"
  have "binlog_file_read s bctx fs = Some (B_FILE_NODATA, s\<lparr>b_buff := b\<rparr>, ?fs)"
    using fd_read_quiet [OF q f(3), of d BINLOG_BUFFER_SIZE] f(1,2,4,5,8) b(1,2) by (simp add: binlog_file_read_def buff_ok_def)
  then have "binlog_record_read s bctx fs = Some (B_FILE_NODATA, [], 0, s\<lparr>b_buff := b\<rparr>, ?fs)"
    using l by (simp add: binlog_record_read_def binlog_record_read_do_def B_FILE_NODATA_def B_FILE_OK_def)
  moreover have "rd_inv (s\<lparr>b_buff := b\<rparr>) bctx ?fs []"
    unfolding rd_inv_def using f(2,4,5,6,8) b(3,4) by (intro conjI exI [of _ f] exI [of _ d]) simp_all
  ultimately show ?thesis
    by (intro exI [of _ "s\<lparr>b_buff := b\<rparr>"] exI [of _ ?fs]) (auto simp: same_but_fd_def fs_quiet_def)
qed

lemma read_loop_direct:
  assumes "binlog_record_read s bctx fs = Some (st, rec, n, s', fs')" and "st \<noteq> B_FILE_END"
  shows "binlog_read_loop base s bctx fs = Some (st, rec, n, s', bctx, fs')"
  using assms by (subst binlog_read_loop.simps) simp

subsection \<open>The writer beside a reader\<close>

definition wr_inv :: "sync_ctx \<Rightarrow> binlog_ctx \<Rightarrow> fsys \<Rightarrow> byte list \<Rightarrow> bool" where
  "wr_inv s bctx fs cache \<longleftrightarrow> binlog_wcache bctx = Some cache \<and> length cache + 256 \<le> BINLOG_CACHE_BUFFER_SIZE \<and> binlog_fd bctx \<noteq> b_fd s \<and>
     fs_files fs (log_file bctx) \<noteq> None \<and>
     (\<exists>f. fs_open fs (binlog_fd bctx) = Some f \<and> of_path f = log_file bctx \<and> of_append f)"

lemma fd_write_append:
  assumes "fs_quiet fs" and "fs_open fs fd = Some f" and "of_append f" and "fs_files fs (of_path f) = Some d"
  shows "\<exists>f'. fd_write fd bs fs = (int (length bs),
    fs_tick (fs\<lparr>fs_files := (fs_files fs)(of_path f \<mapsto> d @ bs), fs_open := (fs_open fs)(fd \<mapsto> f')\<rparr>)) \<and> of_path f' = of_path f \<and> of_append f'"
  using assms by (intro exI [of _ "f\<lparr>of_off := length d + length bs\<rparr>"]) (simp add: fd_write_def put_data_def Let_def write_at_end)

text \<open>A flush that does not start a new file hands the cached lines over to the reader.\<close>

lemma flush_ok:
  assumes q: "fs_quiet fs" and rd: "rd_inv s bctx fs pend" and wr: "binlog_wcache bctx = Some cache" "binlog_fd bctx \<noteq> b_fd s"
      "fs_open fs (binlog_fd bctx) = Some f" "of_path f = log_file bctx" "of_append f"
    and fl: "binlog_flush now bctx fs = (ret, bctx', fs')" and ix: "curr_binlog_file_index bctx' = curr_binlog_file_index bctx"
  shows "rd_inv s bctx' fs' (pend @ cache)" "wr_inv s bctx' fs' []" "fs_quiet fs'" "log_file bctx' = log_file bctx" "ret = LFS_OK"
proof -
  obtain g d where g: "buff_ok (b_buff s)" "b_index s = curr_binlog_file_index bctx" "fs_open fs (b_fd s) = Some g" "of_path g = log_file bctx"
    "fs_files fs (log_file bctx) = Some d" "of_off g \<le> length d" "pend = bb_data (b_buff s) @ drop (of_off g) d"
    using rd by (auto simp: rd_inv_def)
  have "rd_inv s bctx' fs' (pend @ cache) \<and> wr_inv s bctx' fs' [] \<and> fs_quiet fs' \<and> log_file bctx' = log_file bctx \<and> ret = LFS_OK"
  proof (cases "cache = []")
    case True
    then have "ret = LFS_OK" "bctx' = bctx" "fs' = fs" using fl wr(1) by (simp_all add: binlog_flush_def)
    then show ?thesis using rd q wr True g(5) by (auto simp: wr_inv_def BINLOG_CACHE_BUFFER_SIZE_def)
  next
    case False
    obtain f' where w: "fd_write (binlog_fd bctx) cache fs = (int (length cache),
        fs_tick (fs\<lparr>fs_files := (fs_files fs)(log_file bctx \<mapsto> d @ cache), fs_open := (fs_open fs)(binlog_fd bctx \<mapsto> f')\<rparr>))"
      "of_path f' = log_file bctx" "of_append f'" using fd_write_append [OF q wr(3,5)] wr(4) g(5) by auto
    let ?fs = "fs_tick (fs_tick (fs\<lparr>fs_files := (fs_files fs)(log_file bctx \<mapsto> d @ cache), fs_open := (fs_open fs)(binlog_fd bctx \<mapsto> f')\<rparr>))"
    let ?b = "bctx\<lparr>binlog_file_size := binlog_file_size bctx + int (length cache), binlog_file_update_timestamp := now\<rparr>"
    have q1: "fs_quiet (fs_tick (fs\<lparr>fs_files := (fs_files fs)(log_file bctx \<mapsto> d @ cache), fs_open := (fs_open fs)(binlog_fd bctx \<mapsto> f')\<rparr>))"
      using q by (simp add: fs_quiet_def)
    have y: "fd_sync (binlog_fd bctx) (fs_tick (fs\<lparr>fs_files := (fs_files fs)(log_file bctx \<mapsto> d @ cache), fs_open := (fs_open fs)(binlog_fd bctx \<mapsto> f')\<rparr>)) = (0, ?fs)"
      using q1 by (simp add: fd_sync_def)
    have rot: "curr_binlog_file_index (fst (snd (binlog_rotate ?b ?fs))) = curr_binlog_file_index bctx + 1"
      using q1 by (simp add: binlog_rotate_def write_curr_binlog_file_index_def open_trunc_def new_fd_def fd_write_def
          open_new_binlog_file_def split_beta Let_def fs_fail_def fs_quiet_def put_data_def sys_close_def)
    have nr: "\<not> BINLOG_MAX_FILE_SIZE \<le> binlog_file_size bctx + int (length cache)"
    proof
      assume "BINLOG_MAX_FILE_SIZE \<le> binlog_file_size bctx + int (length cache)"
      then have "curr_binlog_file_index bctx' = curr_binlog_file_index (fst (snd (binlog_rotate ?b ?fs)))"
        using fl wr(1) False w(1) y by (auto simp: binlog_flush_def split_beta Let_def)
      then show False using rot ix by simp
    qed
    then have r: "ret = LFS_OK" "bctx' = ?b\<lparr>binlog_wcache := Some []\<rparr>" "fs' = ?fs" using fl wr(1) False w(1) y by (simp_all add: binlog_flush_def)
    have lf: "log_file bctx' = log_file bctx" by (simp add: r(2) log_file_def)
    have "rd_inv s bctx' fs' (pend @ cache)" unfolding rd_inv_def lf
      using g wr(2) by (intro conjI exI [of _ g] exI [of _ "d @ cache"]) (simp_all add: r)
    moreover have "wr_inv s bctx' fs' []" unfolding wr_inv_def lf using w(2,3) wr(2) by (simp add: r BINLOG_CACHE_BUFFER_SIZE_def)
    ultimately show ?thesis using q1 lf r by simp
  qed
  then show "rd_inv s bctx' fs' (pend @ cache)" "wr_inv s bctx' fs' []" "fs_quiet fs'" "log_file bctx' = log_file bctx" "ret = LFS_OK" by simp_all
qed

lemma wr_invD:
  assumes "wr_inv s bctx fs cache"
  obtains f where "binlog_wcache bctx = Some cache" "length cache + 256 \<le> BINLOG_CACHE_BUFFER_SIZE" "binlog_fd bctx \<noteq> b_fd s"
    "fs_open fs (binlog_fd bctx) = Some f" "of_path f = log_file bctx" "of_append f"
  using assms by (auto simp: wr_inv_def)

text \<open>A line of the log always fits into the cache.\<close>

lemma write_defined:
  assumes "wr_inv s bctx fs cache" and "log_line l"
  shows "binlog_write now (l @ [10]) bctx fs \<noteq> None"
  using assms by (auto simp: wr_inv_def log_line_def binlog_write_def BINLOG_RECORD_SIZE_def split_beta Let_def)

lemma write_ok:
  assumes q: "fs_quiet fs" and rd: "rd_inv s bctx fs pend" and wr: "wr_inv s bctx fs cache" and l: "log_line l"
    and w: "binlog_write now (l @ [10]) bctx fs = Some (ret, bctx', fs')" and ix: "curr_binlog_file_index bctx' = curr_binlog_file_index bctx"
  shows "fs_quiet fs'" "\<exists>pend' cache'. pend' @ cache' = pend @ cache @ l @ [10] \<and> rd_inv s bctx' fs' pend' \<and> wr_inv s bctx' fs' cache' \<and>
    (pend' = pend \<and> cache' = cache @ l @ [10] \<or> pend' = pend @ cache @ l @ [10] \<and> cache' = [])"
proof -
  obtain f where f: "binlog_wcache bctx = Some cache" "length cache + 256 \<le> BINLOG_CACHE_BUFFER_SIZE" "binlog_fd bctx \<noteq> b_fd s"
    "fs_open fs (binlog_fd bctx) = Some f" "of_path f = log_file bctx" "of_append f" using wr by (rule wr_invD)
  let ?b = "bctx\<lparr>binlog_wcache := Some (cache @ l @ [10])\<rparr>"
  have lf: "log_file ?b = log_file bctx" by (simp add: log_file_def)
  have rd': "rd_inv s ?b fs pend" using rd by (simp add: rd_inv_def lf)
  have "fs_quiet fs' \<and> (\<exists>pend' cache'. pend' @ cache' = pend @ cache @ l @ [10] \<and> rd_inv s bctx' fs' pend' \<and> wr_inv s bctx' fs' cache' \<and>
    (pend' = pend \<and> cache' = cache @ l @ [10] \<or> pend' = pend @ cache @ l @ [10] \<and> cache' = []))"
  proof (cases "int BINLOG_CACHE_BUFFER_SIZE - int (length (cache @ l @ [10])) < 256")
    case True
    then have fl: "\<exists>r. binlog_flush now ?b fs = (r, bctx', fs')" using w f(1)
      by (auto simp: binlog_write_def split_beta prod_eq_iff split: if_splits)
    then obtain r where fl: "binlog_flush now ?b fs = (r, bctx', fs')" by blast
    have "binlog_wcache ?b = Some (cache @ l @ [10])" "binlog_fd ?b \<noteq> b_fd s" "fs_open fs (binlog_fd ?b) = Some f" "of_path f = log_file ?b"
      "curr_binlog_file_index bctx' = curr_binlog_file_index ?b" using f ix lf by simp_all
    note o = flush_ok [OF q rd' this(1-4) f(6) fl this(5)]
    then show ?thesis by (intro conjI exI [of _ "pend @ cache @ l @ [10]"] exI [of _ "[]"]) simp_all
  next
    case False
    then have e: "bctx' = ?b" "fs' = fs" using w f(1) by (auto simp: binlog_write_def split: if_splits)
    have "wr_inv s ?b fs (cache @ l @ [10])" unfolding wr_inv_def lf using wr False by (auto simp: wr_inv_def)
    then show ?thesis using q rd' e by auto
  qed
  then show "fs_quiet fs'" "\<exists>pend' cache'. pend' @ cache' = pend @ cache @ l @ [10] \<and> rd_inv s bctx' fs' pend' \<and> wr_inv s bctx' fs' cache' \<and>
    (pend' = pend \<and> cache' = cache @ l @ [10] \<or> pend' = pend @ cache @ l @ [10] \<and> cache' = [])" by simp_all
qed

subsection \<open>Runs within one file\<close>

text \<open>Writes, flushes and reads in any order, as long as the log stays in one file; \<open>ws\<close> are the lines
  written and \<open>ds\<close> the records delivered so far.\<close>

inductive log_run ::
  "cstr \<Rightarrow> sync_ctx \<times> binlog_ctx \<times> fsys \<Rightarrow> sync_ctx \<times> binlog_ctx \<times> fsys \<Rightarrow> byte list list \<Rightarrow> byte list list \<Rightarrow> bool"
  for base :: cstr and x :: "sync_ctx \<times> binlog_ctx \<times> fsys" where
  start: "log_run base x x [] []"
| wrote: "log_run base x (s, b, fs) ws ds \<Longrightarrow> log_line l \<Longrightarrow> binlog_write now (l @ [10]) b fs = Some (r, b', fs') \<Longrightarrow>
    curr_binlog_file_index b' = curr_binlog_file_index b \<Longrightarrow> log_run base x (s, b', fs') (ws @ [l]) ds"
| flushed: "log_run base x (s, b, fs) ws ds \<Longrightarrow> binlog_flush now b fs = (r, b', fs') \<Longrightarrow>
    curr_binlog_file_index b' = curr_binlog_file_index b \<Longrightarrow> log_run base x (s, b', fs') ws ds"
| delivered: "log_run base x (s, b, fs) ws ds \<Longrightarrow> binlog_read_loop base s b fs = Some (B_FILE_OK, rec, n, s', b', fs') \<Longrightarrow>
    log_run base x (s', b', fs') ws (ds @ [rec])"
| idle: "log_run base x (s, b, fs) ws ds \<Longrightarrow> binlog_read_loop base s b fs = Some (B_FILE_NODATA, rec, n, s', b', fs') \<Longrightarrow>
    log_run base x (s', b', fs') ws ds"

text \<open>What has been written is what was delivered, what the reader has ahead of it and what is cached.\<close>

definition log_state :: "byte list list \<Rightarrow> byte list list \<Rightarrow> byte list list \<Rightarrow> byte list list \<Rightarrow> byte list list \<Rightarrow> sync_ctx \<times> binlog_ctx \<times> fsys \<Rightarrow> bool" where
  "log_state all ds dl pl cl x \<longleftrightarrow> (case x of (s, b, fs) \<Rightarrow> all = dl @ pl @ cl \<and> ds = map (\<lambda>l. l @ [10]) dl \<and> (\<forall>l \<in> set all. log_line l) \<and>
     rd_inv s b fs (unlines pl) \<and> wr_inv s b fs (unlines cl) \<and> fs_quiet fs)"

lemma wr_inv_same:
  assumes "wr_inv s b fs cache" and "same_but_fd (b_fd s) fs fs'" and "b_fd s' = b_fd s"
  shows "wr_inv s' b fs' cache"
  using assms by (simp add: wr_inv_def same_but_fd_def)

lemma read_loop_next:
  assumes "log_state all ds dl pl cl (s, b, fs)"
  shows "if pl = [] then \<exists>s' fs'. binlog_read_loop base s b fs = Some (B_FILE_NODATA, [], 0, s', b, fs') \<and> log_state all ds dl [] cl (s', b, fs')
    else \<exists>s' fs'. binlog_read_loop base s b fs = Some (B_FILE_OK, hd pl @ [10], Suc (length (hd pl)), s', b, fs') \<and>
      log_state all (ds @ [hd pl @ [10]]) (dl @ [hd pl]) (tl pl) cl (s', b, fs')"
proof -
  have a: "all = dl @ pl @ cl" "ds = map (\<lambda>l. l @ [10]) dl" "\<forall>l \<in> set all. log_line l" "rd_inv s b fs (unlines pl)" "wr_inv s b fs (unlines cl)" "fs_quiet fs"
    using assms by (simp_all add: log_state_def)
  show ?thesis
  proof (cases pl)
    case Nil
    then obtain s' fs' where r: "binlog_record_read s b fs = Some (B_FILE_NODATA, [], 0, s', fs')" "rd_inv s' b fs' []" "same_but_fd (b_fd s) fs fs'" "b_fd s' = b_fd s"
      using record_read_nodata [OF a(6), of s b] a(4) by auto
    then show ?thesis using read_loop_direct [OF r(1)] wr_inv_same [OF a(5) r(3,4)] a Nil
      by (auto simp: log_state_def same_but_fd_def B_FILE_NODATA_def B_FILE_END_def)
  next
    case (Cons l ls)
    have l: "log_line l" using a(1,3) Cons by simp
    obtain s' fs' where r: "binlog_record_read s b fs = Some (B_FILE_OK, l @ [10], Suc (length l), s', fs')" "rd_inv s' b fs' (unlines ls)"
      "same_but_fd (b_fd s) fs fs'" "b_fd s' = b_fd s"
      using record_read_line [OF a(6) a(4) [unfolded Cons] l] by auto
    then show ?thesis using read_loop_direct [OF r(1), of base] wr_inv_same [OF a(5) r(3,4)] a Cons
      by (auto simp: log_state_def same_but_fd_def B_FILE_OK_def B_FILE_END_def)
  qed
qed

lemma log_run_state:
  assumes "log_run base x y ws ds" and "log_state old [] [] old [] x"
  shows "\<exists>dl pl cl. log_state (old @ ws) ds dl pl cl y"
  using assms(1)
proof (induction rule: log_run.induct)
  case start
  then show ?case using assms(2) by auto
next
  case (wrote s b fs ws ds l now r b' fs')
  then obtain dl pl cl where i: "log_state (old @ ws) ds dl pl cl (s, b, fs)" by blast
  then have a: "rd_inv s b fs (unlines pl)" "wr_inv s b fs (unlines cl)" "fs_quiet fs" by (simp_all add: log_state_def)
  note w = write_ok [OF a(3,1,2) wrote.hyps(2,3,4)]
  then consider "rd_inv s b' fs' (unlines pl)" "wr_inv s b' fs' (unlines (cl @ [l]))" | "rd_inv s b' fs' (unlines (pl @ cl @ [l]))" "wr_inv s b' fs' (unlines [])"
    by auto
  then show ?case
  proof cases
    case 1
    then have "log_state (old @ ws @ [l]) ds dl pl (cl @ [l]) (s, b', fs')" using i w(1) wrote.hyps(2) by (simp add: log_state_def)
    then show ?thesis by auto
  next
    case 2
    then have "log_state (old @ ws @ [l]) ds dl (pl @ cl @ [l]) [] (s, b', fs')" using i w(1) wrote.hyps(2) by (simp add: log_state_def)
    then show ?thesis by auto
  qed
next
  case (flushed s b fs ws ds now r b' fs')
  then obtain dl pl cl where i: "log_state (old @ ws) ds dl pl cl (s, b, fs)" by blast
  then have a: "rd_inv s b fs (unlines pl)" "wr_inv s b fs (unlines cl)" "fs_quiet fs" by (simp_all add: log_state_def)
  obtain f where f: "binlog_wcache b = Some (unlines cl)" "binlog_fd b \<noteq> b_fd s"
    "fs_open fs (binlog_fd b) = Some f" "of_path f = log_file b" "of_append f" using a(2) by (rule wr_invD)
  note o = flush_ok [OF a(3,1) f flushed.hyps(2,3)]
  then have "log_state (old @ ws) ds dl (pl @ cl) [] (s, b', fs')" using i by (simp add: log_state_def del: set_append)
  then show ?case by blast
next
  case (delivered s b fs ws ds rec n s' b' fs')
  then obtain dl pl cl where i: "log_state (old @ ws) ds dl pl cl (s, b, fs)" by blast
  then show ?case using read_loop_next [OF i, of base] delivered.hyps(2) by (auto simp: B_FILE_OK_def B_FILE_NODATA_def split: if_splits)
next
  case (idle s b fs ws ds rec n s' b' fs')
  then obtain dl pl cl where i: "log_state (old @ ws) ds dl pl cl (s, b, fs)" by blast
  then show ?case using read_loop_next [OF i, of base] idle.hyps(2) by (auto simp: B_FILE_OK_def B_FILE_NODATA_def split: if_splits)
qed

subsection \<open>Where a reader starts\<close>

definition log_record :: "byte list \<Rightarrow> bool" where
  "log_record l \<longleftrightarrow> log_line l \<and> int (length (splitStr (l @ [10]) SPLITSYMBOL BINLOG_RECORD_COLUMN)) = BINLOG_RECORD_COLUMN"

definition seq_of :: "byte list \<Rightarrow> int" where
  "seq_of l = atol (splitStr (l @ [10]) SPLITSYMBOL BINLOG_RECORD_COLUMN ! 0)"

lemma cstr_of_line: "log_line l \<Longrightarrow> cstr_of (l @ [10]) = l @ [10]"
  by (rule cstr_of_is_cstr) (simp add: log_line_def is_cstr_def)

lemma locate_lines:
  "\<forall>l \<in> set ls. log_record l \<Longrightarrow>
   locate_loop known off (map (\<lambda>l. l @ [10]) ls) = Some (off + int (length (unlines (takeWhile (\<lambda>l. seq_of l \<le> known) ls))))"
proof (induction ls arbitrary: off)
  case (Cons l ls)
  then have l: "log_line l" "int (length (splitStr (l @ [10]) SPLITSYMBOL BINLOG_RECORD_COLUMN)) = BINLOG_RECORD_COLUMN"
    by (simp_all add: log_record_def)
  show ?case using Cons l by (simp add: cstr_of_line [OF l(1)] seq_of_def)
qed simp

lemma write_new_file:
  assumes "fs_quiet fs"
  obtains fs1 fs2 where "open_trunc p fs = (fs_next fs, fs1)" "fd_write (fs_next fs) bs fs1 = (int (length bs), fs2)"
    "fs_files fs2 = (fs_files fs)(p \<mapsto> bs)" "fs_next fs2 = fs_next fs + 1" "fs_quiet fs2" "\<forall>x. x \<noteq> fs_next fs \<longrightarrow> fs_open fs2 x = fs_open fs x"
    "fs_dirs fs2 = fs_dirs fs"
proof -
  let ?fs1 = "snd (open_trunc p fs)"
  have o: "open_trunc p fs = (fs_next fs, ?fs1)" "fs_open ?fs1 = (fs_open fs)(fs_next fs \<mapsto> \<lparr>of_path = p, of_off = 0, of_append = False\<rparr>)"
    "fs_files ?fs1 = (fs_files fs)(p \<mapsto> [])" "fs_next ?fs1 = fs_next fs + 1" "fs_quiet ?fs1" "fs_dirs ?fs1 = fs_dirs fs"
    using assms by (simp_all add: open_trunc_def new_fd_def fs_quiet_def fs_fail_def)
  show thesis
    by (rule that [of ?fs1 "snd (fd_write (fs_next fs) bs ?fs1)"])
      (use o in \<open>simp_all add: fd_write_def put_data_def write_at_0 fs_quiet_def fs_fail_def\<close>)
qed

lemma open_setting_ok:
  assumes q: "fs_quiet fs" and s: "b_fd s < 0" "b_offset s = int k" "b_index s = curr_binlog_file_index bctx"
    and d: "fs_files fs (log_file bctx) = Some d"
  shows "\<exists>fs'. open_setting_binlog s bctx fs = (LFS_OK, s\<lparr>b_fd := fs_next fs\<rparr>, fs') \<and> fs_files fs' = fs_files fs \<and> fs_quiet fs' \<and>
    fs_open fs' = (fs_open fs)(fs_next fs \<mapsto> \<lparr>of_path = log_file bctx, of_off = k, of_append = False\<rparr>)"
  using assms by (cases "k = 0") (auto simp: open_setting_binlog_def open_read_def new_fd_def fd_seek_set_def fs_quiet_def fs_fail_def
      log_file_def split_beta Let_def)

text \<open>A reader that starts without a mark file has exactly the records ahead of it that the other server
  does not have.\<close>

lemma asyncctx_start:
  assumes q: "fs_quiet fs" "fs_ok fs" and wr: "binlog_wcache bctx = Some []" "fs_open fs (binlog_fd bctx) = Some f" "of_path f = log_file bctx" "of_append f"
    and log: "fs_files fs (log_file bctx) = Some (unlines old)" "\<forall>l \<in> set old. log_record l"
    and mark: "\<not> fileExists (SYNC_MARK_FILENAME base (f_mark (new_sync_ctx (asc ''to_'' @ ip @ asc '':'' @ fmt_d port)))) fs"
  shows "\<exists>s fs'. asyncctx_init True base ip port known bctx fs = Some (LFS_OK, s, fs') \<and>
    log_state (dropWhile (\<lambda>l. seq_of l \<le> known) old) [] [] (dropWhile (\<lambda>l. seq_of l \<le> known) old) [] (s, bctx, fs')"
proof -
  let ?s0 = "new_sync_ctx (asc ''to_'' @ ip @ asc '':'' @ fmt_d port)" and ?P = "\<lambda>l. seq_of l \<le> known"
  let ?m = "SYNC_MARK_FILENAME base (f_mark ?s0)" and ?k = "length (unlines (takeWhile ?P old))"
  let ?s1 = "?s0\<lparr>b_index := curr_binlog_file_index bctx, b_offset := int ?k\<rparr>" and ?pend = "dropWhile ?P old"
  have lines: "\<forall>l \<in> set old. 10 \<notin> set l \<and> length l + 1 < BINLOG_RECORD_SIZE" using log(2) by (auto simp: log_record_def log_line_def)
  have loc: "binlog_sync_offset_locate bctx known (?s0\<lparr>b_index := curr_binlog_file_index bctx\<rparr>) fs = (LFS_OK, ?s1, fs_tick fs)"
    using log(1) q(1) fgets_all_lines [OF lines] locate_lines [OF log(2), of known 0]
    by (simp add: binlog_sync_offset_locate_def log_file_def unlines_def new_sync_ctx_def)
  have q1: "fs_quiet (fs_tick fs)" using q(1) by simp
  obtain fs1 fs2 where w: "open_trunc ?m (fs_tick fs) = (fs_next fs, fs1)" "fd_write (fs_next fs) (mark_line ?s1) fs1 = (int (length (mark_line ?s1)), fs2)"
    "fs_files fs2 = (fs_files fs)(?m \<mapsto> mark_line ?s1)" "fs_next fs2 = fs_next fs + 1" "fs_quiet fs2" "\<forall>x. x \<noteq> fs_next fs \<longrightarrow> fs_open fs2 x = fs_open fs x"
    by (rule write_new_file [OF q1, of ?m "mark_line ?s1", unfolded fs_tick_simps]) (rule that)
  have ne: "?m \<noteq> log_file bctx" using mark log(1) by (auto simp: fileExists_def)
  have nx: "\<not> fs_next fs < 0" using q(2) by (simp add: fs_ok_def)
  have b: "b_fd ?s1 < 0" "m_fd ?s1 < 0" "f_mark ?s1 = f_mark ?s0" "sync_count ?s1 = 0" "last_sync_count ?s1 = 0" by (simp_all add: new_sync_ctx_def)
  have mw: "sync_mark_file_batdata_write base ?s1 (fs_tick fs) = Some (LFS_OK, ?s1\<lparr>last_sync_count := 0\<rparr>, fs2)"
    using w(1,2) nx b(2-4) by (simp add: sync_mark_file_batdata_write_def)
  let ?s2 = "?s1\<lparr>last_sync_count := 0\<rparr>"
  obtain fs' where o: "open_setting_binlog ?s2 bctx fs2 = (LFS_OK, ?s2\<lparr>b_fd := fs_next fs2\<rparr>, fs')" "fs_files fs' = fs_files fs2" "fs_quiet fs'"
    "fs_open fs' = (fs_open fs2)(fs_next fs2 \<mapsto> \<lparr>of_path = log_file bctx, of_off = ?k, of_append = False\<rparr>)"
    using open_setting_ok [OF w(5), of ?s2 ?k bctx "unlines old"] b(1) w(3) ne log(1) by auto
  let ?s = "?s2\<lparr>b_fd := fs_next fs2\<rparr>"
  have init: "asyncctx_init True base ip port known bctx fs = Some (LFS_OK, ?s, fs')"
    using mark loc mw o(1) by (simp add: asyncctx_init_def Let_def)
  have fd: "binlog_fd bctx < fs_next fs" using wr(2) q(2) by (auto simp: fs_ok_def)
  have "unlines old = unlines (takeWhile ?P old) @ unlines ?pend" by (simp flip: unlines_simps(3))
  then have dr: "drop ?k (unlines old) = unlines ?pend" "?k \<le> length (unlines old)" by (metis append_eq_conv_conj, simp)
  have bo: "buff_ok (b_buff ?s)" "bb_data (b_buff ?s) = []" by (simp_all add: new_sync_ctx_def buff_ok_def bb_data_def)
  have "rd_inv ?s bctx fs' (unlines ?pend)" unfolding rd_inv_def using bo dr o(2,4) w(3) ne log(1)
    by (intro conjI exI [of _ "\<lparr>of_path = log_file bctx, of_off = ?k, of_append = False\<rparr>"] exI [of _ "unlines old"]) simp_all
  moreover have "wr_inv ?s bctx fs' []" unfolding wr_inv_def using wr w(3,4,6) o(2,4) fd ne log(1)
    by (simp add: BINLOG_CACHE_BUFFER_SIZE_def)
  moreover have "\<forall>l \<in> set ?pend. log_line l" using log(2) by (auto simp: log_record_def dest: set_dropWhileD)
  ultimately show ?thesis using init o(3) by (auto simp: log_state_def)
qed

lemma dropWhile_sorted_filter: "sorted (map f xs) \<Longrightarrow> dropWhile (\<lambda>x. f x \<le> (k :: int)) xs = filter (\<lambda>x. k < f x) xs"
  by (induction xs) (auto simp: filter_id_conv intro!: filter_True [symmetric])

subsection \<open>Mark files are read back\<close>

lemma length_dec_of_nat: "n < 10 ^ k \<Longrightarrow> 0 < k \<Longrightarrow> length (dec_of_nat n) \<le> k"
proof (induction n arbitrary: k rule: dec_of_nat.induct)
  case (1 n)
  show ?case
  proof (cases "n < 10")
    case True
    then show ?thesis using 1(3) by (simp add: dec_of_nat.simps [of n])
  next
    case False
    then obtain j where j: "k = Suc j" "0 < j" using 1(2,3) by (cases k; cases "k = 1") auto
    then have "n div 10 < 10 ^ j" using 1(2) by (simp add: less_mult_imp_div_less mult.commute)
    then show ?thesis using 1(1) [OF False _ j(2)] False j(1) by (simp add: dec_of_nat.simps [of n])
  qed
qed

lemma length_fmt_d:
  assumes "in_s64 i"
  shows "length (fmt_d i) \<le> 20"
proof -
  have "nat i < 10 ^ 19" "nat (- i) < 10 ^ 19" using assms by (auto simp: in_s64_def)
  then show ?thesis using length_dec_of_nat [of "nat i" 19] length_dec_of_nat [of "nat (- i)" 19] by (simp add: fmt_d_def)
qed

lemma trim_plain:
  assumes "\<forall>c \<in> set s. \<not> is_trim c"
  shows "trim True s = s" "trim True (s @ [10]) = s"
proof -
  have r: "trim_right s = s" by (rule trim_right_id) (use assms in \<open>cases s rule: rev_cases; auto\<close>)
  have l: "dropWhile is_trim s = s" using assms by (cases s) auto
  show "trim True s = s" by (simp add: trim_def trim_left_True r l)
  have "trim_right (s @ [10]) = s" using trim_right_append_trim [of "[10]" s] r by (simp add: is_trim_def)
  then show "trim True (s @ [10]) = s" by (simp add: trim_def trim_left_True l)
qed

lemma fmt_d_plain: "\<forall>c \<in> set (fmt_d i). \<not> is_trim c" "SPLITSYMBOL \<notin> set (fmt_d i)" "10 \<notin> set (fmt_d i)" "0 \<notin> set (fmt_d i)"
proof -
  have "\<not> is_dec SPLITSYMBOL" "SPLITSYMBOL \<noteq> 45" "\<not> is_dec 10" "(10 :: byte) \<noteq> 45" "\<not> is_dec 0" "(0 :: byte) \<noteq> 45"
    by (simp_all add: is_dec_def SPLITSYMBOL_def)
  then show "SPLITSYMBOL \<notin> set (fmt_d i)" "10 \<notin> set (fmt_d i)" "0 \<notin> set (fmt_d i)" by simp_all
  have "is_trim c \<Longrightarrow> \<not> is_dec c \<and> c \<noteq> 45" for c by (auto simp: is_trim_def is_dec_def)
  then show "\<forall>c \<in> set (fmt_d i). \<not> is_trim c" using set_fmt_d by blast
qed

definition mark_fields :: "sync_ctx \<Rightarrow> cstr list" where
  "mark_fields s = [fmt_d (b_index s), fmt_d (last_timestamp s), fmt_d (b_offset s), fmt_d (sync_count s)]"

definition mark_range :: "sync_ctx \<Rightarrow> bool" where
  "mark_range s \<longleftrightarrow> in_s32 (b_index s) \<and> in_s64 (last_timestamp s) \<and> in_s64 (b_offset s) \<and> in_s64 (sync_count s)"

lemma mark_line_lines:
  assumes "mark_range s"
  shows "fgets_all BINLOG_RECORD_SIZE (mark_line s) = [mark_line s]" "cstr_of (mark_line s) = mark_line s" "mark_line s \<noteq> []"
    "splitStr (mark_line s) SPLITSYMBOL SYNC_BAT_DATAFIELDS = [fmt_d (b_index s), fmt_d (last_timestamp s), fmt_d (b_offset s), fmt_d (sync_count s) @ [10]]"
proof -
  let ?j = "join_cols SPLITSYMBOL (mark_fields s)"
  have l: "length (fmt_d (b_index s)) \<le> 20" "length (fmt_d (last_timestamp s)) \<le> 20" "length (fmt_d (b_offset s)) \<le> 20" "length (fmt_d (sync_count s)) \<le> 20"
    using assms length_fmt_d in_s32_in_s64 by (simp_all add: mark_range_def)
  have n: "10 \<notin> set ?j" "0 \<notin> set ?j" using fmt_d_plain(3,4) by (simp_all add: mark_fields_def SPLITSYMBOL_def)
  have m: "mark_line s = ?j @ [10]" by (simp add: mark_line_def mark_fields_def)
  show "fgets_all BINLOG_RECORD_SIZE (mark_line s) = [mark_line s]"
    using fgets_all_line [OF n(1), of BINLOG_RECORD_SIZE "[]"] l by (simp add: m mark_fields_def BINLOG_RECORD_SIZE_def)
  show "cstr_of (mark_line s) = mark_line s" using n(2) by (intro cstr_of_is_cstr) (simp add: m is_cstr_def)
  show "mark_line s \<noteq> []" by (simp add: m)
  have "mark_line s = join_cols SPLITSYMBOL [fmt_d (b_index s), fmt_d (last_timestamp s), fmt_d (b_offset s), fmt_d (sync_count s) @ [10]]"
    by (simp add: m mark_fields_def)
  then show "splitStr (mark_line s) SPLITSYMBOL SYNC_BAT_DATAFIELDS = [fmt_d (b_index s), fmt_d (last_timestamp s), fmt_d (b_offset s), fmt_d (sync_count s) @ [10]]"
    using fmt_d_plain(2) splitStr_loop_join [of "[fmt_d (b_index s), fmt_d (last_timestamp s), fmt_d (b_offset s), fmt_d (sync_count s) @ [10]]" 3 SPLITSYMBOL]
    by (simp add: splitStr_def SYNC_BAT_DATAFIELDS_def SPLITSYMBOL_def)
qed

subsection \<open>A reader behind the writer\<close>

text \<open>A reader whose descriptor is at the end of its file.\<close>

definition at_end :: "sync_ctx \<Rightarrow> fsys \<Rightarrow> cstr \<Rightarrow> bool" where
  "at_end s fs p \<longleftrightarrow> bb_length (b_buff s) = 0 \<and> bb_flag (b_buff s) = 0 \<and> m_fd s < 0 \<and>
     (\<exists>f d. fs_open fs (b_fd s) = Some f \<and> of_path f = p \<and> fs_files fs p = Some d \<and> of_off f = length d)"

lemma at_end_read:
  assumes "fs_quiet fs" and e: "at_end s fs p"
  shows "\<exists>fs' b. fs_quiet fs' \<and> fs_next fs' = fs_next fs \<and> fs_files fs' = fs_files fs \<and> bb_length b = 0 \<and> bb_flag b = 0 \<and> fs_open fs' = fs_open fs \<and>
    binlog_record_read s bctx fs = (if b_index s = curr_binlog_file_index bctx then Some (B_FILE_NODATA, [], 0, s\<lparr>b_buff := b\<rparr>, fs')
      else Some (B_FILE_END, [], 0, s\<lparr>b_buff := b\<lparr>bb_flag := 1\<rparr>\<rparr>, fs'))"
proof -
  obtain f d where f: "bb_length (b_buff s) = 0" "bb_flag (b_buff s) = 0" "fs_open fs (b_fd s) = Some f" "of_path f = p" "fs_files fs p = Some d" "of_off f = length d"
    using e by (auto simp: at_end_def)
  obtain b where b: "compact (b_buff s) = Some b" "bb_length b = 0" "bb_flag b = 0" using f(1,2) by (cases "bb_cur (b_buff s) = 0") (auto simp: compact_def)
  have v: "f\<lparr>of_off := length d\<rparr> = f" using f(6) by simp
  have r: "fd_read (b_fd s) BINLOG_BUFFER_SIZE fs = (Some [], fs_tick (fs\<lparr>fs_open := (fs_open fs)(b_fd s \<mapsto> f)\<rparr>))"
    using fd_read_quiet [OF assms(1) f(3), of d] f(4-6) v by simp
  have u: "(fs_open fs)(b_fd s \<mapsto> f) = fs_open fs" using f(3) by (simp add: map_upd_triv)
  show ?thesis using assms(1) f(1,2) b r
    by (intro exI [of _ "fs_tick fs"] exI [of _ b])
      (auto simp: binlog_record_read_def binlog_record_read_do_def binlog_file_read_def B_FILE_OK_def B_FILE_NODATA_def B_FILE_END_def u)
qed

lemma open_append_quiet:
  assumes "fs_quiet fs"
  shows "\<exists>fs'. open_append p fs = (fs_next fs, fs') \<and> fs_quiet fs' \<and> fs_next fs' = fs_next fs + 1 \<and>
    (\<forall>x. x \<noteq> fs_next fs \<longrightarrow> fs_open fs' x = fs_open fs x) \<and> (\<forall>y d. fs_files fs y = Some d \<longrightarrow> fs_files fs' y = Some d)"
  using assms by (auto simp: open_append_def new_fd_def fs_quiet_def fs_fail_def)

lemma open_new_quiet:
  assumes "fs_quiet fs"
  shows "\<exists>bctx' fs'. open_new_binlog_file bctx fs = (B_FILE_OK, bctx', fs') \<and> bctx' = bctx\<lparr>binlog_fd := fs_next fs\<rparr> \<and> fs_quiet fs' \<and>
    fs_next fs' = fs_next fs + 1 \<and> (\<forall>x. x \<noteq> fs_next fs \<and> x \<noteq> binlog_fd bctx \<longrightarrow> fs_open fs' x = fs_open fs x) \<and>
    (\<forall>y d. fs_files fs y = Some d \<longrightarrow> fs_files fs' y = Some d)"
proof -
  let ?fs = "if binlog_fd bctx \<ge> 0 then sys_close (binlog_fd bctx) fs else fs"
  have q: "fs_quiet ?fs" "fs_next ?fs = fs_next fs" "fs_files ?fs = fs_files fs" "\<forall>x. x \<noteq> binlog_fd bctx \<longrightarrow> fs_open ?fs x = fs_open fs x"
    using assms by (simp_all add: sys_close_def fs_quiet_def)
  obtain fs' where o: "open_append (BINLOG_FILENAME (binlog_file_name bctx) (curr_binlog_file_index bctx)) ?fs = (fs_next fs, fs')"
    "fs_quiet fs'" "fs_next fs' = fs_next fs + 1" "\<forall>x. x \<noteq> fs_next fs \<longrightarrow> fs_open fs' x = fs_open ?fs x" "\<forall>y d. fs_files fs y = Some d \<longrightarrow> fs_files fs' y = Some d"
    using open_append_quiet [OF q(1), unfolded q(2,3)] by blast
  have "0 \<le> fs_next fs" using assms by (simp add: fs_quiet_def)
  then have "open_new_binlog_file bctx fs = (B_FILE_OK, bctx\<lparr>binlog_fd := fs_next fs\<rparr>, fs')"
    by (simp only: open_new_binlog_file_def Let_def o(1) prod.case) simp
  then show ?thesis using o(2-5) q(4) by auto
qed

subsection \<open>Properties\<close>


text \<open>C21: A reader that has come to the end of a file while the writer has started the next one never gets the
  records of the next file: it raises its file number and opens the file of the writer again, but its
  own descriptor stays at the end of the old file. It reports that there is no data, whatever the next
  file contains.\<close>

theorem reader_stuck_after_rotation:
  assumes q: "fs_quiet fs" "fs_ok fs" and e: "at_end s fs p" and ix: "b_index s + 1 = curr_binlog_file_index bctx"
    and fd: "binlog_fd bctx \<noteq> b_fd s" and p: "p \<noteq> log_file bctx" "p \<noteq> SYNC_MARK_FILENAME base (f_mark s)"
  shows "\<exists>s' b' fs'. binlog_read base mounts s bctx fs = Some (B_FILE_NODATA, zero_record, 0, s', b', fs') \<and> b_index s' = curr_binlog_file_index b' \<and>
    log_file b' = log_file bctx \<and>
    (\<forall>data. \<exists>s'' fs''. binlog_read base mounts s' b' (fs'\<lparr>fs_files := (fs_files fs')(log_file b' \<mapsto> data)\<rparr>) = Some (B_FILE_NODATA, zero_record, 0, s'', b', fs''))"
proof -
  obtain fs1 b1 where r1: "fs_quiet fs1" "fs_next fs1 = fs_next fs" "fs_files fs1 = fs_files fs" "bb_length b1 = 0" "bb_flag b1 = 0" "fs_open fs1 = fs_open fs"
    "binlog_record_read s bctx fs = Some (B_FILE_END, [], 0, s\<lparr>b_buff := b1\<lparr>bb_flag := 1\<rparr>\<rparr>, fs1)"
    using at_end_read [OF q(1) e, of bctx] ix by auto
  obtain f d where f: "m_fd s < 0" "fs_open fs (b_fd s) = Some f" "of_path f = p" "fs_files fs p = Some d" "of_off f = length d"
    using e by (auto simp: at_end_def)
  have nx: "0 \<le> fs_next fs" "b_fd s < fs_next fs" using q(2) f(2) by (auto simp: fs_ok_def)
  let ?s1 = "s\<lparr>b_index := b_index s + 1, b_offset := 0, b_buff := b1\<lparr>bb_flag := 0\<rparr>\<rparr>"
  obtain b2 fs2 where o: "open_new_binlog_file bctx fs1 = (B_FILE_OK, b2, fs2)" "fs_quiet fs2" "fs_open fs2 (b_fd s) = Some f" "fs_files fs2 p = Some d"
    "fs_next fs2 = fs_next fs + 1" "curr_binlog_file_index b2 = curr_binlog_file_index bctx" "log_file b2 = log_file bctx"
    using open_new_quiet [OF r1(1), of bctx] r1(2,3,6) f(2,4) fd nx(2) by (auto simp: log_file_def)
  obtain fs3 fs4 where w: "open_trunc (SYNC_MARK_FILENAME base (f_mark s)) fs2 = (fs_next fs2, fs3)" "fd_write (fs_next fs2) (mark_line ?s1) fs3 = (int (length (mark_line ?s1)), fs4)"
    "fs_files fs4 = (fs_files fs2)(SYNC_MARK_FILENAME base (f_mark s) \<mapsto> mark_line ?s1)" "fs_quiet fs4" "\<forall>x. x \<noteq> fs_next fs2 \<longrightarrow> fs_open fs4 x = fs_open fs2 x"
    by (rule write_new_file [OF o(2), of "SYNC_MARK_FILENAME base (f_mark s)" "mark_line ?s1"]) (rule that)
  let ?s2 = "?s1\<lparr>last_sync_count := sync_count s\<rparr>"
  have "sync_mark_file_batdata_write base ?s1 fs2 = Some (LFS_OK, ?s2, fs4)" using w(1,2) f(1) o(5) nx(1) by (simp add: sync_mark_file_batdata_write_def)
  then have loop: "binlog_read_loop base s bctx fs = binlog_read_loop base ?s2 b2 fs4"
    by (subst binlog_read_loop.simps) (use r1(4,5,7) o(1) ix in \<open>simp add: B_FILE_OK_def B_FILE_END_def\<close>)
  have "b_fd s \<noteq> fs_next fs2" using nx(2) o(5) by simp
  then have e2: "at_end ?s2 fs4 p" using r1(4) f o(3,4) w(3,5) p(2) by (auto simp: at_end_def)
  have more: "\<exists>s' fs'. binlog_read base mounts t b2 g = Some (B_FILE_NODATA, zero_record, 0, s', b2, fs') \<and>
      binlog_read_loop base t b2 g = Some (B_FILE_NODATA, [], 0, s', b2, fs') \<and> at_end s' fs' p \<and> fs_quiet fs' \<and> b_index s' = b_index t \<and> fs_files fs' = fs_files g"
    if t: "fs_quiet g" "at_end t g p" "b_index t = curr_binlog_file_index b2" for t g
  proof -
    obtain h b where h: "fs_quiet h" "fs_files h = fs_files g" "bb_length b = 0" "bb_flag b = 0" "fs_open h = fs_open g"
      "binlog_record_read t b2 g = Some (B_FILE_NODATA, [], 0, t\<lparr>b_buff := b\<rparr>, h)"
      using at_end_read [OF t(1,2), of b2] t(3) by auto
    have "at_end (t\<lparr>b_buff := b\<rparr>) h p" using t(2) h by (auto simp: at_end_def)
    then show ?thesis using read_loop_direct [OF h(6), of base] h(1,2) by (simp add: binlog_read_def B_FILE_NODATA_def B_FILE_END_def B_FILE_OK_def)
  qed
  obtain s3 fs5 where n: "binlog_read base mounts ?s2 b2 fs4 = Some (B_FILE_NODATA, zero_record, 0, s3, b2, fs5)" "at_end s3 fs5 p" "fs_quiet fs5" "b_index s3 = b_index ?s2"
    using more [OF w(4) e2] o(6) ix by auto
  have "\<exists>s'' fs''. binlog_read base mounts s3 b2 (fs5\<lparr>fs_files := (fs_files fs5)(log_file b2 \<mapsto> data)\<rparr>) = Some (B_FILE_NODATA, zero_record, 0, s'', b2, fs'')" for data
  proof -
    have "fs_quiet (fs5\<lparr>fs_files := (fs_files fs5)(log_file b2 \<mapsto> data)\<rparr>)" "at_end s3 (fs5\<lparr>fs_files := (fs_files fs5)(log_file b2 \<mapsto> data)\<rparr>) p"
      using n(2,3) p(1) o(7) by (auto simp: at_end_def fs_quiet_def)
    from more [OF this] show ?thesis using n(4) o(6) ix by auto
  qed
  moreover have "binlog_read base mounts s bctx fs = binlog_read base mounts ?s2 b2 fs4" by (simp add: binlog_read_def loop)
  ultimately show ?thesis using n(1,4) o(6,7) ix by (intro exI [of _ s3] exI [of _ b2] exI [of _ fs5]) simp
qed

text \<open>What a reader notes in its mark file survives a restart: after the mark has been written, a new context
  with the same name loads the file number, the time, the offset and the count that were written.\<close>

theorem mark_file_roundtrip:
  assumes "fs_quiet fs" and "m_fd s < 0" and "mark_range s" and "f_mark s' = f_mark s"
  shows "\<exists>s1 fs1 fs2. sync_mark_file_batdata_write base s fs = Some (LFS_OK, s1, fs1) \<and>
    mark_file_batdata_load base s' fs1 = (LFS_OK, s'\<lparr>b_index := b_index s, last_timestamp := last_timestamp s, b_offset := b_offset s,
      sync_count := sync_count s, last_sync_count := sync_count s\<rparr>, fs2)"
proof -
  let ?m = "SYNC_MARK_FILENAME base (f_mark s)"
  obtain fs1 fs2 where w: "open_trunc ?m fs = (fs_next fs, fs1)" "fd_write (fs_next fs) (mark_line s) fs1 = (int (length (mark_line s)), fs2)"
    "fs_files fs2 = (fs_files fs)(?m \<mapsto> mark_line s)" "fs_quiet fs2"
    by (rule write_new_file [OF assms(1), of ?m "mark_line s"]) (rule that)
  have nx: "\<not> fs_next fs < 0" using assms(1) by (simp add: fs_quiet_def)
  note m = mark_line_lines [OF assms(3)]
  have "mark_load_loop [mark_line s] s' = s'\<lparr>b_index := b_index s, last_timestamp := last_timestamp s, b_offset := b_offset s,
      sync_count := sync_count s, last_sync_count := sync_count s\<rparr>"
    using assms(3) m(2,3,4) fmt_d_plain(1) [THEN trim_plain(1)] fmt_d_plain(1) [THEN trim_plain(2)]
    by (simp add: SYNC_BAT_DATAFIELDS_def mark_range_def atoi_fmt_d atol_fmt_d)
  then show ?thesis using w nx assms(2,4) m(1)
    by (simp add: sync_mark_file_batdata_write_def mark_file_batdata_load_def)
qed

subsection \<open>Witnesses\<close>

definition demo_fs :: fsys where
  "demo_fs = \<lparr>fs_files = [asc ''/b.000'' \<mapsto> unlines [asc ''1|C|x'', asc ''5|C|y'']], fs_dirs = (\<lambda>_. False),
     fs_open = [3 \<mapsto> \<lparr>of_path = asc ''/b.000'', of_off = 0, of_append = True\<rparr>, 4 \<mapsto> \<lparr>of_path = asc ''/b.000'', of_off = 12, of_append = False\<rparr>],
     fs_next = 5, fs_calls = 0, fs_fails = (\<lambda>_. False), fs_part = (\<lambda>_. 0), fs_errno = (\<lambda>_. 5)\<rparr>"

definition demo_log :: binlog_ctx where
  "demo_log = zero_binlog_ctx\<lparr>binlog_fd := 3, binlog_file_name := asc ''/b'', binlog_wcache := Some []\<rparr>"

lemma demo_fs_ok: "fs_quiet demo_fs" "fs_ok demo_fs"
  by (auto simp: fs_quiet_def fs_ok_def demo_fs_def split: if_splits)

lemma demo_log_file: "log_file demo_log = asc ''/b.000''"
  unfolding log_file_def demo_log_def by code_simp


theorem reader_stuck_after_rotation_witness:
  "\<exists>s b' s' fs'. binlog_read [] [] s (demo_log\<lparr>curr_binlog_file_index := 1\<rparr>) demo_fs = Some (B_FILE_NODATA, zero_record, 0, s', b', fs') \<and>
    (\<exists>s'' fs''. binlog_read [] [] s' b' (fs'\<lparr>fs_files := (fs_files fs')(log_file b' \<mapsto> asc ''7|C|z'' @ [10])\<rparr>) = Some (B_FILE_NODATA, zero_record, 0, s'', b', fs''))"
proof -
  let ?s = "(new_sync_ctx [])\<lparr>b_fd := 4\<rparr>" and ?b = "demo_log\<lparr>curr_binlog_file_index := 1\<rparr>"
  have "length (unlines [asc ''1|C|x'', asc ''5|C|y'']) = 12" by code_simp
  then have e: "at_end ?s demo_fs (asc ''/b.000'')" by (simp add: at_end_def demo_fs_def new_sync_ctx_def)
  have ne: "asc ''/b.000'' \<noteq> log_file ?b" unfolding log_file_def demo_log_def by code_simp
  have "snprintf MAX_PATH_SIZE ([] @ asc ''/sync/'' @ snprintf 32 [] @ asc ''.mark'') \<noteq> asc ''/b.000''" by code_simp
  then have m: "asc ''/b.000'' \<noteq> SYNC_MARK_FILENAME [] (f_mark ?s)" by (simp add: SYNC_MARK_FILENAME_def new_sync_ctx_def)
  have "b_index ?s + 1 = curr_binlog_file_index ?b" "binlog_fd ?b \<noteq> b_fd ?s" by (simp_all add: new_sync_ctx_def demo_log_def)
  from reader_stuck_after_rotation [OF demo_fs_ok e this ne m, of "[]"] show ?thesis by blast
qed

theorem mark_file_roundtrip_witness:
  "\<exists>s1 fs1 s2 fs2. sync_mark_file_batdata_write [] ((new_sync_ctx [])\<lparr>b_index := 7, b_offset := 300\<rparr>) demo_fs = Some (LFS_OK, s1, fs1) \<and>
    mark_file_batdata_load [] (new_sync_ctx []) fs1 = (LFS_OK, s2, fs2) \<and> b_index s2 = 7 \<and> b_offset s2 = 300"
proof -
  have "m_fd ((new_sync_ctx [])\<lparr>b_index := 7, b_offset := 300\<rparr>) < 0" "mark_range ((new_sync_ctx [])\<lparr>b_index := 7, b_offset := 300\<rparr>)"
    "f_mark (new_sync_ctx []) = f_mark ((new_sync_ctx [])\<lparr>b_index := 7, b_offset := 300\<rparr>)"
    by (simp_all add: new_sync_ctx_def mark_range_def in_s32_def in_s64_def)
  from mark_file_roundtrip [OF demo_fs_ok(1) this, of "[]"] show ?thesis by force
qed

end
