(* ===== verification/Ds_Block.thy ===== *)
theory Ds_Block
  imports Ds_Binlog
begin

text \<open>
  The blocks of the data server (\<open>src/dataserver/ds_block.c\<close>): the mounted directories that hold the
  files, each with two levels of numbered directories, the choice of a block and of a directory for a
  new file, and the snapshot of the counters. The answers of \<open>statvfs\<close> are an argument: \<open>vfs k p\<close> is the
  answer of call \<open>k\<close> for the path \<open>p\<close>, as the number of blocks, of available blocks and the size of a
  block; so is the comparison of floating point numbers that decides whether a block has too little free
  space (\<open>low free total\<close>). The lock of the blocks makes the section under it one step.
\<close>

subsection \<open>Data\<close>

record block =
  mount_path :: cstr
  pre_path_map :: int
  suf_path_map :: int
  curr_path_map_file_count :: int
  total_size_mb :: int
  free_size_mb :: int

record block_mount =
  mt_blocks :: "block list"
  block_total_size_mb :: int
  block_free_size_mb :: int
  mount_count :: int
  is_flush :: bool
  is_statistics :: bool
  vfs_calls :: nat
  block_opt_count :: int

record block_confs =
  bc_base_path :: cstr
  bc_block_mount :: cstr
  bc_sub_count :: int
  bc_max_file_count :: int

type_synonym vfs = "nat \<Rightarrow> cstr \<Rightarrow> (nat \<times> nat \<times> nat) option"

definition MOUNT_BLOCK_STAT_DATAFIELDS :: int where "MOUNT_BLOCK_STAT_DATAFIELDS = 5"

definition EACCES :: int where "EACCES = 13"

text \<open>\<open>mounts.blocks[i]\<close>.\<close>

definition blk_at :: "block_mount \<Rightarrow> int \<Rightarrow> block option" where
  "blk_at m i = (if 0 \<le> i \<and> i < int (length (mt_blocks m)) then Some (mt_blocks m ! nat i) else None)"

definition set_blk :: "int \<Rightarrow> block \<Rightarrow> block_mount \<Rightarrow> block_mount" where
  "set_blk i b m = m\<lparr>mt_blocks := (mt_blocks m)[nat i := b]\<rparr>"

definition add_s32 :: "int \<Rightarrow> int \<Rightarrow> int option" where
  "add_s32 a b = (if in_s32 (a + b) then Some (a + b) else None)"

subsection \<open>Sizes\<close>

text \<open>A number of blocks in megabytes; the product is unsigned.\<close>

definition to_mb :: "nat \<Rightarrow> nat \<Rightarrow> int" where
  "to_mb n frsize = to_s32 (int (n * frsize mod 2 ^ 64 div (1024 * 1024)))"

definition block_statvfs_cal :: "vfs \<Rightarrow> int \<Rightarrow> block_mount \<Rightarrow> (int \<times> block_mount) option" where
  "block_statvfs_cal vfs i m = do {
     b \<leftarrow> blk_at m i;
     let m = m\<lparr>vfs_calls := Suc (vfs_calls m)\<rparr>;
     case vfs (vfs_calls m - 1) (mount_path b) of
       None \<Rightarrow> Some (EACCES, m)
     | Some (blocks, bavail, frsize) \<Rightarrow>
         Some (LFS_OK, set_blk i (b\<lparr>total_size_mb := to_mb blocks frsize, free_size_mb := to_mb bavail frsize\<rparr>) m)
   }"

definition block_reserve_check :: "vfs \<Rightarrow> (int \<Rightarrow> int \<Rightarrow> bool) \<Rightarrow> int \<Rightarrow> block_mount \<Rightarrow> (int \<times> block_mount) option" where
  "block_reserve_check vfs low i m = do {
     (r, m) \<leftarrow> block_statvfs_cal vfs i m;
     if r = 0 then do {
       b \<leftarrow> blk_at m i;
       Some (if low (free_size_mb b) (total_size_mb b) then -1 else LFS_OK, m)
     }
     else Some (LFS_OK, m)
   }"

text \<open>The loops over the blocks; \<open>is\<close> are the indices that are left.\<close>

primrec statvfs_loop :: "vfs \<Rightarrow> nat list \<Rightarrow> block_mount \<Rightarrow> (int \<times> block_mount) option" where
  "statvfs_loop vfs [] m = Some (LFS_OK, m)"
| "statvfs_loop vfs (i # is) m = do {
     b \<leftarrow> blk_at m (int i);
     let m = set_blk (int i) (b\<lparr>pre_path_map := 0, suf_path_map := 0, curr_path_map_file_count := 0\<rparr>) m;
     (r, m) \<leftarrow> block_statvfs_cal vfs (int i) m;
     if r \<noteq> 0 then Some (EACCES, m)
     else do {
       b \<leftarrow> blk_at m (int i);
       t \<leftarrow> add_s32 (block_total_size_mb m) (total_size_mb b);
       f \<leftarrow> add_s32 (block_free_size_mb m) (free_size_mb b);
       statvfs_loop vfs is (m\<lparr>block_total_size_mb := t, block_free_size_mb := f\<rparr>)
     }
   }"

definition mount_block_statvfs :: "vfs \<Rightarrow> block_mount \<Rightarrow> (int \<times> block_mount) option" where
  "mount_block_statvfs vfs m = statvfs_loop vfs [0 ..< nat (mount_count m)] m"

primrec statistics_loop :: "nat list \<Rightarrow> block_mount \<Rightarrow> block_mount option" where
  "statistics_loop [] m = Some m"
| "statistics_loop (i # is) m = do {
     b \<leftarrow> blk_at m (int i);
     t \<leftarrow> add_s32 (block_total_size_mb m) (total_size_mb b);
     f \<leftarrow> add_s32 (block_free_size_mb m) (free_size_mb b);
     statistics_loop is (m\<lparr>block_total_size_mb := t, block_free_size_mb := f\<rparr>)
   }"

definition block_vfs_statistics :: "block_mount \<Rightarrow> (int \<times> block_mount) option" where
  "block_vfs_statistics m =
     (if is_statistics m then Some (0, m)
      else do {
        m \<leftarrow> statistics_loop [0 ..< nat (mount_count m)] (m\<lparr>is_statistics := True\<rparr>);
        Some (0, m\<lparr>is_statistics := False\<rparr>)
      })"

subsection \<open>The snapshot\<close>

definition stat_file :: "cstr \<Rightarrow> cstr" where
  "stat_file base = snprintf MAX_PATH_SIZE (base @ asc ''/bin/'' @ asc ''block_snapshot.bat'')"

definition stat_line :: "block \<Rightarrow> cstr" where
  "stat_line b = join_cols SPLITSYMBOL [fmt_d (pre_path_map b), fmt_d (suf_path_map b), fmt_d (curr_path_map_file_count b),
     fmt_d (total_size_mb b), fmt_d (free_size_mb b)] @ [10]"

primrec stat_write_loop :: "int \<Rightarrow> nat list \<Rightarrow> block_mount \<Rightarrow> fsys \<Rightarrow> (int \<times> fsys) option" where
  "stat_write_loop fd [] m fs = Some (LFS_OK, sys_close fd fs)"
| "stat_write_loop fd (i # is) m fs = do {
     b \<leftarrow> blk_at m (int i);
     let (n, fs) = fd_write fd (stat_line b) fs;
     if n \<noteq> int (length (stat_line b)) then Some (last_errno fs, sys_close fd fs) else stat_write_loop fd is m fs
   }"

definition mount_block_stat_write :: "cstr \<Rightarrow> block_mount \<Rightarrow> fsys \<Rightarrow> (int \<times> fsys) option" where
  "mount_block_stat_write base m fs =
     (let (fd, fs) = open_trunc (stat_file base) fs in
      if fd < 0 then Some (last_errno fs, fs) else stat_write_loop fd [0 ..< nat (mount_count m)] m fs)"

definition block_stat_flush :: "cstr \<Rightarrow> block_mount \<Rightarrow> fsys \<Rightarrow> (int \<times> block_mount \<times> fsys) option" where
  "block_stat_flush base m fs =
     (if is_flush m then Some (0, m, fs)
      else do { (ret, fs) \<leftarrow> mount_block_stat_write base (m\<lparr>is_flush := True\<rparr>) fs; Some (ret, m\<lparr>is_flush := False\<rparr>, fs) })"

text \<open>The loop of \<open>__mount_block_info_init\<close> over the lines of the snapshot.\<close>

primrec info_loop :: "byte list list \<Rightarrow> int \<Rightarrow> block_mount \<Rightarrow> block_mount option" where
  "info_loop [] i m = Some m"
| "info_loop (l # ls) i m =
     (let sline = cstr_of l; fields = splitStr sline SPLITSYMBOL MOUNT_BLOCK_STAT_DATAFIELDS in
      if sline = [] then info_loop ls i m
      else if int (length fields) \<noteq> MOUNT_BLOCK_STAT_DATAFIELDS then Some m
      else do {
        b \<leftarrow> blk_at m i;
        info_loop ls (i + 1) (set_blk i
          (b\<lparr>pre_path_map := atoi (trim True (fields ! 0)), suf_path_map := atoi (trim True (fields ! 1)),
             curr_path_map_file_count := atoi (trim True (fields ! 2)), total_size_mb := atoi (trim True (fields ! 3)),
             free_size_mb := atoi (trim True (fields ! 4))\<rparr>) m)
      })"

definition mount_block_info_init :: "vfs \<Rightarrow> cstr \<Rightarrow> block_mount \<Rightarrow> fsys \<Rightarrow> (int \<times> block_mount \<times> fsys) option" where
  "mount_block_info_init vfs base m fs =
     (if \<not> fileExists (stat_file base) fs then do { (ret, m) \<leftarrow> mount_block_statvfs vfs m; Some (ret, m, fs) }
      else case fs_files fs (stat_file base) of
             None \<Rightarrow> Some (last_errno (fs_tick fs), m, fs_tick fs)
           | Some d \<Rightarrow>
               if fs_fail fs then Some (last_errno (fs_tick fs), m, fs_tick fs)
               else do { m \<leftarrow> info_loop (fgets_all 256 d) 0 m; Some (LFS_OK, m, fs_tick fs) })"

subsection \<open>Directories\<close>

text \<open>\<open>block_dir_map\<close> changes into the directories that it fills; the model uses full names. \<open>chdir\<close> into a
  directory fails when it does not exist or by the choice of the system.\<close>

definition sub_dir :: "cstr \<Rightarrow> nat \<Rightarrow> cstr" where
  "sub_dir p i = p @ asc ''/'' @ fmt_02X i"

definition sys_chdir :: "cstr \<Rightarrow> fsys \<Rightarrow> int \<times> fsys" where
  "sys_chdir p fs = (if fs_fail fs \<or> \<not> fs_dirs fs p then -1 else 0, fs_tick fs)"

text \<open>\<open>mkdir\<close> on a list of names, where an existing directory is no error; the first element is the error
  number of the first failure.\<close>

primrec ensure_dirs :: "cstr list \<Rightarrow> fsys \<Rightarrow> int option \<times> fsys" where
  "ensure_dirs [] fs = (None, fs)"
| "ensure_dirs (p # ps) fs =
     (let (r, fs') = sys_mkdir p fs in
      if r \<noteq> 0 \<and> \<not> isDir p fs then (Some (last_errno fs'), fs') else ensure_dirs ps fs')"

primrec dir_map_loop :: "cstr \<Rightarrow> int \<Rightarrow> nat list \<Rightarrow> fsys \<Rightarrow> int \<times> fsys" where
  "dir_map_loop dpath sub [] fs = (LFS_OK, fs)"
| "dir_map_loop dpath sub (i # is) fs =
     (let (r, fs) = ensure_dirs [sub_dir dpath i] fs in
      case r of
        Some e \<Rightarrow> (e, fs)
      | None \<Rightarrow>
          let (r, fs) = sys_chdir (sub_dir dpath i) fs in
          if r \<noteq> 0 then (last_errno fs, fs)
          else
            let (r, fs) = ensure_dirs (map (sub_dir (sub_dir dpath i)) [0 ..< nat sub]) fs in
            (case r of
               Some e \<Rightarrow> (e, fs)
             | None \<Rightarrow>
                 let (r, fs) = sys_chdir dpath fs in
                 if r \<noteq> 0 then (last_errno fs, fs) else dir_map_loop dpath sub is fs))"

text \<open>The buffers for the names hold at most seven digits.\<close>

definition block_dir_map :: "int \<Rightarrow> cstr \<Rightarrow> fsys \<Rightarrow> (int \<times> fsys) option" where
  "block_dir_map sub path fs =
     (let dpath = snprintf MAX_PATH_SIZE path;
          (r, fs) = (if isDir dpath fs then (0, fs) else sys_mkdir dpath fs) in
      if r \<noteq> 0 then Some (last_errno fs, fs)
      else
        let (r, fs) = sys_chdir dpath fs in
        if r \<noteq> 0 then Some (last_errno fs, fs)
        else if sub < 1 \<or> sub > 2 ^ 28 then None
        else if fileExists (sub_dir (sub_dir dpath 0) 0) fs \<and>
                fileExists (sub_dir (sub_dir dpath (nat (sub - 1))) (nat (sub - 1))) fs then Some (0, fs)
        else Some (dir_map_loop dpath sub [0 ..< nat sub] fs))"

subsection \<open>Mounting\<close>

text \<open>The loop of \<open>mount_block_map_init\<close> over the names of the mount points; \<open>mem\<close> is the outcome of \<open>malloc\<close> for
  each of them. The result is the error code and the blocks made so far.\<close>

definition new_block :: "cstr \<Rightarrow> block" where
  "new_block p = \<lparr>mount_path = p, pre_path_map = 0, suf_path_map = 0, curr_path_map_file_count = 0, total_size_mb = 0, free_size_mb = 0\<rparr>"

primrec mount_loop :: "(nat \<Rightarrow> bool) \<Rightarrow> int \<Rightarrow> cstr list \<Rightarrow> block list \<Rightarrow> fsys \<Rightarrow> (int \<times> block list \<times> fsys) option" where
  "mount_loop mem sub [] bs fs = Some (LFS_OK, bs, fs)"
| "mount_loop mem sub (item # items) bs fs =
     (let p = chopPath item in
      if \<not> fileExists p fs then Some (last_errno fs, bs, fs)
      else if \<not> isDir p fs then Some (last_errno fs, bs, fs)
      else do {
        (ret, fs) \<leftarrow> block_dir_map sub p fs;
        if ret \<noteq> 0 then Some (ret, bs, fs)
        else if \<not> mem (length bs) then Some (last_errno fs, bs, fs)
        else if length p \<ge> MAX_PATH_SIZE then None
        else mount_loop mem sub items (bs @ [new_block p]) fs
      })"

text \<open>\<open>mem1\<close>, \<open>mem2\<close> are the outcomes of the allocations of the two arrays. On an error the blocks are dropped
  and \<open>mount_count\<close> stays.\<close>

definition mount_block_map_init ::
  "vfs \<Rightarrow> bool \<Rightarrow> bool \<Rightarrow> (nat \<Rightarrow> bool) \<Rightarrow> block_confs \<Rightarrow> block_mount \<Rightarrow> fsys \<Rightarrow> (int \<times> block_mount \<times> fsys) option" where
  "mount_block_map_init vfs mem1 mem2 mem cf m fs =
     (let fpath = snprintf MAX_PATH_SIZE (bc_base_path cf @ asc ''/bin'');
          (r, fs) = (if fileExists fpath fs then (0, fs) else sys_mkdir fpath fs);
          scount = get_split_str_count (bc_block_mount cf) 58;
          items = splitStr (bc_block_mount cf) 58 (int scount);
          none = m\<lparr>mt_blocks := []\<rparr> in
      if r \<noteq> 0 then Some (last_errno fs, m, fs)
      else if \<not> mem1 then Some (last_errno fs, none, fs)
      else if length items \<noteq> scount then Some (last_errno fs, none, fs)
      else if \<not> mem2 then Some (last_errno fs, none\<lparr>mount_count := int scount\<rparr>, fs)
      else do {
        (ret, bs, fs) \<leftarrow> mount_loop mem (bc_sub_count cf) items [] fs;
        if ret \<noteq> 0 then Some (ret, none\<lparr>mount_count := int scount\<rparr>, fs)
        else do {
          (ret, m, fs) \<leftarrow> mount_block_info_init vfs (bc_base_path cf) (m\<lparr>mt_blocks := bs, mount_count := int scount\<rparr>) fs;
          if ret \<noteq> 0 then Some (ret, m\<lparr>mt_blocks := []\<rparr>, fs) else Some (LFS_OK, m, fs)
        }
      })"

definition mount_block_map_destroy :: "block_mount \<Rightarrow> block_mount" where
  "mount_block_map_destroy m = m\<lparr>mt_blocks := []\<rparr>"

subsection \<open>Choosing a place for a new file\<close>

text \<open>The loop of \<open>__conn_mount_polling\<close> over the other blocks: the index where it stops.\<close>

primrec other_block :: "vfs \<Rightarrow> (int \<Rightarrow> int \<Rightarrow> bool) \<Rightarrow> int \<Rightarrow> nat list \<Rightarrow> block_mount \<Rightarrow> (nat option \<times> block_mount) option" where
  "other_block vfs low mnt [] m = Some (None, m)"
| "other_block vfs low mnt (i # is) m =
     (if int i = mnt then other_block vfs low mnt is m
      else do {
        (r, m) \<leftarrow> block_reserve_check vfs low (int i) m;
        if r = 0 then Some (Some i, m) else other_block vfs low mnt is m
      })"

text \<open>\<open>__conn_mount_polling\<close>: the result, the index stored in the file context (\<open>ix\<close> before) and the blocks.
  When the loop stops at the last block the result is an error although the block was found; when no
  block is found the result is success.\<close>

definition conn_mount_polling :: "vfs \<Rightarrow> (int \<Rightarrow> int \<Rightarrow> bool) \<Rightarrow> int \<Rightarrow> int \<Rightarrow> block_mount \<Rightarrow> (int \<times> int \<times> block_mount) option" where
  "conn_mount_polling vfs low sfd ix m =
     (if mount_count m = 0 then None
      else do {
        let mnt = sfd mod mount_count m;
        (r, m) \<leftarrow> block_reserve_check vfs low mnt m;
        if r \<noteq> 0 then do {
          (stop, m) \<leftarrow> other_block vfs low mnt [0 ..< nat (mount_count m)] m;
          let i = (case stop of Some i \<Rightarrow> int i | None \<Rightarrow> mount_count m);
          let ix = (case stop of Some i \<Rightarrow> int i | None \<Rightarrow> ix);
          if i = mount_count m - 1 then Some (LFS_ERROR, ix, m) else Some (LFS_OK, ix, m)
        }
        else Some (LFS_OK, mnt, m)
      })"

text \<open>\<open>__block_map_path_polling\<close> on one block. (The source reads the counter before it takes the lock.)\<close>

definition next_path :: "int \<Rightarrow> int \<Rightarrow> block \<Rightarrow> block" where
  "next_path sub maxf b =
     (let n = curr_path_map_file_count b + 1 in
      if n \<ge> maxf then
        let b = b\<lparr>curr_path_map_file_count := 0, suf_path_map := suf_path_map b + 1\<rparr> in
        if suf_path_map b \<ge> sub then
          let b = b\<lparr>pre_path_map := pre_path_map b + 1\<rparr>;
              b = (if pre_path_map b \<ge> sub then b\<lparr>pre_path_map := 0\<rparr> else b)
          in b\<lparr>suf_path_map := 0\<rparr>
        else b
      else b\<lparr>curr_path_map_file_count := n\<rparr>)"

definition block_map_path_polling :: "block_confs \<Rightarrow> int \<Rightarrow> block_mount \<Rightarrow> (int \<times> int \<times> block_mount) option" where
  "block_map_path_polling cf ix m = do {
     b \<leftarrow> blk_at m ix;
     let opt = (if curr_path_map_file_count b + 1 \<ge> bc_max_file_count cf then 1 else 0);
     let b = next_path (bc_sub_count cf) (bc_max_file_count cf) b;
     Some (pre_path_map b, suf_path_map b, (set_blk ix b m)\<lparr>block_opt_count := block_opt_count m + opt\<rparr>)
   }"

text \<open>\<open>mount_block_map_polling\<close>: the result, the block and the directories of the file, and the blocks.\<close>

definition mount_block_map_polling ::
  "vfs \<Rightarrow> (int \<Rightarrow> int \<Rightarrow> bool) \<Rightarrow> block_confs \<Rightarrow> int \<Rightarrow> int \<times> int \<times> int \<Rightarrow> block_mount \<Rightarrow> (int \<times> (int \<times> int \<times> int) \<times> block_mount) option" where
  "mount_block_map_polling vfs low cf sfd place m =
     (case place of (ix, pre, suf) \<Rightarrow> do {
        (ret, ix, m) \<leftarrow> conn_mount_polling vfs low sfd ix m;
        if ret \<noteq> 0 then Some (ret, (ix, pre, suf), m)
        else do { (pre, suf, m) \<leftarrow> block_map_path_polling cf ix m; Some (LFS_OK, (ix, pre, suf), m) }
      })"

subsection \<open>Directories are filled in turn\<close>

text \<open>The counters of a block are the digits of the number of files placed so far.\<close>

definition path_range :: "int \<Rightarrow> int \<Rightarrow> block \<Rightarrow> bool" where
  "path_range sub maxf b \<longleftrightarrow> 0 \<le> pre_path_map b \<and> pre_path_map b < sub \<and> 0 \<le> suf_path_map b \<and> suf_path_map b < sub \<and>
     0 \<le> curr_path_map_file_count b \<and> curr_path_map_file_count b < maxf"

definition path_pos :: "int \<Rightarrow> int \<Rightarrow> block \<Rightarrow> int" where
  "path_pos sub maxf b = (pre_path_map b * sub + suf_path_map b) * maxf + curr_path_map_file_count b"

lemma next_path_range: "path_range sub maxf b \<Longrightarrow> path_range sub maxf (next_path sub maxf b)"
  by (auto simp: path_range_def next_path_def Let_def)

lemma next_path_same [simp]: "mount_path (next_path sub maxf b) = mount_path b"
  by (simp add: next_path_def Let_def)

lemma digits_bound:
  fixes a b s :: int
  assumes "0 \<le> a" "a < s" "0 \<le> b" "b < t"
  shows "0 \<le> a * t + b" "a * t + b < s * t"
proof -
  show "0 \<le> a * t + b" using assms by simp
  have "a * t + b < (a + 1) * t" using assms(4) by (simp add: algebra_simps)
  also have "\<dots> \<le> s * t" using assms by (intro mult_right_mono) auto
  finally show "a * t + b < s * t" .
qed

lemma path_pos_bound:
  assumes "path_range sub maxf b"
  shows "0 \<le> path_pos sub maxf b" "path_pos sub maxf b < sub * sub * maxf"
proof -
  have "0 \<le> pre_path_map b * sub + suf_path_map b" "pre_path_map b * sub + suf_path_map b < sub * sub"
    using digits_bound [of "pre_path_map b" sub "suf_path_map b" sub] assms by (simp_all add: path_range_def)
  then show "0 \<le> path_pos sub maxf b" "path_pos sub maxf b < sub * sub * maxf"
    using digits_bound [of "pre_path_map b * sub + suf_path_map b" "sub * sub" "curr_path_map_file_count b" maxf] assms
    by (simp_all add: path_range_def path_pos_def)
qed

lemma next_path_pos:
  assumes "path_range sub maxf b"
  shows "path_pos sub maxf (next_path sub maxf b) = (path_pos sub maxf b + 1) mod (sub * sub * maxf)"
proof -
  let ?b = "next_path sub maxf b" and ?N = "sub * sub * maxf"
  have r: "path_range sub maxf ?b" by (rule next_path_range [OF assms])
  have "path_pos sub maxf ?b = path_pos sub maxf b + 1 \<or> path_pos sub maxf ?b = 0 \<and> path_pos sub maxf b + 1 = ?N"
  proof (cases "curr_path_map_file_count b + 1 \<ge> maxf")
    case False
    then show ?thesis by (simp add: path_pos_def next_path_def)
  next
    case True
    then have c: "curr_path_map_file_count b = maxf - 1" using assms by (simp add: path_range_def)
    show ?thesis
    proof (cases "suf_path_map b + 1 \<ge> sub")
      case False
      then show ?thesis using True c by (simp add: path_pos_def next_path_def algebra_simps)
    next
      case suf: True
      then have d: "suf_path_map b = sub - 1" using assms by (simp add: path_range_def)
      have p: "path_pos sub maxf b + 1 = (pre_path_map b + 1) * sub * maxf" unfolding path_pos_def c d by (simp add: algebra_simps)
      show ?thesis
      proof (cases "pre_path_map b + 1 \<ge> sub")
        case False
        then have "path_pos sub maxf ?b = (pre_path_map b + 1) * sub * maxf" using True suf by (simp add: path_pos_def next_path_def)
        then show ?thesis using p by simp
      next
        case pre: True
        then have e: "pre_path_map b + 1 = sub" using assms by (simp add: path_range_def)
        have "path_pos sub maxf ?b = 0" using True suf pre by (simp add: path_pos_def next_path_def)
        then show ?thesis using p e by simp
      qed
    qed
  qed
  then show ?thesis using path_pos_bound [OF r] by auto
qed

subsection \<open>The directories exist\<close>

lemma ensure_dirs_ok:
  "ensure_dirs ps fs = (None, fs') \<Longrightarrow> (\<forall>p \<in> set ps. fs_dirs fs' p) \<and> (\<forall>p. fs_dirs fs p \<longrightarrow> fs_dirs fs' p) \<and> fs_errno fs' = fs_errno fs"
proof (induction ps arbitrary: fs)
  case (Cons p ps)
  obtain r fs1 where m: "sys_mkdir p fs = (r, fs1)" by fastforce
  have "\<not> (r \<noteq> 0 \<and> \<not> isDir p fs)" "ensure_dirs ps fs1 = (None, fs')" using Cons.prems m by (auto split: if_splits)
  moreover have "fs_dirs fs1 p" "\<forall>q. fs_dirs fs q \<longrightarrow> fs_dirs fs1 q" "fs_errno fs1 = fs_errno fs"
    using m calculation(1) by (auto simp: sys_mkdir_def isDir_def fs_tick_def split: if_splits)
  ultimately show ?case using Cons.IH [of fs1] by auto
qed auto

lemma ensure_dirs_errno: "ensure_dirs ps fs = (Some e, fs') \<Longrightarrow> (\<forall>k. fs_errno fs k \<noteq> 0) \<Longrightarrow> e \<noteq> 0"
proof (induction ps arbitrary: fs)
  case (Cons p ps)
  obtain r fs1 where m: "sys_mkdir p fs = (r, fs1)" by fastforce
  have "fs_errno fs1 = fs_errno fs" using m by (auto simp: sys_mkdir_def fs_tick_def split: if_splits)
  then show ?case using Cons m by (auto simp: last_errno_def split: if_splits)
qed simp

lemma dir_map_loop_ok:
  "dir_map_loop dpath sub is fs = (0, fs') \<Longrightarrow> (\<forall>k. fs_errno fs k \<noteq> 0) \<Longrightarrow>
   (\<forall>i \<in> set is. \<forall>j < nat sub. fs_dirs fs' (sub_dir (sub_dir dpath i) j)) \<and> (\<forall>p. fs_dirs fs p \<longrightarrow> fs_dirs fs' p)"
proof (induction "is" arbitrary: fs)
  case (Cons i "is")
  obtain r1 fs1 where a: "ensure_dirs [sub_dir dpath i] fs = (r1, fs1)" by fastforce
  have "r1 = None" using Cons.prems a ensure_dirs_errno [of "[sub_dir dpath i]" fs] by (cases r1) auto
  note a = a [unfolded this] ensure_dirs_ok [OF a [unfolded this]]
  obtain r2 fs2 where b: "sys_chdir (sub_dir dpath i) fs1 = (r2, fs2)" by fastforce
  have b': "fs_dirs fs2 = fs_dirs fs1" "fs_errno fs2 = fs_errno fs1" using b by (auto simp: sys_chdir_def fs_tick_def)
  have r2: "r2 = 0" using Cons.prems a b b' by (auto simp: last_errno_def split: if_splits)
  obtain r3 fs3 where c: "ensure_dirs (map (sub_dir (sub_dir dpath i)) [0 ..< nat sub]) fs2 = (r3, fs3)" by fastforce
  have "r3 = None" using Cons.prems a b r2 c b' ensure_dirs_errno [of "map (sub_dir (sub_dir dpath i)) [0 ..< nat sub]" fs2] by (cases r3) auto
  note c = c [unfolded this] ensure_dirs_ok [OF c [unfolded this]]
  obtain r4 fs4 where d: "sys_chdir dpath fs3 = (r4, fs4)" by fastforce
  have d': "fs_dirs fs4 = fs_dirs fs3" "fs_errno fs4 = fs_errno fs3" using d by (auto simp: sys_chdir_def fs_tick_def)
  have "r4 = 0" using Cons.prems a b r2 c d b' d' by (auto simp: last_errno_def split: if_splits)
  then have "dir_map_loop dpath sub is fs4 = (0, fs')" using Cons.prems(1) a b r2 c d by simp
  from Cons.IH [OF this] show ?case using Cons.prems(2) a(2) c(2) b' d' by auto
qed simp

text \<open>All directories of a block.\<close>

definition dirs_ok :: "int \<Rightarrow> fsys \<Rightarrow> cstr \<Rightarrow> bool" where
  "dirs_ok sub fs p \<longleftrightarrow> (\<forall>i < nat sub. \<forall>j < nat sub. fs_dirs fs (sub_dir (sub_dir p i) j))"

lemma block_dir_map_ok:
  assumes "block_dir_map sub p fs = Some (0, fs')" and "\<forall>k. fs_errno fs k \<noteq> 0" and "length p < MAX_PATH_SIZE"
    and "\<not> fileExists (sub_dir (sub_dir p 0) 0) fs" and "\<not> fs_dirs fs p \<Longrightarrow> sub_dir (sub_dir p 0) 0 \<noteq> p"
  shows "dirs_ok sub fs' p"
proof -
  obtain r1 fs1 where a: "(if isDir p fs then (0, fs) else sys_mkdir p fs) = (r1, fs1)" by fastforce
  have a': "fs_errno fs1 = fs_errno fs" "fs_files fs1 = fs_files fs" "\<forall>q. fs_dirs fs1 q \<longrightarrow> fs_dirs fs q \<or> q = p \<and> \<not> fs_dirs fs p"
    using a by (auto simp: sys_mkdir_def isDir_def fs_tick_def split: if_splits)
  have r1: "r1 = 0" using assms(1,2) a a'(1) by (auto simp: block_dir_map_def snprintf_id [OF assms(3)] last_errno_def split: if_splits)
  obtain r2 fs2 where b: "sys_chdir p fs1 = (r2, fs2)" by fastforce
  have b': "fs_errno fs2 = fs_errno fs1" "fs_files fs2 = fs_files fs1" "fs_dirs fs2 = fs_dirs fs1" using b by (auto simp: sys_chdir_def fs_tick_def)
  have r2: "r2 = 0" using assms(1,2) a a'(1) r1 b b'(1) by (auto simp: block_dir_map_def snprintf_id [OF assms(3)] last_errno_def split: if_splits)
  have "\<not> fileExists (sub_dir (sub_dir p 0) 0) fs2" using assms(4,5) a'(2,3) b'(2,3) by (auto simp: fileExists_def)
  then have "dir_map_loop p sub [0 ..< nat sub] fs2 = (0, fs')"
    using assms(1) a r1 b r2 by (auto simp: block_dir_map_def snprintf_id [OF assms(3)] split: if_splits)
  then show ?thesis using dir_map_loop_ok [of p sub "[0 ..< nat sub]" fs2 fs'] assms(2) a'(1) b'(1) by (auto simp: dirs_ok_def)
qed

subsection \<open>Looking for free space\<close>

text \<open>The checks of the free space change the recorded sizes and nothing else.\<close>

definition blk_core :: "block \<Rightarrow> cstr \<times> int \<times> int \<times> int" where
  "blk_core b = (mount_path b, pre_path_map b, suf_path_map b, curr_path_map_file_count b)"

definition same_cores :: "block_mount \<Rightarrow> block_mount \<Rightarrow> bool" where
  "same_cores m m' \<longleftrightarrow> map blk_core (mt_blocks m') = map blk_core (mt_blocks m) \<and> mount_count m' = mount_count m"

lemma same_cores_refl [simp]: "same_cores m m"
  by (simp add: same_cores_def)

lemma same_cores_trans: "same_cores m m1 \<Longrightarrow> same_cores m1 m2 \<Longrightarrow> same_cores m m2"
  by (simp add: same_cores_def)

lemma same_cores_length: "same_cores m m' \<Longrightarrow> length (mt_blocks m') = length (mt_blocks m)"
  unfolding same_cores_def by (metis length_map)

lemma same_cores_nth: "same_cores m m' \<Longrightarrow> i < length (mt_blocks m) \<Longrightarrow> blk_core (mt_blocks m' ! i) = blk_core (mt_blocks m ! i)"
  using same_cores_length unfolding same_cores_def by (metis nth_map)

lemma blk_at_nat: "i < length (mt_blocks m) \<Longrightarrow> blk_at m (int i) = Some (mt_blocks m ! i)"
  by (simp add: blk_at_def)

lemma statvfs_cal_cores:
  assumes "block_statvfs_cal vfs i m = Some (r, m')"
  shows "same_cores m m'"
proof -
  obtain b where b: "blk_at m i = Some b" using assms by (auto simp: block_statvfs_cal_def bind_eq_Some_conv)
  have i: "nat i < length (mt_blocks m)" "b = mt_blocks m ! nat i" using b by (auto simp: blk_at_def split: if_splits)
  have "map blk_core ((mt_blocks m)[nat i := c]) = map blk_core (mt_blocks m)" if "blk_core c = blk_core b" for c
    using i that by (simp add: map_update) (metis i(2) list_update_id map_update)
  moreover have "blk_core (b\<lparr>total_size_mb := t, free_size_mb := f\<rparr>) = blk_core b" for t f by (simp add: blk_core_def)
  ultimately show ?thesis using assms b
    by (auto simp: block_statvfs_cal_def same_cores_def set_blk_def Let_def split: option.splits)
qed

lemma reserve_check_cores:
  assumes "block_reserve_check vfs low i m = Some (r, m')"
  shows "same_cores m m'"
proof -
  obtain r1 m1 where "block_statvfs_cal vfs i m = Some (r1, m1)" "m' = m1"
    using assms by (auto simp: block_reserve_check_def bind_eq_Some_conv split: if_splits)
  then show ?thesis using statvfs_cal_cores by blast
qed

lemma other_block_cores: "other_block vfs low mnt is m = Some (stop, m') \<Longrightarrow> same_cores m m'"
proof (induction "is" arbitrary: m)
  case (Cons i "is")
  show ?case
  proof (cases "int i = mnt")
    case True
    then show ?thesis using Cons by simp
  next
    case False
    then obtain r m1 where r: "block_reserve_check vfs low (int i) m = Some (r, m1)"
      "(if r = 0 then Some (Some i, m1) else other_block vfs low mnt is m1) = Some (stop, m')"
      using Cons.prems by (auto simp: bind_eq_Some_conv)
    then show ?thesis using reserve_check_cores [OF r(1)] Cons.IH [of m1] same_cores_trans by (auto split: if_splits)
  qed
qed simp

lemma conn_polling_cores:
  assumes "conn_mount_polling vfs low sfd ix m = Some (ret, ix', m')"
  shows "same_cores m m'"
proof -
  let ?mnt = "sfd mod mount_count m"
  obtain r m1 where r: "block_reserve_check vfs low ?mnt m = Some (r, m1)"
    and n: "(if r \<noteq> 0 then do {
        (stop, m) \<leftarrow> other_block vfs low ?mnt [0 ..< nat (mount_count m1)] m1;
        let i = (case stop of Some i \<Rightarrow> int i | None \<Rightarrow> mount_count m);
        let ix = (case stop of Some i \<Rightarrow> int i | None \<Rightarrow> ix);
        if i = mount_count m - 1 then Some (LFS_ERROR, ix, m) else Some (LFS_OK, ix, m)
      } else Some (LFS_OK, ?mnt, m1)) = Some (ret, ix', m')"
    using assms by (auto simp: conn_mount_polling_def Let_def bind_eq_Some_conv split: if_splits)
  show ?thesis
  proof (cases "r = 0")
    case True
    then show ?thesis using n reserve_check_cores [OF r] by simp
  next
    case False
    then obtain stop where "other_block vfs low ?mnt [0 ..< nat (mount_count m1)] m1 = Some (stop, m')"
      using n by (auto simp: bind_eq_Some_conv Let_def split: if_splits)
    then show ?thesis using other_block_cores same_cores_trans [OF reserve_check_cores [OF r]] by blast
  qed
qed

text \<open>With answers that do not change, a check depends on the mount path only.\<close>

definition is_low :: "(cstr \<Rightarrow> (nat \<times> nat \<times> nat) option) \<Rightarrow> (int \<Rightarrow> int \<Rightarrow> bool) \<Rightarrow> block \<Rightarrow> bool" where
  "is_low v low b = (case v (mount_path b) of None \<Rightarrow> False | Some (blocks, bavail, frsize) \<Rightarrow> low (to_mb bavail frsize) (to_mb blocks frsize))"

lemma is_low_core: "blk_core b = blk_core b' \<Longrightarrow> is_low v low b = is_low v low b'"
  by (simp add: is_low_def blk_core_def)

lemma reserve_check_const:
  assumes "i < length (mt_blocks m)"
  shows "\<exists>m'. block_reserve_check (\<lambda>_. v) low (int i) m = Some (if is_low v low (mt_blocks m ! i) then -1 else 0, m') \<and> same_cores m m'"
proof -
  have "\<exists>m'. block_reserve_check (\<lambda>_. v) low (int i) m = Some (if is_low v low (mt_blocks m ! i) then -1 else 0, m')"
  proof (cases "v (mount_path (mt_blocks m ! i))")
    case None
    then show ?thesis using assms by (simp add: block_reserve_check_def block_statvfs_cal_def blk_at_def is_low_def EACCES_def)
  next
    case (Some x)
    then show ?thesis using assms by (cases x) (simp add: block_reserve_check_def block_statvfs_cal_def blk_at_def set_blk_def is_low_def)
  qed
  then show ?thesis using reserve_check_cores by blast
qed

lemma other_block_const:
  "\<forall>i \<in> set is. i < length (mt_blocks m) \<Longrightarrow>
   \<exists>m'. other_block (\<lambda>_. v) low mnt is m = Some (List.find (\<lambda>i. int i \<noteq> mnt \<and> \<not> is_low v low (mt_blocks m ! i)) is, m') \<and> same_cores m m'"
proof (induction "is" arbitrary: m)
  case (Cons i "is")
  show ?case
  proof (cases "int i = mnt")
    case True
    then show ?thesis using Cons by auto
  next
    case False
    obtain m1 where r: "block_reserve_check (\<lambda>_. v) low (int i) m = Some (if is_low v low (mt_blocks m ! i) then -1 else 0, m1)" "same_cores m m1"
      using reserve_check_const [of i m v low] Cons.prems by auto
    have "is_low v low (mt_blocks m1 ! j) = is_low v low (mt_blocks m ! j)" if "j \<in> set is" for j
      by (rule is_low_core [OF same_cores_nth [OF r(2)]]) (use Cons.prems that in simp)
    then have f: "List.find (\<lambda>i. int i \<noteq> mnt \<and> \<not> is_low v low (mt_blocks m1 ! i)) is = List.find (\<lambda>i. int i \<noteq> mnt \<and> \<not> is_low v low (mt_blocks m ! i)) is"
      by (intro find_cong) simp_all
    obtain m2 where "other_block (\<lambda>_. v) low mnt is m1 = Some (List.find (\<lambda>i. int i \<noteq> mnt \<and> \<not> is_low v low (mt_blocks m ! i)) is, m2)" "same_cores m1 m2"
      using Cons.IH [of m1] Cons.prems same_cores_length [OF r(2)] f by auto
    then have "same_cores m m2" "same_cores m m1" "other_block (\<lambda>_. v) low mnt is m1 = Some (List.find (\<lambda>i. int i \<noteq> mnt \<and> \<not> is_low v low (mt_blocks m ! i)) is, m2)"
      using same_cores_trans [OF r(2)] r(2) by simp_all
    then show ?thesis using False r(1) by simp
  qed
qed simp

subsection \<open>The snapshot is read back\<close>

definition blk_range :: "block \<Rightarrow> bool" where
  "blk_range b \<longleftrightarrow> in_s32 (pre_path_map b) \<and> in_s32 (suf_path_map b) \<and> in_s32 (curr_path_map_file_count b) \<and>
     in_s32 (total_size_mb b) \<and> in_s32 (free_size_mb b)"

definition stat_cols :: "block \<Rightarrow> cstr list" where
  "stat_cols b = [fmt_d (pre_path_map b), fmt_d (suf_path_map b), fmt_d (curr_path_map_file_count b), fmt_d (total_size_mb b), fmt_d (free_size_mb b)]"

lemma stat_line_facts:
  assumes "blk_range b"
  shows "stat_line b = join_cols SPLITSYMBOL (stat_cols b) @ [10]" "10 \<notin> set (join_cols SPLITSYMBOL (stat_cols b))"
    "length (join_cols SPLITSYMBOL (stat_cols b)) + 1 < 256" "cstr_of (stat_line b) = stat_line b" "stat_line b \<noteq> []"
    "splitStr (stat_line b) SPLITSYMBOL MOUNT_BLOCK_STAT_DATAFIELDS =
       [fmt_d (pre_path_map b), fmt_d (suf_path_map b), fmt_d (curr_path_map_file_count b), fmt_d (total_size_mb b), fmt_d (free_size_mb b) @ [10]]"
proof -
  let ?j = "join_cols SPLITSYMBOL (stat_cols b)"
  have l: "length (fmt_d (pre_path_map b)) \<le> 20" "length (fmt_d (suf_path_map b)) \<le> 20" "length (fmt_d (curr_path_map_file_count b)) \<le> 20"
    "length (fmt_d (total_size_mb b)) \<le> 20" "length (fmt_d (free_size_mb b)) \<le> 20"
    using assms length_fmt_d in_s32_in_s64 by (simp_all add: blk_range_def)
  show m: "stat_line b = ?j @ [10]" by (simp add: stat_line_def stat_cols_def)
  show "10 \<notin> set ?j" using fmt_d_plain(3) by (simp add: stat_cols_def SPLITSYMBOL_def)
  show "length ?j + 1 < 256" using l by (simp add: stat_cols_def)
  have "0 \<notin> set ?j" using fmt_d_plain(4) by (simp add: stat_cols_def SPLITSYMBOL_def)
  then show "cstr_of (stat_line b) = stat_line b" by (intro cstr_of_is_cstr) (simp add: m is_cstr_def)
  show "stat_line b \<noteq> []" by (simp add: m)
  let ?c = "[fmt_d (pre_path_map b), fmt_d (suf_path_map b), fmt_d (curr_path_map_file_count b), fmt_d (total_size_mb b), fmt_d (free_size_mb b) @ [10]]"
  have "stat_line b = join_cols SPLITSYMBOL ?c" by (simp add: m stat_cols_def)
  then show "splitStr (stat_line b) SPLITSYMBOL MOUNT_BLOCK_STAT_DATAFIELDS = ?c"
    using fmt_d_plain(2) splitStr_loop_join [of ?c 4 SPLITSYMBOL]
    by (simp add: splitStr_def MOUNT_BLOCK_STAT_DATAFIELDS_def SPLITSYMBOL_def)
qed

lemma info_loop_step:
  assumes "blk_range b" and "k < length (mt_blocks m)" and "mount_path (mt_blocks m ! k) = mount_path b"
  shows "info_loop (stat_line b # ls) (int k) m = info_loop ls (int (Suc k)) (m\<lparr>mt_blocks := (mt_blocks m)[k := b]\<rparr>)"
proof -
  have "info_loop (stat_line b # ls) (int k) m = info_loop ls (int k + 1) (set_blk (int k)
      ((mt_blocks m ! k)\<lparr>pre_path_map := pre_path_map b, suf_path_map := suf_path_map b, curr_path_map_file_count := curr_path_map_file_count b,
         total_size_mb := total_size_mb b, free_size_mb := free_size_mb b\<rparr>) m)"
    using assms(1,2) stat_line_facts(4-6) [OF assms(1)] fmt_d_plain(1) [THEN trim_plain(1)] fmt_d_plain(1) [THEN trim_plain(2)]
    by (simp add: MOUNT_BLOCK_STAT_DATAFIELDS_def blk_range_def atoi_fmt_d blk_at_nat)
  moreover have "(mt_blocks m ! k)\<lparr>pre_path_map := pre_path_map b, suf_path_map := suf_path_map b, curr_path_map_file_count := curr_path_map_file_count b,
         total_size_mb := total_size_mb b, free_size_mb := free_size_mb b\<rparr> = b"
    using assms(3) by simp
  ultimately show ?thesis by (simp add: set_blk_def add.commute)
qed

lemma info_loop_lines:
  "\<forall>b \<in> set bs. blk_range b \<Longrightarrow> k + length bs = length (mt_blocks m) \<Longrightarrow> map mount_path (drop k (mt_blocks m)) = map mount_path bs \<Longrightarrow>
   info_loop (map stat_line bs) (int k) m = Some (m\<lparr>mt_blocks := take k (mt_blocks m) @ bs\<rparr>)"
proof (induction bs arbitrary: k m)
  case Nil
  then show ?case by simp
next
  case (Cons b bs)
  let ?m = "m\<lparr>mt_blocks := (mt_blocks m)[k := b]\<rparr>"
  have k: "k < length (mt_blocks m)" using Cons.prems(2) by simp
  have d: "drop k (mt_blocks m) = mt_blocks m ! k # drop (Suc k) (mt_blocks m)" by (rule Cons_nth_drop_Suc [OF k, symmetric])
  then have p: "mount_path (mt_blocks m ! k) = mount_path b" "map mount_path (drop (Suc k) (mt_blocks ?m)) = map mount_path bs"
    using Cons.prems(3) by simp_all
  have "info_loop (map stat_line (b # bs)) (int k) m = info_loop (map stat_line bs) (int (Suc k)) ?m"
    using info_loop_step [OF _ k p(1)] Cons.prems(1) by simp
  also have "\<dots> = Some (?m\<lparr>mt_blocks := take (Suc k) (mt_blocks ?m) @ bs\<rparr>)"
    by (rule Cons.IH) (use Cons.prems p(2) in simp_all)
  also have "take (Suc k) (mt_blocks ?m) = take k (mt_blocks m) @ [b]" using k by (simp add: take_Suc_conv_app_nth)
  finally show ?case by simp
qed

lemma stat_write_lines:
  "fs_quiet fs \<Longrightarrow> fs_open fs fd = Some f \<Longrightarrow> \<not> of_append f \<Longrightarrow> of_path f = p \<Longrightarrow> fs_files fs p = Some d \<Longrightarrow> of_off f = length d \<Longrightarrow>
   k + n = length (mt_blocks m) \<Longrightarrow>
   \<exists>fs'. stat_write_loop fd [k ..< k + n] m fs = Some (LFS_OK, fs') \<and> fs_quiet fs' \<and>
     fs_files fs' = (fs_files fs)(p \<mapsto> d @ concat (map stat_line (drop k (mt_blocks m))))"
proof (induction n arbitrary: k d f fs)
  case 0
  then show ?case by (auto simp: sys_close_def fs_quiet_def)
next
  case (Suc n)
  let ?b = "mt_blocks m ! k"
  let ?fs = "fs_tick (put_data fd f (stat_line ?b) fs)"
  have k: "k < length (mt_blocks m)" using Suc.prems(7) by simp
  have p: "put_data fd f (stat_line ?b) fs = fs\<lparr>fs_files := (fs_files fs)(p \<mapsto> d @ stat_line ?b), fs_open := (fs_open fs)(fd \<mapsto> f\<lparr>of_off := length d + length (stat_line ?b)\<rparr>)\<rparr>"
    using Suc.prems by (simp add: put_data_def write_at_end)
  have "fd_write fd (stat_line ?b) fs = (int (length (stat_line ?b)), ?fs)" using Suc.prems(1,2) by (simp add: fd_write_def)
  then have s: "stat_write_loop fd [k ..< k + Suc n] m fs = stat_write_loop fd [Suc k ..< Suc k + n] m ?fs"
    using k upt_conv_Cons [of k "k + Suc n"] by (simp add: blk_at_nat del: upt_Suc)
  have "\<exists>fs'. stat_write_loop fd [Suc k ..< Suc k + n] m ?fs = Some (LFS_OK, fs') \<and> fs_quiet fs' \<and>
     fs_files fs' = (fs_files ?fs)(p \<mapsto> (d @ stat_line ?b) @ concat (map stat_line (drop (Suc k) (mt_blocks m))))"
    by (rule Suc.IH [of ?fs "f\<lparr>of_off := length d + length (stat_line ?b)\<rparr>"]) (use Suc.prems p in \<open>simp_all add: fs_quiet_def\<close>)
  moreover have "drop k (mt_blocks m) = ?b # drop (Suc k) (mt_blocks m)" by (rule Cons_nth_drop_Suc [OF k, symmetric])
  ultimately show ?case unfolding s using p by auto
qed

subsection \<open>Properties\<close>

lemma blk_core_range: "blk_core b = blk_core b' \<Longrightarrow> path_range sub maxf b = path_range sub maxf b'"
  by (simp add: blk_core_def path_range_def)

lemma blk_core_pos: "blk_core b = blk_core b' \<Longrightarrow> path_pos sub maxf b = path_pos sub maxf b'"
  by (simp add: blk_core_def path_pos_def)


text \<open>When the block that belongs to the connection has too little space, the others are tried in order,
  with two defects: a place that is found in the last block is reported as an error, and when no block has
  space the result is a success that leaves the index of the file as it was, so that with no index set the
  next access is outside the array of blocks.\<close>

theorem no_free_space_result:
  assumes n: "mount_count m = int (length (mt_blocks m))" "mt_blocks m \<noteq> []"
    and mnt: "mnt = nat (sfd mod mount_count m)" "0 \<le> sfd" and full: "is_low v low (mt_blocks m ! mnt)"
    and f: "found = List.find (\<lambda>i. int i \<noteq> int mnt \<and> \<not> is_low v low (mt_blocks m ! i)) [0 ..< length (mt_blocks m)]"
  shows "(\<exists>m'. conn_mount_polling (\<lambda>_. v) low sfd ix m =
      (case found of None \<Rightarrow> Some (LFS_OK, ix, m')
       | Some i \<Rightarrow> Some (if Suc i = length (mt_blocks m) then LFS_ERROR else LFS_OK, int i, m'))) \<and>
    (found = None \<longrightarrow> mount_block_map_polling (\<lambda>_. v) low cf sfd (-1, pre, suf) m = None)"
proof -
  have mi: "mnt < length (mt_blocks m)" "sfd mod mount_count m = int mnt" using mnt n by (simp_all add: nat_less_iff)
  obtain m1 where r: "block_reserve_check (\<lambda>_. v) low (int mnt) m = Some (-1, m1)" "same_cores m m1"
    using reserve_check_const [OF mi(1), of v low] full by auto
  have c: "mount_count m1 = mount_count m" using r(2) by (simp add: same_cores_def)
  have same: "is_low v low (mt_blocks m1 ! j) = is_low v low (mt_blocks m ! j)" if "j < length (mt_blocks m)" for j
    by (rule is_low_core [OF same_cores_nth [OF r(2) that]])
  have "found = List.find (\<lambda>i. int i \<noteq> int mnt \<and> \<not> is_low v low (mt_blocks m1 ! i)) [0 ..< length (mt_blocks m)]"
    unfolding f by (intro find_cong) (simp_all add: same)
  then obtain m2 where o: "other_block (\<lambda>_. v) low (int mnt) [0 ..< length (mt_blocks m)] m1 = Some (found, m2)" "same_cores m1 m2"
    using other_block_const [of "[0 ..< length (mt_blocks m)]" m1 v low "int mnt"] same_cores_length [OF r(2)] by auto
  have c2: "mount_count m2 = mount_count m" using o(2) c by (simp add: same_cores_def)
  have all: "conn_mount_polling (\<lambda>_. v) low sfd ix m = (case found of None \<Rightarrow> Some (LFS_OK, ix, m2)
       | Some i \<Rightarrow> Some (if Suc i = length (mt_blocks m) then LFS_ERROR else LFS_OK, int i, m2))" for ix
    using r(1) o(1) mi(2) n c c2 by (auto simp: conn_mount_polling_def split: option.splits)
  have none: "mount_block_map_polling (\<lambda>_. v) low cf sfd (-1, pre, suf) m = None" if "found = None"
    using all [of "-1"] that by (simp add: mount_block_map_polling_def block_map_path_polling_def blk_at_def)
  show ?thesis using all none by blast
qed

text \<open>C30: The counters survive a restart: when the snapshot has been written, a server that has mounted the same
  directories in the same order reads back exactly the blocks that were written.\<close>

theorem block_snapshot_roundtrip:
  assumes q: "fs_quiet fs" and n: "mount_count m = int (length (mt_blocks m))" and r: "\<forall>b \<in> set (mt_blocks m). blk_range b"
    and same: "map mount_path (mt_blocks m') = map mount_path (mt_blocks m)"
  shows "\<exists>fs1 fs2. mount_block_stat_write base m fs = Some (LFS_OK, fs1) \<and>
    mount_block_info_init vfs base m' fs1 = Some (LFS_OK, m'\<lparr>mt_blocks := mt_blocks m\<rparr>, fs2)"
proof -
  let ?p = "stat_file base"
  obtain fs0 where o: "open_trunc ?p fs = (fs_next fs, fs0)" "fs_open fs0 (fs_next fs) = Some \<lparr>of_path = ?p, of_off = 0, of_append = False\<rparr>"
    "fs_files fs0 = (fs_files fs)(?p \<mapsto> [])" "fs_quiet fs0"
    using q by (simp add: open_trunc_def new_fd_def fs_quiet_def fs_fail_def)
  obtain fs1 where w: "stat_write_loop (fs_next fs) [0 ..< length (mt_blocks m)] m fs0 = Some (LFS_OK, fs1)" "fs_quiet fs1"
    "fs_files fs1 = (fs_files fs0)(?p \<mapsto> concat (map stat_line (mt_blocks m)))"
    using stat_write_lines [OF o(4,2), of ?p "[]" 0 "length (mt_blocks m)" m] o(3) by auto
  have "\<not> fs_next fs < 0" using q by (simp add: fs_quiet_def)
  then have a: "mount_block_stat_write base m fs = Some (LFS_OK, fs1)" using o(1) w(1) n by (simp add: mount_block_stat_write_def)
  let ?j = "\<lambda>b. join_cols SPLITSYMBOL (stat_cols b)"
  have l: "map stat_line (mt_blocks m) = map (\<lambda>l. l @ [10]) (map ?j (mt_blocks m))" using r by (simp add: stat_line_facts(1))
  have "fgets_all 256 (concat (map stat_line (mt_blocks m))) = map stat_line (mt_blocks m)"
    unfolding l by (rule fgets_all_lines) (use r stat_line_facts(2,3) in simp)
  moreover have "info_loop (map stat_line (mt_blocks m)) 0 m' = Some (m'\<lparr>mt_blocks := mt_blocks m\<rparr>)"
    using info_loop_lines [OF r, of 0 m'] same map_eq_imp_length_eq [OF same] by simp
  ultimately have "mount_block_info_init vfs base m' fs1 = Some (LFS_OK, m'\<lparr>mt_blocks := mt_blocks m\<rparr>, fs_tick fs1)"
    using w(2,3) by (simp add: mount_block_info_init_def fileExists_def)
  then show ?thesis using a by blast
qed

subsection \<open>Witnesses\<close>

definition demo_mount :: "nat \<Rightarrow> block_mount" where
  "demo_mount n = \<lparr>mt_blocks = map (\<lambda>i. (new_block (asc ''/d'' @ fmt_d (int i)))\<lparr>suf_path_map := 1\<rparr>) [0 ..< n], block_total_size_mb = 0, block_free_size_mb = 0,
     mount_count = int n, is_flush = False, is_statistics = False, vfs_calls = 0, block_opt_count = 0\<rparr>"

definition demo_block_confs :: block_confs where
  "demo_block_confs = \<lparr>bc_base_path = [], bc_block_mount = [], bc_sub_count = 2, bc_max_file_count = 1\<rparr>"


theorem no_free_space_result_witness:
  "(\<exists>m'. conn_mount_polling (\<lambda>_ p. Some (if p = asc ''/d1'' then 100 else 0, 0, 1048576)) (\<lambda>_ t. t = 0) 0 (-1) (demo_mount 2) = Some (LFS_ERROR, 1, m')) \<and>
   mount_block_map_polling (\<lambda>_ _. Some (0, 0, 1)) (\<lambda>_ t. t = 0) demo_block_confs 0 (-1, 0, 0) (demo_mount 2) = None"
proof -
  let ?m = "demo_mount 2" and ?v = "\<lambda>p :: cstr. Some (if p = asc ''/d1'' then 100 else 0 :: nat, 0 :: nat, 1048576 :: nat)" and ?w = "\<lambda>p :: cstr. Some (0 :: nat, 0 :: nat, 1 :: nat)"
  have m: "mt_blocks ?m \<noteq> []" "length (mt_blocks ?m) = 2" "mount_count ?m = int (length (mt_blocks ?m))" by (simp_all add: demo_mount_def)
  have path: "asc ''/d'' @ fmt_d 1 = asc ''/d1''" "asc ''/d'' @ fmt_d 0 \<noteq> asc ''/d1''" by code_simp+
  have to_mb: "to_mb 0 1048576 = 0" "to_mb 100 1048576 = 100" by (simp_all add: to_mb_def to_s32_id in_s32_def)
  have low: "is_low ?v (\<lambda>_ t. t = 0) (mt_blocks ?m ! 0)" "\<not> is_low ?v (\<lambda>_ t. t = 0) (mt_blocks ?m ! 1)"
    by (simp_all add: is_low_def to_mb to_s32_id in_s32_def demo_mount_def new_block_def path del: asc_Cons)
  have low': "is_low ?w (\<lambda>_ t. t = 0) b" for b by (simp add: is_low_def to_mb_def to_s32_id in_s32_def)
  have "List.find (\<lambda>i. int i \<noteq> int 0 \<and> \<not> is_low ?v (\<lambda>_ t. t = 0) (mt_blocks ?m ! i)) [0 ..< length (mt_blocks ?m)] = Some 1"
    "List.find (\<lambda>i. int i \<noteq> int 0 \<and> \<not> is_low ?w (\<lambda>_ t. t = 0) (mt_blocks ?m ! i)) [0 ..< length (mt_blocks ?m)] = None"
    unfolding m(2) using low low' by (simp_all add: numeral_2_eq_2)
  note f = this [symmetric]
  have z: "0 = nat (0 mod mount_count ?m)" "(0 :: int) \<le> 0" by simp_all
  show ?thesis
    using no_free_space_result [OF m(3,1) z low(1) f(1), of "-1" demo_block_confs 0 0]
      no_free_space_result [OF m(3,1) z low' f(2), of "-1" demo_block_confs 0 0] m(2) by simp
qed

theorem block_snapshot_roundtrip_witness:
  "\<exists>fs1 fs2. mount_block_stat_write [] (demo_mount 2) demo_fs = Some (LFS_OK, fs1) \<and>
    mount_block_info_init (\<lambda>_ _. None) [] ((demo_mount 2)\<lparr>mt_blocks := map (\<lambda>b. b\<lparr>suf_path_map := 0\<rparr>) (mt_blocks (demo_mount 2))\<rparr>) fs1 = Some (LFS_OK, demo_mount 2, fs2)"
proof -
  let ?m = "demo_mount 2" and ?m' = "(demo_mount 2)\<lparr>mt_blocks := map (\<lambda>b. b\<lparr>suf_path_map := 0\<rparr>) (mt_blocks (demo_mount 2))\<rparr>"
  have "mount_count ?m = int (length (mt_blocks ?m))" "\<forall>b \<in> set (mt_blocks ?m). blk_range b" "map mount_path (mt_blocks ?m') = map mount_path (mt_blocks ?m)"
    by (auto simp: demo_mount_def blk_range_def new_block_def in_s32_def)
  from block_snapshot_roundtrip [OF demo_fs_ok(1) this, of "[]" "\<lambda>_ _. None"] show ?thesis by simp
qed

end
