(* ===== verification/Ds_File.thy ===== *)
theory Ds_File
  imports Base64 Ds_Block Lfs_Protocol
begin

text \<open>
  The file contexts of the data server (\<open>src/dataserver/ds_file.c\<close>): the object that carries a transfer,
  and the names of stored files, which hold the metadata of the file in base 64. The sources use members
  and constants that the headers of the repository do not define (\<open>f_rwoffset\<close>, the two time stamps,
  \<open>f_b64_name_len\<close>, \<open>ctxs.sid\<close>, \<open>ctxs.b64_ctx\<close>, \<open>LFS_MACHINE_ID_BUFF_SIZE\<close>): the members are fields here, the
  constant is the argument \<open>de_mid\<close>, and the size of the buffer for the metadata, which the header gives
  as 32, is the argument \<open>de_name_buff\<close>. The context of a connection lives in the array \<open>fctxs\<close> at the index of
  its descriptor; \<open>None\<close> is an empty place of the array.
\<close>

subsection \<open>Data\<close>

definition LFS_FILE_METEDATA_NAME_BUFF_SIZE :: nat where "LFS_FILE_METEDATA_NAME_BUFF_SIZE = 32"
definition LFS_FILE_MAP_NAME_SIZE :: nat where "LFS_FILE_MAP_NAME_SIZE = 256"
definition LFS_FILE_BLOCK_MAP_NAME_SIZE :: nat where "LFS_FILE_BLOCK_MAP_NAME_SIZE = 256"
definition LFS_BASE64_BUFF_SIZE :: nat where "LFS_BASE64_BUFF_SIZE = 256"

datatype file_op_type = FILE_OP_TYPE_READ | FILE_OP_TYPE_WRITE

text \<open>The functions that the pointers of a context may point to.\<close>

datatype op_done_func = File_upload_done | Asyncfile_done | File_download_done

datatype dio_func = Dio_read | Dio_write

text \<open>The flags of \<open>open\<close>; zero is \<open>O_RDONLY\<close>.\<close>

datatype open_flags = O_RDONLY | O_WRONLY_CREAT

record file_ctx =
  f_fd :: int
  f_op_flags :: open_flags
  f_mnt_block_index :: int
  f_mp_pre :: int
  f_mp_suf :: int
  f_op_type :: file_op_type
  f_orginl_name :: cstr
  f_b64_name :: cstr
  f_b64_name_len :: int
  f_map_name :: cstr
  f_block_map_name :: cstr
  f_id :: cstr
  f_path_name :: cstr
  f_create_timestamp :: int
  f_modify_timestamp :: int
  f_offset :: int
  f_crc32 :: u64
  f_alloc_count :: int
  f_buff_size :: int
  f_buff_offset :: int
  f_rwoffset :: int
  f_size :: int
  f_total_size :: int
  f_total_offset :: int
  f_buff :: "byte list"
  f_op_func :: "op_done_func option"
  f_dio_func :: "dio_func option"
  f_cleanup :: bool

record file_metedata =
  fm_create_timestamp :: int
  fm_modify_timestamp :: int
  fm_offset :: int
  fm_size :: int
  fm_crc32 :: int

text \<open>The configuration and the process that the names depend on.\<close>

record name_env =
  de_mid :: nat
  de_name_buff :: nat
  de_b64 :: base64_context_st
  de_sid :: int
  de_tid :: int
  de_group :: cstr
  de_volume :: cstr

subsection \<open>The life of a context\<close>

text \<open>\<open>file_ctx_reinit\<close> is the second half of \<open>file_ctx_new\<close>, which runs for new and for old contexts; it
  leaves the time stamps as they are.\<close>

definition file_ctx_reinit :: "file_op_type \<Rightarrow> file_ctx \<Rightarrow> file_ctx" where
  "file_ctx_reinit opt f =
     f\<lparr>f_fd := -1, f_op_flags := O_RDONLY, f_mnt_block_index := -1, f_mp_pre := -1, f_mp_suf := -1, f_op_type := opt,
       f_orginl_name := [], f_b64_name := [], f_b64_name_len := 0, f_map_name := [], f_block_map_name := [], f_id := [],
       f_path_name := [], f_offset := 0, f_crc32 := 0, f_alloc_count := 0, f_buff_offset := 0, f_rwoffset := 0, f_size := 0,
       f_total_size := 0, f_total_offset := 0, f_buff := replicate (nat (f_buff_size f)) 0,
       f_op_func := None, f_dio_func := None, f_cleanup := False\<rparr>"

definition fresh_file_ctx :: "int \<Rightarrow> file_op_type \<Rightarrow> file_ctx" where
  "fresh_file_ctx buffer_size opt =
     \<lparr>f_fd = -1, f_op_flags = O_RDONLY, f_mnt_block_index = -1, f_mp_pre = -1, f_mp_suf = -1, f_op_type = opt,
      f_orginl_name = [], f_b64_name = [], f_b64_name_len = 0, f_map_name = [], f_block_map_name = [], f_id = [],
      f_path_name = [], f_create_timestamp = 0, f_modify_timestamp = 0, f_offset = 0, f_crc32 = 0, f_alloc_count = 0,
      f_buff_size = buffer_size, f_buff_offset = 0, f_rwoffset = 0, f_size = 0, f_total_size = 0, f_total_offset = 0,
      f_buff = replicate (nat buffer_size) 0, f_op_func = None, f_dio_func = None, f_cleanup = False\<rparr>"

text \<open>\<open>slot\<close> is the place of the array; \<open>mem1\<close>, \<open>mem2\<close> are the outcomes of the two allocations. The result is
  whether there is a context, and the place.\<close>

definition file_ctx_new ::
  "bool \<Rightarrow> bool \<Rightarrow> int \<Rightarrow> int \<Rightarrow> int \<Rightarrow> file_op_type \<Rightarrow> file_ctx option \<Rightarrow> (bool \<times> file_ctx option) option" where
  "file_ctx_new mem1 mem2 max_fds sfd buffer_size opt slot =
     (if \<not> (0 \<le> sfd \<and> sfd < max_fds) then None
      else case slot of
             Some f \<Rightarrow> Some (True, Some (file_ctx_reinit opt f))
           | None \<Rightarrow>
               if \<not> mem1 \<or> \<not> mem2 then Some (False, None)
               else Some (True, Some (file_ctx_reinit opt (fresh_file_ctx buffer_size opt))))"

definition file_ctx_clean :: "file_ctx \<Rightarrow> fsys \<Rightarrow> file_ctx \<times> fsys" where
  "file_ctx_clean f fs =
     (f\<lparr>f_fd := (if f_fd f > 0 then -1 else f_fd f), f_op_flags := O_RDONLY, f_mnt_block_index := -1, f_mp_pre := -1, f_mp_suf := -1,
        f_orginl_name := [], f_b64_name := [], f_b64_name_len := 0, f_map_name := [], f_block_map_name := [], f_id := [],
        f_path_name := [], f_create_timestamp := 0, f_modify_timestamp := 0, f_offset := 0, f_crc32 := 0, f_alloc_count := 0,
        f_buff_offset := 0, f_rwoffset := 0, f_size := 0, f_total_size := 0, f_total_offset := 0,
        f_buff := replicate (nat (f_buff_size f)) 0, f_op_func := None, f_dio_func := None, f_cleanup := False\<rparr>,
      if f_fd f > 0 then sys_close (f_fd f) fs else fs)"

text \<open>The array of the contexts; \<open>None\<close> stands for the null pointer. Destroying it frees the contexts but not
  their buffers.\<close>

definition file_ctx_mpools_init :: "bool \<Rightarrow> int \<times> (int \<rightharpoonup> file_ctx) option" where
  "file_ctx_mpools_init mem = (if mem then (LFS_OK, Some Map.empty) else (LFS_ERROR, None))"

definition file_ctx_mpools_destroy :: "(int \<rightharpoonup> file_ctx) option \<Rightarrow> (int \<rightharpoonup> file_ctx) option option" where
  "file_ctx_mpools_destroy fctxs = (if fctxs = None then None else Some None)"

definition file_ctx_reset :: "file_ctx \<Rightarrow> file_ctx" where
  "file_ctx_reset f =
     f\<lparr>f_alloc_count := 0, f_rwoffset := 0, f_buff_offset := 0, f_size := 0, f_offset := 0, f_total_offset := 0, f_total_size := 0,
       f_buff := replicate (nat (f_buff_size f)) 0\<rparr>"

definition file_ctx_buff_reset :: "file_ctx \<Rightarrow> file_ctx" where
  "file_ctx_buff_reset f = f\<lparr>f_buff_offset := 0, f_rwoffset := 0, f_buff := replicate (nat (f_buff_size f)) 0\<rparr>"

definition file_unlink :: "file_ctx \<Rightarrow> fsys \<Rightarrow> int \<times> fsys" where
  "file_unlink f fs = (let (r, fs) = sys_unlink (f_map_name f) fs in (if r \<noteq> 0 then last_errno fs else LFS_OK, fs))"

definition get_filesize_by_name :: "cstr \<Rightarrow> fsys \<Rightarrow> int" where
  "get_filesize_by_name p fs =
     (if \<not> fileExists p fs then LFS_OK
      else case fs_files fs p of None \<Rightarrow> LFS_ERROR | Some d \<Rightarrow> int (length d))"

subsection \<open>Names\<close>

text \<open>A number printed with \<open>%02X\<close> is taken modulo the size of an \<open>unsigned int\<close>.\<close>

definition fmt_u02X :: "int \<Rightarrow> cstr" where
  "fmt_u02X i = fmt_02X (nat (i mod 2 ^ 32))"

definition machine_id :: "name_env \<Rightarrow> byte list" where
  "machine_id e = int2buff (word_of_int (de_sid e)) @ int2buff (word_of_int (de_tid e)) @ replicate (de_mid e - 8) 0"

definition name_bytes :: "name_env \<Rightarrow> file_ctx \<Rightarrow> byte list" where
  "name_bytes e f = machine_id e @ long2buff (word_of_int (f_create_timestamp f)) @ long2buff (word_of_int (f_modify_timestamp f)) @
     long2buff (word_of_int (f_offset f)) @ long2buff (word_of_int (f_total_size f)) @ int2buff (ucast (f_crc32 f))"

text \<open>\<open>__fileidname_pack\<close>: writing beyond one of the three buffers gives \<open>None\<close>.\<close>

definition fileidname_pack :: "name_env \<Rightarrow> file_ctx \<Rightarrow> file_ctx option" where
  "fileidname_pack e f =
     (let b64 = base64_encode_ex (de_b64 e) (name_bytes e f) True in
      if de_mid e < 8 \<or> de_name_buff e < length (name_bytes e f) \<or> LFS_BASE64_BUFF_SIZE \<le> length b64 then None
      else Some (f\<lparr>f_b64_name := b64, f_b64_name_len := int (length b64)\<rparr>))"

definition mapname_pack :: "file_ctx \<Rightarrow> file_ctx option" where
  "mapname_pack f =
     (let s = fmt_u02X (f_mp_pre f) @ [47] @ fmt_u02X (f_mp_suf f) @ [47] @ f_b64_name f in
      if LFS_FILE_MAP_NAME_SIZE \<le> length s then None else Some (f\<lparr>f_map_name := s\<rparr>))"

definition blockmapname_pack :: "block_mount \<Rightarrow> file_ctx \<Rightarrow> file_ctx option" where
  "blockmapname_pack m f = do {
     b \<leftarrow> blk_at m (f_mnt_block_index f);
     let s = mount_path b @ [47] @ f_map_name f;
     if LFS_FILE_BLOCK_MAP_NAME_SIZE \<le> length s then None else Some (f\<lparr>f_block_map_name := s\<rparr>)
   }"

definition file_metedata_pack :: "name_env \<Rightarrow> block_mount \<Rightarrow> file_ctx \<Rightarrow> (int \<times> file_ctx) option" where
  "file_metedata_pack e m f = do {
     f \<leftarrow> fileidname_pack e f;
     f \<leftarrow> mapname_pack f;
     f \<leftarrow> blockmapname_pack m f;
     Some (LFS_OK, f\<lparr>f_id := snprintf LFS_FILE_ID_SIZE
       (de_group e @ [47] @ de_volume e @ [47] @ asc ''B'' @ fmt_u02X (f_mnt_block_index f) @ [47] @ f_map_name f)\<rparr>)
   }"

text \<open>\<open>file_metedata_unpack\<close>: the decoded bytes go into a cleared buffer, with a terminator.\<close>

definition file_metedata_unpack :: "name_env \<Rightarrow> byte list \<Rightarrow> (int \<times> file_metedata) option" where
  "file_metedata_unpack e name = do {
     d \<leftarrow> base64_decode (de_b64 e) name;
     if LFS_FILE_ID_SIZE \<le> length d then None
     else do {
       let buf = d @ replicate (LFS_FILE_ID_SIZE - length d) 0;
       ct \<leftarrow> get_long buf (de_mid e);
       mt \<leftarrow> get_long buf (de_mid e + 8);
       off \<leftarrow> get_long buf (de_mid e + 16);
       sz \<leftarrow> get_long buf (de_mid e + 24);
       crc \<leftarrow> get_bytes buf (de_mid e + 32) 4;
       Some (LFS_OK, \<lparr>fm_create_timestamp = ct, fm_modify_timestamp = mt, fm_offset = off, fm_size = sz, fm_crc32 = sint (buff2int crc)\<rparr>)
     }
   }"

subsection \<open>Properties\<close>

lemma length_int2buff [simp]: "length (int2buff n) = 4"
  by (simp add: int2buff_def)

lemma length_name_bytes: "8 \<le> de_mid e \<Longrightarrow> length (name_bytes e f) = de_mid e + 36"
  by (simp add: name_bytes_def machine_id_def)

definition ds_b64_ctx :: base64_context_st where
  "ds_b64_ctx = base64_init_ex 0 45 95 46"

lemma ds_b64_ctx_ok: "ctx_ok ds_b64_ctx"
proof -
  have "distinct [45, 95, 46, 10 :: byte]" "\<not> is_alnum 45" "\<not> is_alnum 95" "\<not> is_alnum 46" by (simp_all add: is_alnum_def)
  from base64_init_ctx_ok [OF alphabet_distinct [OF this]] show ?thesis by (simp add: ds_b64_ctx_def)
qed

lemma length_ds_encode: "length src \<le> length (base64_encode_ex ds_b64_ctx src True)"
proof -
  have "int (length (base64_encode_ex ds_b64_ctx src True)) = base64_get_encode_length ds_b64_ctx (int (length src))"
    by (rule length_base64_encode_ex [of _ 0]) (simp_all add: ds_b64_ctx_def base64_init_ex_def Let_def)
  also have "\<dots> = int ((length src + 2) div 3 * 4)"
    using sdiv_int_nat [of "length src + 2" 3]
    by (simp add: base64_get_encode_length_def ds_b64_ctx_def base64_init_ex_def Let_def add.commute)
  finally show ?thesis by linarith
qed

lemma get_long_at: "length p = off \<Longrightarrow> in_s64 i \<Longrightarrow> get_long (p @ long2buff (word_of_int i) @ s) off = Some i"
  by (simp add: get_long_def get_bytes_def buff2long_long2buff in_s64_def signed_take_bit_int_eq_self sint_sbintrunc')

definition meta_range :: "file_ctx \<Rightarrow> bool" where
  "meta_range f \<longleftrightarrow> in_s64 (f_create_timestamp f) \<and> in_s64 (f_modify_timestamp f) \<and> in_s64 (f_offset f) \<and> in_s64 (f_total_size f)"

lemma fileidname_pack_eq: "fileidname_pack e f = Some f' \<Longrightarrow>
  8 \<le> de_mid e \<and> de_mid e + 36 \<le> de_name_buff e \<and> f_b64_name f' = base64_encode_ex (de_b64 e) (name_bytes e f) True \<and> length (f_b64_name f') < 256"
  using length_name_bytes [of e f] by (auto simp: fileidname_pack_def Let_def LFS_BASE64_BUFF_SIZE_def split: if_splits)

lemma metedata_pack_eq: "file_metedata_pack e m f = Some (r, f') \<Longrightarrow>
  \<exists>f1. fileidname_pack e f = Some f1 \<and> f_b64_name f' = f_b64_name f1"
  by (auto simp: file_metedata_pack_def mapname_pack_def blockmapname_pack_def bind_eq_Some_conv Let_def split: if_splits)

lemma name_bytes_fields:
  assumes "8 \<le> de_mid e" and "meta_range f"
  shows "get_long (name_bytes e f @ z) (de_mid e) = Some (f_create_timestamp f)"
    "get_long (name_bytes e f @ z) (de_mid e + 8) = Some (f_modify_timestamp f)"
    "get_long (name_bytes e f @ z) (de_mid e + 16) = Some (f_offset f)"
    "get_long (name_bytes e f @ z) (de_mid e + 24) = Some (f_total_size f)"
    "get_bytes (name_bytes e f @ z) (de_mid e + 32) 4 = Some (int2buff (ucast (f_crc32 f)))"
proof -
  define i where "i = machine_id e"
  define t where "t = int2buff (ucast (f_crc32 f)) @ z"
  have li: "length i = de_mid e" using assms(1) by (simp add: machine_id_def i_def)
  let ?a = "long2buff (word_of_int (f_create_timestamp f))" and ?b = "long2buff (word_of_int (f_modify_timestamp f))" and ?c = "long2buff (word_of_int (f_offset f))"
  have b: "name_bytes e f @ z = i @ ?a @ ?b @ ?c @ long2buff (word_of_int (f_total_size f)) @ t" by (simp add: name_bytes_def t_def i_def)
  note r = assms(2) [unfolded meta_range_def]
  show "get_long (name_bytes e f @ z) (de_mid e) = Some (f_create_timestamp f)" unfolding b by (rule get_long_at) (use li r in simp_all)
  show "get_long (name_bytes e f @ z) (de_mid e + 8) = Some (f_modify_timestamp f)"
    unfolding b using get_long_at [of "i @ ?a" "de_mid e + 8" "f_modify_timestamp f"] li r by simp
  show "get_long (name_bytes e f @ z) (de_mid e + 16) = Some (f_offset f)"
    unfolding b using get_long_at [of "i @ ?a @ ?b" "de_mid e + 16" "f_offset f"] li r by simp
  show "get_long (name_bytes e f @ z) (de_mid e + 24) = Some (f_total_size f)"
    unfolding b using get_long_at [of "i @ ?a @ ?b @ ?c" "de_mid e + 24" "f_total_size f"] li r by simp
  show "get_bytes (name_bytes e f @ z) (de_mid e + 32) 4 = Some (int2buff (ucast (f_crc32 f)))"
    unfolding b t_def using li by (simp add: get_bytes_def)
qed

text \<open>C18: The name of a stored file keeps its metadata: whenever a name can be built, unpacking its base 64 part gives
  back the two times, the offset, the size of the file and the low half of the checksum. With the buffer size
  of the header no name can be built: the metadata are written beyond the end of the buffer.\<close>

theorem file_name_keeps_metadata:
  assumes "de_b64 e = ds_b64_ctx" and "meta_range f"
  shows "(\<forall>r f'. file_metedata_pack e m f = Some (r, f') \<longrightarrow>
      file_metedata_unpack e (f_b64_name f') = Some (LFS_OK, \<lparr>fm_create_timestamp = f_create_timestamp f, fm_modify_timestamp = f_modify_timestamp f,
        fm_offset = f_offset f, fm_size = f_total_size f, fm_crc32 = sint (ucast (f_crc32 f) :: s32)\<rparr>)) \<and>
    (de_name_buff e = LFS_FILE_METEDATA_NAME_BUFF_SIZE \<longrightarrow> file_metedata_pack e m f = None)"
proof (intro conjI allI impI)
  fix r f' assume p: "file_metedata_pack e m f = Some (r, f')"
  then have n: "8 \<le> de_mid e" "f_b64_name f' = base64_encode_ex ds_b64_ctx (name_bytes e f) True" "length (f_b64_name f') < 256"
    using metedata_pack_eq [OF p] fileidname_pack_eq assms(1) by fastforce+
  have d: "base64_decode (de_b64 e) (f_b64_name f') = Some (name_bytes e f)" unfolding n(2) assms(1) by (rule decode_encode [OF ds_b64_ctx_ok])
  have l: "length (name_bytes e f) < 256" using length_ds_encode [of "name_bytes e f"] n(2,3) by simp
  show "file_metedata_unpack e (f_b64_name f') = Some (LFS_OK, \<lparr>fm_create_timestamp = f_create_timestamp f, fm_modify_timestamp = f_modify_timestamp f,
        fm_offset = f_offset f, fm_size = f_total_size f, fm_crc32 = sint (ucast (f_crc32 f) :: s32)\<rparr>)"
    using l d name_bytes_fields [OF n(1) assms(2)] by (simp add: file_metedata_unpack_def LFS_FILE_ID_SIZE_def buff2int_int2buff)
next
  assume "de_name_buff e = LFS_FILE_METEDATA_NAME_BUFF_SIZE"
  then have "fileidname_pack e f = None"
    using fileidname_pack_eq [of e f] by (cases "fileidname_pack e f") (auto simp: LFS_FILE_METEDATA_NAME_BUFF_SIZE_def)
  then show "file_metedata_pack e m f = None" by (simp add: file_metedata_pack_def)
qed

text \<open>The text between the letter and the next slash is a hexadecimal number, and it is read as a decimal one.\<close>

lemma hex_digit_facts:
  assumes "d < 16"
  shows "is_dec (hex_digit 65 d) \<longleftrightarrow> d < 10" "d < 10 \<Longrightarrow> uint (hex_digit 65 d - 48) = int d"
    "hex_digit 65 d \<noteq> 47" "\<not> isspace (hex_digit 65 d)" "hex_digit 65 d \<noteq> 45" "hex_digit 65 d \<noteq> 43"
proof -
  have "\<forall>d \<in> set [0 ..< 16]. (is_dec (hex_digit 65 d) \<longleftrightarrow> d < 10) \<and> (d < 10 \<longrightarrow> uint (hex_digit 65 d - 48) = int d) \<and>
      hex_digit 65 d \<noteq> 47 \<and> \<not> isspace (hex_digit 65 d) \<and> hex_digit 65 d \<noteq> 45 \<and> hex_digit 65 d \<noteq> 43" by code_simp
  then show "is_dec (hex_digit 65 d) \<longleftrightarrow> d < 10" "d < 10 \<Longrightarrow> uint (hex_digit 65 d - 48) = int d"
    "hex_digit 65 d \<noteq> 47" "\<not> isspace (hex_digit 65 d)" "hex_digit 65 d \<noteq> 45" "hex_digit 65 d \<noteq> 43"
    using assms by simp_all
qed

lemma fmt_02X_two: "i < 256 \<Longrightarrow> fmt_02X i = [hex_digit 65 (i div 16), hex_digit 65 (i mod 16)]"
  using div_less_iff_less_mult [of 16 i 16]
  by (cases "i < 16") (simp_all add: fmt_02X_def pad0_def hex_of_nat.simps [of _ i] hex_of_nat.simps [of _ "i div 16"] hex_digit_def)

lemma fmt_02X_short: "i < 256 \<Longrightarrow> length (fmt_02X i) = 2 \<and> 47 \<notin> set (fmt_02X i)"
  using hex_digit_facts(3) [of "i div 16"] hex_digit_facts(3) [of "i mod 16"] by (auto simp: fmt_02X_two)

lemma hex_read_as_decimal:
  assumes "i < 256"
  shows "atoi (fmt_02X i) = int i \<longleftrightarrow> i < 10"
proof -
  let ?a = "i div 16" and ?b = "i mod 16"
  have d: "?a < 16" "?b < 16" using assms by simp_all
  have i: "i = 16 * ?a + ?b" by simp
  let ?v = "if ?a < 10 then if ?b < 10 then 10 * int ?a + int ?b else int ?a else 0"
  have "dec_val 0 (fmt_02X i) = ?v" using hex_digit_facts [OF d(1)] hex_digit_facts [OF d(2)] by (simp add: fmt_02X_two [OF assms])
  moreover have "0 \<le> ?v" "?v < 200" using d by auto
  ultimately have "atoi (fmt_02X i) = ?v"
    using hex_digit_facts [OF d(1)] by (simp add: atoi_def atol_def fmt_02X_two [OF assms] clamp_s64_def in_s32_def)
  moreover have "(if a < 10 then if b < 10 then 10 * int a + int b else int a else 0) = int (16 * a + b) \<longleftrightarrow> 16 * a + b < 10" if "b < 16" for a b :: nat
    using that by auto
  ultimately show ?thesis using i d(2) by metis
qed

lemma split_four:
  assumes "47 \<notin> set g" "47 \<notin> set v" "47 \<notin> set x"
    and "length g + length v + length x + length m + 4 < LFS_FILE_ID_SIZE" and "length v + length x + length m + 3 < LFS_FILE_NAME_SIZE"
    and b: "b \<noteq> 47"
  shows "split_block_index (g @ [47] @ v @ [47] @ (b # x) @ [47] @ m) = Some (x, m)"
proof -
  have "snprintf LFS_FILE_ID_SIZE (g @ [47] @ v @ [47] @ (b # x) @ [47] @ m) = g @ 47 # v @ 47 # (b # x) @ 47 # m"
    "snprintf LFS_FILE_NAME_SIZE (v @ 47 # (b # x) @ 47 # m) = v @ 47 # (b # x) @ 47 # m"
    "snprintf LFS_FILE_NAME_SIZE ((b # x) @ 47 # m) = (b # x) @ 47 # m"
    using assms(4,5) by (simp_all add: snprintf_id)
  moreover have "strchr ((b # x) @ 47 # m) 47 = Some (length (b # x))"
    using b assms(3) by (intro strchr_append) simp
  ultimately show ?thesis using assms(1-3) by (simp add: split_block_index_def)
qed


subsection \<open>Witnesses\<close>

definition demo_names :: name_env where
  "demo_names = \<lparr>de_mid = 8, de_name_buff = 64, de_b64 = ds_b64_ctx, de_sid = 7, de_tid = 1, de_group = asc ''G1'', de_volume = asc ''V1''\<rparr>"

definition demo_blocks :: block_mount where
  "demo_blocks = \<lparr>mt_blocks = replicate 16 (new_block (asc ''/d'')), block_total_size_mb = 0, block_free_size_mb = 0,
     mount_count = 16, is_flush = False, is_statistics = False, vfs_calls = 0, block_opt_count = 0\<rparr>"

definition demo_file :: file_ctx where
  "demo_file = (fresh_file_ctx 4 FILE_OP_TYPE_WRITE)\<lparr>f_create_timestamp := 1000, f_total_size := 77, f_mnt_block_index := 11, f_mp_pre := 3, f_mp_suf := 255\<rparr>"

lemma demo_file_pack: "\<exists>f'. file_metedata_pack demo_names demo_blocks demo_file = Some (0, f') \<and> length (Ds_File.f_map_name f') = 66"
proof -
  define b where "b = base64_encode_ex ds_b64_ctx (name_bytes demo_names demo_file) True"
  have n: "length (name_bytes demo_names demo_file) = 44" using length_name_bytes [of demo_names demo_file] by (simp add: demo_names_def)
  have "int (length b) = base64_get_encode_length ds_b64_ctx 44"
    using length_base64_encode_ex [of ds_b64_ctx 0 "name_bytes demo_names demo_file"] n
    by (simp add: b_def ds_b64_ctx_def base64_init_ex_def Let_def)
  also have "\<dots> = 60" by (simp add: base64_get_encode_length_def ds_b64_ctx_def base64_init_ex_def Let_def signed_divide_int_def)
  finally have b: "length b = 60" by simp
  have "fileidname_pack demo_names demo_file = Some (demo_file\<lparr>f_b64_name := b, f_b64_name_len := 60\<rparr>)"
    using n b by (simp add: fileidname_pack_def Let_def LFS_BASE64_BUFF_SIZE_def) (simp add: demo_names_def b_def)
  moreover have "length (fmt_u02X 3) = 2" "length (fmt_u02X 255) = 2" using fmt_02X_short [of 3] fmt_02X_short [of 255] by (simp_all add: fmt_u02X_def)
  ultimately show ?thesis using b
    by (simp add: file_metedata_pack_def mapname_pack_def blockmapname_pack_def blk_at_def demo_blocks_def demo_file_def new_block_def
        LFS_FILE_MAP_NAME_SIZE_def LFS_FILE_BLOCK_MAP_NAME_SIZE_def)
qed

theorem file_name_keeps_metadata_witness:
  "\<exists>f'. file_metedata_pack demo_names demo_blocks demo_file = Some (0, f') \<and>
    file_metedata_unpack demo_names (f_b64_name f') = Some (LFS_OK, \<lparr>fm_create_timestamp = 1000, fm_modify_timestamp = 0, fm_offset = 0, fm_size = 77, fm_crc32 = 0\<rparr>)"
proof -
  obtain f' where f: "file_metedata_pack demo_names demo_blocks demo_file = Some (0, f')" using demo_file_pack by blast
  have "de_b64 demo_names = ds_b64_ctx" "meta_range demo_file"
    by (simp_all add: demo_names_def meta_range_def demo_file_def fresh_file_ctx_def in_s64_def)
  from file_name_keeps_metadata [OF this, of demo_blocks] f show ?thesis by (simp add: demo_file_def fresh_file_ctx_def)
qed


end
