(* ===== verification/Ds_Conn.thy ===== *)
theory Ds_Conn
  imports Ds_File Net_Io
begin

text \<open>
  The connections of the data server (\<open>src/dataserver/ds_conn.c\<close>). A connection has the buffers of a tracker
  connection and, while a file is transferred, a file context. \<open>c_fctx\<close> is whether the pointer to the context is
  set; the context itself is the one of the descriptor of the connection. \<open>c_event_on\<close> is whether libevent
  watches the connection. \<open>world\<close> is one connection together with what its operations change: its context,
  the queues it may be in, the files, the blocks and the logs.
\<close>

subsection \<open>Data\<close>

datatype conn_states = conn_parse_cmd | conn_read | conn_fread | conn_write | conn_fwrite | conn_fsend | conn_waiting | conn_mwrite
  | conn_n2dio | conn_closed

record conn =
  c_sfd :: int
  c_state :: conn_states
  c_nextto :: conn_states
  c_event_flags :: int
  c_event_on :: bool
  c_which :: int
  rbuff :: "byte list"
  rcurr :: nat
  rsize :: nat
  c_alloc_count :: nat
  rbytes :: int
  wbuff :: "byte list"
  wcurr :: nat
  wsize :: nat
  wbytes :: int
  wused :: int
  c_fctx :: bool

text \<open>\<open>w_cq\<close> is the queue of the network thread of the connection, \<open>w_pipe\<close> the number of notifications in the
  pipe of that thread, \<open>w_dioqs t\<close> the queue of disk thread \<open>t\<close>; connections are known by their descriptors.
  \<open>w_recv\<close> and \<open>w_sent\<close> record the bytes of a file that were read from the socket and all bytes that were written to it.\<close>

record world =
  w_conn :: conn
  w_slot :: "file_ctx option"
  w_cq :: "int list"
  w_pipe :: nat
  w_dioqs :: "nat \<Rightarrow> int list"
  w_last_reader_tid :: int
  w_fs :: fsys
  w_mounts :: block_mount
  w_bctx :: binlog_ctx
  w_rbctx :: binlog_ctx
  w_last_sync_sequence :: int
  w_curr_conns :: u32
  w_calls :: nat
  w_recv :: "byte list"
  w_sent :: "byte list"

subsection \<open>Events\<close>

definition event_del :: "sys \<Rightarrow> conn \<Rightarrow> nat \<Rightarrow> int \<times> conn \<times> nat" where
  "event_del sy c k = (sys_event sy k, if sys_event sy k = -1 then c else c\<lparr>c_event_on := False\<rparr>, k + 1)"

definition event_add :: "sys \<Rightarrow> conn \<Rightarrow> nat \<Rightarrow> int \<times> conn \<times> nat" where
  "event_add sy c k = (sys_event sy k, if sys_event sy k = -1 then c else c\<lparr>c_event_on := True\<rparr>, k + 1)"

definition update_conn_event :: "sys \<Rightarrow> int \<Rightarrow> conn \<Rightarrow> nat \<Rightarrow> int \<times> conn \<times> nat" where
  "update_conn_event sy flags c k =
     (if c_event_flags c = flags then (0, c, k)
      else
        let (r, c, k) = event_del sy c k in
        if r = -1 then (-1, c, k)
        else
          let (r, c, k) = event_add sy (c\<lparr>c_event_flags := flags\<rparr>) k in
          (if r = -1 then -1 else 0, c, k))"

definition add_conn_event :: "sys \<Rightarrow> int \<Rightarrow> conn \<Rightarrow> nat \<Rightarrow> int \<times> conn \<times> nat" where
  "add_conn_event sy flags c k =
     (let (r, c, k) = event_add sy (c\<lparr>c_event_flags := flags\<rparr>) k in (if r = -1 then -1 else 0, c, k))"

definition del_conn_event :: "sys \<Rightarrow> conn \<Rightarrow> nat \<Rightarrow> int \<times> conn \<times> nat" where
  "del_conn_event sy c k = (let (r, c, k) = event_del sy c k in (if r = -1 then -1 else 0, c, k))"

subsection \<open>States and buffers\<close>

definition set_conn_state :: "conn_states \<Rightarrow> conn \<Rightarrow> conn" where
  "set_conn_state st c = (if st \<noteq> c_state c then c\<lparr>c_state := st\<rparr> else c)"

definition set_conn_mstate :: "conn_states \<Rightarrow> conn_states \<Rightarrow> conn \<Rightarrow> conn" where
  "set_conn_mstate curr_state next_state c =
     (let c = (if curr_state \<noteq> c_state c then c\<lparr>c_state := curr_state\<rparr> else c) in
      if next_state \<noteq> c_nextto c then c\<lparr>c_nextto := next_state\<rparr> else c)"

definition conn_write_reset :: "conn \<Rightarrow> conn" where
  "conn_write_reset c = c\<lparr>wbuff := replicate (wsize c) 0, wbytes := 0, wused := 0, wcurr := 0\<rparr>"

text \<open>Through the pointer \<open>c->fctx\<close>; without it nothing happens.\<close>

definition with_fctx :: "(file_ctx \<Rightarrow> file_ctx) \<Rightarrow> world \<Rightarrow> world" where
  "with_fctx g w = (if c_fctx (w_conn w) then w\<lparr>w_slot := map_option g (w_slot w)\<rparr> else w)"

definition conn_clean :: "world \<Rightarrow> world" where
  "conn_clean w =
     (let c = (w_conn w)\<lparr>rbytes := 0, wbytes := 0, wused := 0, c_alloc_count := 0, rcurr := 0, wcurr := 0\<rparr> in
      case (if c_fctx c then w_slot w else None) of
        None \<Rightarrow> w\<lparr>w_conn := c\<rparr>
      | Some f \<Rightarrow>
          let (f, fs) = file_ctx_clean f (w_fs w) in
          w\<lparr>w_conn := c\<lparr>c_fctx := False\<rparr>, w_slot := Some f, w_fs := fs\<rparr>)"

definition conn_reset :: "world \<Rightarrow> world" where
  "conn_reset w =
     (let c = w_conn w in
      with_fctx file_ctx_buff_reset (w\<lparr>w_conn := c\<lparr>rbuff := replicate (rsize c) 0, wbuff := replicate (wsize c) 0,
        rbytes := 0, wbytes := 0, wused := 0, c_alloc_count := 0, rcurr := 0, wcurr := 0\<rparr>\<rparr>))"

definition conn_close :: "sys \<Rightarrow> world \<Rightarrow> world" where
  "conn_close sy w =
     (let (r, c, k) = event_del sy (w_conn w) (w_calls w);
          w = conn_clean (w\<lparr>w_conn := c, w_calls := k\<rparr>) in
      w\<lparr>w_conn := set_conn_state conn_closed (w_conn w), w_curr_conns := w_curr_conns w - 1\<rparr>)"

subsection \<open>New connections\<close>

definition fresh_conn :: "int \<Rightarrow> nat \<Rightarrow> nat \<Rightarrow> conn" where
  "fresh_conn sfd rn wn =
     \<lparr>c_sfd = sfd, c_state = conn_parse_cmd, c_nextto = conn_parse_cmd, c_event_flags = 0, c_event_on = False, c_which = 0,
      rbuff = replicate rn 0, rcurr = 0, rsize = rn, c_alloc_count = 0, rbytes = 0,
      wbuff = replicate wn 0, wcurr = 0, wsize = wn, wbytes = 0, wused = 0, c_fctx = False\<rparr>"

text \<open>\<open>slot\<close> is the entry of \<open>conns\<close>; the result is whether a connection was returned, and the entry.\<close>

definition conn_new ::
  "sys \<Rightarrow> int \<Rightarrow> int \<Rightarrow> conn_states \<Rightarrow> nat \<Rightarrow> nat \<Rightarrow> int \<Rightarrow> conn option \<Rightarrow> nat \<Rightarrow> (bool \<times> conn option \<times> nat) option" where
  "conn_new sy max_fds sfd init_state rn wn event_flags slot k =
     (if \<not> (0 \<le> sfd \<and> sfd < max_fds) then None
      else
        let (slot, k) =
          (case slot of
             Some c \<Rightarrow> (Some c, k)
           | None \<Rightarrow>
               if \<not> sys_mem sy k then (None, k + 1)
               else if \<not> sys_mem sy (k + 1) \<or> \<not> sys_mem sy (k + 2) then (None, k + 3)
               else (Some (fresh_conn sfd rn wn), k + 3)) in
        case slot of
          None \<Rightarrow> Some (False, None, k)
        | Some c \<Rightarrow>
            let c = c\<lparr>c_state := init_state, rbytes := 0, wbytes := 0, c_which := 0, wused := 0, c_alloc_count := 0, c_fctx := False,
                      rcurr := 0, wcurr := 0, c_event_flags := event_flags\<rparr>;
                (r, c, k) = event_add sy c k
            in Some (r \<noteq> -1, Some c, k))"

subsection \<open>The queue of connections\<close>

definition conn_queue_push :: "int \<Rightarrow> int list \<Rightarrow> int list" where
  "conn_queue_push sfd q = q @ [sfd]"

definition conn_queue_pop :: "int list \<Rightarrow> int option \<times> int list" where
  "conn_queue_pop q = (case q of [] \<Rightarrow> (None, []) | x # xs \<Rightarrow> (Some x, xs))"

end
