(* ===== verification/Ds_Disk_Io.thy ===== *)
theory Ds_Disk_Io
  imports Ds_Conn
begin

text \<open>
  The disk threads of the data server (\<open>src/dataserver/ds_disk_io.c\<close>). A network thread that has filled the
  buffer of a context, or that wants it filled, takes the connection out of libevent and puts it into the
  queue of a disk thread; that thread moves one buffer between the buffer and the file and hands the
  connection back through the queue and the pipe of the network thread. The threads of the pool are
  numbered with the readers first. The function pointers of a context are called through the argument \<open>cb\<close>.
\<close>

record dio_confs =
  dio_read_threads :: int
  dio_write_threads :: int

type_synonym done_call = "op_done_func \<Rightarrow> int \<Rightarrow> world \<Rightarrow> world option"

subsection \<open>The pool\<close>

definition push_dioq :: "nat \<Rightarrow> world \<Rightarrow> world" where
  "push_dioq t w = w\<lparr>w_dioqs := (w_dioqs w)(t := conn_queue_push (c_sfd (w_conn w)) (w_dioqs w t))\<rparr>"

text \<open>The choice of a thread; the remainder of the source has the sign of the dividend. An index outside of
  the pool and a division by zero give \<open>None\<close>.\<close>

definition c_rem :: "int \<Rightarrow> int \<Rightarrow> int" where
  "c_rem a b = (if 0 \<le> a then a mod \<bar>b\<bar> else - ((- a) mod \<bar>b\<bar>))"

definition dio_thread_pool_polling :: "dio_confs \<Rightarrow> world \<Rightarrow> (int \<times> world) option" where
  "dio_thread_pool_polling cf w = do {
     f \<leftarrow> (if c_fctx (w_conn w) then w_slot w else None);
     case f_op_type f of
       FILE_OP_TYPE_READ \<Rightarrow>
         if dio_read_threads cf \<le> 0 then None
         else
           let tid = (w_last_reader_tid w + 1) mod dio_read_threads cf in
           Some (LFS_OK, push_dioq (nat tid) (w\<lparr>w_last_reader_tid := tid\<rparr>))
     | FILE_OP_TYPE_WRITE \<Rightarrow>
         if dio_write_threads cf \<le> 0 \<or> dio_read_threads cf < 0 then None
         else
           let tid = c_rem (c_sfd (w_conn w) + f_mnt_block_index f) (dio_write_threads cf) in
           if tid < 0 then None else Some (LFS_OK, push_dioq (nat (dio_read_threads cf + tid)) w)
   }"

definition dio_thread_pool_dispatch :: "sys \<Rightarrow> dio_confs \<Rightarrow> world \<Rightarrow> (int \<times> world) option" where
  "dio_thread_pool_dispatch sy cf w =
     (let (r, c, k) = del_conn_event sy (w_conn w) (w_calls w); w = w\<lparr>w_conn := c, w_calls := k\<rparr> in
      if r \<noteq> 0 then Some (r, w) else dio_thread_pool_polling cf w)"

text \<open>\<open>dio_notify_nio\<close>: a failing write to the pipe is only logged.\<close>

definition dio_notify_nio :: "sys \<Rightarrow> conn_states \<Rightarrow> int \<Rightarrow> world \<Rightarrow> world" where
  "dio_notify_nio sy st flags w =
     (let c = (w_conn w)\<lparr>c_state := st, c_event_flags := flags\<rparr> in
      w\<lparr>w_conn := c, w_cq := conn_queue_push (c_sfd c) (w_cq w),
        w_pipe := (if sys_write sy (w_calls w) [100] = W_sent 1 then Suc (w_pipe w) else w_pipe w), w_calls := w_calls w + 1\<rparr>)"

subsection \<open>Files\<close>

definition open_write :: "cstr \<Rightarrow> fsys \<Rightarrow> int \<times> fsys" where
  "open_write p fs =
     (if fs_fail fs then (-1, fs_tick fs)
      else
        let fs = (if fs_files fs p = None then fs\<lparr>fs_files := (fs_files fs)(p \<mapsto> [])\<rparr> else fs) in
        new_fd \<lparr>of_path = p, of_off = 0, of_append = False\<rparr> (fs_tick fs))"

definition open_file :: "int \<Rightarrow> file_ctx \<Rightarrow> fsys \<Rightarrow> int \<times> file_ctx \<times> fsys" where
  "open_file off f fs =
     (if f_fd f \<ge> 0 then (0, f, fs)
      else
        let (fd, fs) = (case f_op_flags f of O_RDONLY \<Rightarrow> open_read (Ds_File.f_block_map_name f) fs
                        | O_WRONLY_CREAT \<Rightarrow> open_write (Ds_File.f_block_map_name f) fs);
            f = f\<lparr>f_fd := fd\<rparr> in
        if fd < 0 then (last_errno fs, f, fs)
        else if off > 0 then
          let (r, fs) = fd_seek_set fd off fs in (if r < 0 then last_errno fs else LFS_OK, f, fs)
        else (LFS_OK, f, fs))"

definition close_file :: "file_ctx \<Rightarrow> fsys \<Rightarrow> file_ctx \<times> fsys" where
  "close_file f fs = (if f_fd f > 0 then (f\<lparr>f_fd := -1\<rparr>, sys_close (f_fd f) fs) else (f, fs))"

text \<open>The end of both functions: the callback, when there is one.\<close>

definition call_op_func :: "done_call \<Rightarrow> int \<Rightarrow> world \<Rightarrow> (int \<times> world) option" where
  "call_op_func cb ret w = do {
     f \<leftarrow> w_slot w;
     case f_op_func f of None \<Rightarrow> Some (ret, w) | Some g \<Rightarrow> do { w \<leftarrow> cb g ret w; Some (ret, w) }
   }"

text \<open>The \<open>do\<close> block of \<open>dio_read\<close>.\<close>

definition dio_read_block :: "sys \<Rightarrow> file_ctx \<Rightarrow> world \<Rightarrow> (int \<times> world) option" where
  "dio_read_block sy f w =
     (if f_offset f \<ge> f_size f then Some (0, w)
      else
        let (r, f, fs) = open_file (f_offset f) f (w_fs w) in
        if r \<noteq> 0 then Some (r, w\<lparr>w_slot := Some f, w_fs := fs\<rparr>)
        else do {
          let n = min (f_buff_size f - f_buff_offset f) (f_size f - f_offset f);
          let (d, fs) = fd_read (f_fd f) (nat n) fs;
          case d of
            None \<Rightarrow> Some (LFS_ERROR, w\<lparr>w_slot := Some f, w_fs := fs\<rparr>)
          | Some bs \<Rightarrow> do {
              b \<leftarrow> put_bytes (f_buff f) (nat (f_buff_offset f)) bs;
              let f = f\<lparr>f_buff := b\<rparr>;
              if int (length bs) \<noteq> n then Some (LFS_ERROR, w\<lparr>w_slot := Some f, w_fs := fs\<rparr>)
              else
                let f = f\<lparr>f_buff_offset := f_buff_offset f + n\<rparr> in
                Some (LFS_OK, dio_notify_nio sy conn_fwrite (EV_WRITE + EV_PERSIST) (w\<lparr>w_slot := Some f, w_fs := fs\<rparr>))
            }
        })"

definition dio_read :: "sys \<Rightarrow> done_call \<Rightarrow> world \<Rightarrow> (int \<times> world) option" where
  "dio_read sy cb w = do {
     f \<leftarrow> (if c_fctx (w_conn w) then w_slot w else None);
     (ret, w) \<leftarrow> dio_read_block sy f w;
     f \<leftarrow> w_slot w;
     let (f, fs) = close_file f (w_fs w);
     call_op_func cb ret (w\<lparr>w_slot := Some f, w_fs := fs\<rparr>)
   }"

definition dio_write_error_cleanup :: "world \<Rightarrow> world option" where
  "dio_write_error_cleanup w = do {
     f \<leftarrow> (if c_fctx (w_conn w) then w_slot w else None);
     if f_fd f > 0 then
       let fs = sys_close (f_fd f) (w_fs w); f = f\<lparr>f_fd := -1\<rparr>;
           fs = (if f_rwoffset f < f_size f then snd (file_unlink f fs) else fs) in
       Some (w\<lparr>w_slot := Some f, w_fs := fs\<rparr>)
     else Some w
   }"

text \<open>The way out of \<open>dio_write\<close> on errors.\<close>

definition dio_write_fail :: "done_call \<Rightarrow> int \<Rightarrow> world \<Rightarrow> (int \<times> world) option" where
  "dio_write_fail cb ret w = do {
     f \<leftarrow> w_slot w;
     w \<leftarrow> (if f_cleanup f then dio_write_error_cleanup w else Some w);
     call_op_func cb ret w
   }"

definition dio_write :: "sys \<Rightarrow> done_call \<Rightarrow> world \<Rightarrow> (int \<times> world) option" where
  "dio_write sy cb w = do {
     f \<leftarrow> (if c_fctx (w_conn w) then w_slot w else None);
     let (r, f, fs) = (if f_fd f < 0 then open_file (f_offset f) f (w_fs w) else (0, f, w_fs w));
     if r \<noteq> 0 then dio_write_fail cb r (w\<lparr>w_slot := Some f, w_fs := fs\<rparr>)
     else do {
       bs \<leftarrow> get_bytes (f_buff f) 0 (nat (f_buff_offset f));
       let (n, fs) = fd_write (f_fd f) bs fs;
       if n \<noteq> f_buff_offset f then dio_write_fail cb LFS_ERROR (w\<lparr>w_slot := Some f, w_fs := fs\<rparr>)
       else
         let f = f\<lparr>f_offset := f_offset f + n, f_total_offset := f_total_offset f + n\<rparr> in
         if f_offset f < f_size f then
           Some (LFS_OK, dio_notify_nio sy conn_fread (EV_READ + EV_PERSIST) (w\<lparr>w_slot := Some (file_ctx_buff_reset f), w_fs := fs\<rparr>))
         else
           let (f, fs) = close_file f fs in
           do { (_, w) \<leftarrow> call_op_func cb LFS_OK (w\<lparr>w_slot := Some f, w_fs := fs\<rparr>); Some (LFS_OK, w) }
     }
   }"

text \<open>A disk thread takes the first connection of its queue and calls the function of its context. Here the
  connection of the world is the one at the head.\<close>

definition run_dio_func :: "sys \<Rightarrow> done_call \<Rightarrow> world \<Rightarrow> (int \<times> world) option" where
  "run_dio_func sy cb w = do {
     f \<leftarrow> (if c_fctx (w_conn w) then w_slot w else None);
     g \<leftarrow> f_dio_func f;
     (case g of Dio_read \<Rightarrow> dio_read sy cb w | Dio_write \<Rightarrow> dio_write sy cb w)
   }"

subsection \<open>The threads\<close>

text \<open>A disk thread and the threads that give it work, one atomic action at a time. \<open>__dio_thread_entry\<close> waits for a
  signal, empties its queue and waits again; \<open>dio_thread_pool_polling\<close> puts a connection into the queue and then
  signals, without the mutex of the waiting thread. A signal that finds no thread waiting has no effect.
  \<open>dt_signals\<close> is the number of threads between the two actions, \<open>dt_run\<close> the connections served so far.\<close>

datatype dio_pc = Popping | Before_wait | In_wait

record dio_thread =
  dt_pc :: dio_pc
  dt_q :: "int list"
  dt_signals :: nat
  dt_run :: "int list"

definition dio_thread_start :: dio_thread where
  "dio_thread_start = \<lparr>dt_pc = Before_wait, dt_q = [], dt_signals = 0, dt_run = []\<rparr>"

datatype dio_action = Push int | Signal | Pop_conn | Find_empty | Wait

fun dio_thread_step :: "dio_action \<Rightarrow> dio_thread \<Rightarrow> dio_thread option" where
  "dio_thread_step (Push c) t = Some (t\<lparr>dt_q := conn_queue_push c (dt_q t), dt_signals := Suc (dt_signals t)\<rparr>)"
| "dio_thread_step Signal t =
     (if dt_signals t = 0 then None
      else Some (t\<lparr>dt_signals := dt_signals t - 1, dt_pc := (if dt_pc t = In_wait then Popping else dt_pc t)\<rparr>))"
| "dio_thread_step Pop_conn t =
     (case conn_queue_pop (dt_q t) of
        (Some c, q) \<Rightarrow> if dt_pc t = Popping then Some (t\<lparr>dt_q := q, dt_run := dt_run t @ [c]\<rparr>) else None
      | (None, q) \<Rightarrow> None)"
| "dio_thread_step Find_empty t = (if dt_pc t = Popping \<and> dt_q t = [] then Some (t\<lparr>dt_pc := Before_wait\<rparr>) else None)"
| "dio_thread_step Wait t = (if dt_pc t = Before_wait then Some (t\<lparr>dt_pc := In_wait\<rparr>) else None)"

primrec dio_thread_run :: "dio_action list \<Rightarrow> dio_thread \<Rightarrow> dio_thread option" where
  "dio_thread_run [] t = Some t"
| "dio_thread_run (a # as) t = do { t \<leftarrow> dio_thread_step a t; dio_thread_run as t }"

primrec pushed :: "dio_action list \<Rightarrow> int list" where
  "pushed [] = []"
| "pushed (a # as) = (case a of Push c \<Rightarrow> c # pushed as | _ \<Rightarrow> pushed as)"

lemma dio_step_order: "dio_thread_step a t = Some t' \<Longrightarrow> dt_run t' @ dt_q t' = dt_run t @ dt_q t @ pushed [a]"
  by (cases a) (auto simp: conn_queue_push_def conn_queue_pop_def split: if_splits list.splits)

lemma dio_run_order: "dio_thread_run as t = Some t' \<Longrightarrow> dt_run t' @ dt_q t' = dt_run t @ dt_q t @ pushed as"
proof (induction as arbitrary: t)
  case (Cons a as)
  then obtain t1 where t: "dio_thread_step a t = Some t1" "dio_thread_run as t1 = Some t'" by (auto simp: bind_eq_Some_conv)
  have "pushed (a # as) = pushed [a] @ pushed as" by (cases a) simp_all
  then show ?case using Cons.IH [OF t(2)] dio_step_order [OF t(1)] by simp
qed simp

text \<open>A thread that waits while its queue is not empty and no signal is on its way stays so until the next
  connection arrives.\<close>

definition dio_stuck :: "dio_thread \<Rightarrow> bool" where
  "dio_stuck t \<longleftrightarrow> dt_pc t = In_wait \<and> dt_q t \<noteq> [] \<and> dt_signals t = 0"

lemma dio_stuck_no_step: "dio_stuck t \<Longrightarrow> dio_thread_step a t = Some t' \<Longrightarrow> \<exists>c. a = Push c"
  by (cases a) (auto simp: dio_stuck_def conn_queue_pop_def split: list.splits)

subsection \<open>Properties\<close>

text \<open>C22: Under every interleaving a disk thread serves the connections in the order in which they were given to
  it, but it may miss a signal: a connection that is queued between the moment in which the thread finds its
  queue empty and the moment in which it waits is not served, however long one waits, until another
  connection is given to the same thread.\<close>

theorem dio_thread_loses_wakeup:
  "(\<forall>as t. dio_thread_run as dio_thread_start = Some t \<longrightarrow> dt_run t @ dt_q t = pushed as) \<and>
   (\<exists>as t. dio_thread_run as dio_thread_start = Some t \<and> pushed as = [c, c'] \<and> dt_run t = [c] \<and> dt_q t = [c'] \<and> dio_stuck t) \<and>
   (\<forall>t a t'. dio_stuck t \<longrightarrow> dio_thread_step a t = Some t' \<longrightarrow> (\<exists>c. a = Push c))"
proof (intro conjI allI impI)
  show "dt_run t @ dt_q t = pushed as" if "dio_thread_run as dio_thread_start = Some t" for as t
    using dio_run_order [OF that] by (simp add: dio_thread_start_def)
  let ?as = "[Wait, Push c, Signal, Pop_conn, Find_empty, Push c', Signal, Wait]"
  show "\<exists>as t. dio_thread_run as dio_thread_start = Some t \<and> pushed as = [c, c'] \<and> dt_run t = [c] \<and> dt_q t = [c'] \<and> dio_stuck t"
    by (intro exI [of _ ?as]) (simp add: dio_thread_start_def conn_queue_push_def conn_queue_pop_def dio_stuck_def)
  show "\<exists>c. a = Push c" if "dio_stuck t" "dio_thread_step a t = Some t'" for t a t'
    using dio_stuck_no_step that by blast
qed

theorem dio_thread_loses_wakeup_witness:
  "\<exists>t. dio_thread_run [Wait, Push 5, Signal, Pop_conn] dio_thread_start = Some t \<and> dt_run t @ dt_q t = [5]"
proof -
  have "\<exists>t. dio_thread_run [Wait, Push 5, Signal, Pop_conn] dio_thread_start = Some t"
    by (simp add: dio_thread_start_def conn_queue_push_def conn_queue_pop_def)
  then obtain t where t: "dio_thread_run [Wait, Push 5, Signal, Pop_conn] dio_thread_start = Some t" by blast
  from conjunct1 [OF dio_thread_loses_wakeup, rule_format, OF t] t show ?thesis by simp
qed

end
