(* ===== verification/Ds_Service.thy ===== *)
theory Ds_Service
  imports Ds_Disk_Io Crc32
begin

text \<open>
  The command handlers of the data server and the functions that run when a disk thread has finished
  (\<open>src/dataserver/ds_service.c\<close>). A handler reads the body of the request at \<open>rcurr\<close>, sets up a file context and
  chooses the next state of the connection; it returns the code of the error that is to be sent, or zero.
  The response to an upload has a member \<open>file_b64_id_len\<close> that the header does not define: its layout is the
  argument \<open>e_upload_resp\<close>. The clock and the random numbers are arguments, too.
\<close>

record ds_env =
  e_names :: name_env
  e_vfs :: vfs
  e_low :: "int \<Rightarrow> int \<Rightarrow> bool"
  e_bconfs :: block_confs
  e_dio :: dio_confs
  e_max_fds :: int
  e_time :: "nat \<Rightarrow> int"
  e_rand :: "nat \<Rightarrow> u64"
  e_upload_resp :: layout

definition DEFAULT_FILE_BUFF_SIZE :: int where "DEFAULT_FILE_BUFF_SIZE = 64 * 1024"

definition FILE_OP_TYPE_CREATE_FILE :: byte where "FILE_OP_TYPE_CREATE_FILE = 67"

subsection \<open>Access to requests and responses\<close>

definition req_str :: "nat \<Rightarrow> conn \<Rightarrow> cstr option" where
  "req_str off c = cstr_at (rbuff c) (rcurr c + off)"

definition req_long :: "nat \<Rightarrow> conn \<Rightarrow> int option" where
  "req_long off c = get_long (rbuff c) (rcurr c + off)"

definition req_int4 :: "nat \<Rightarrow> conn \<Rightarrow> int option" where
  "req_int4 off c = map_option (\<lambda>b. sint (buff2int b)) (get_bytes (rbuff c) (rcurr c + off) 4)"

definition put_resp :: "nat \<Rightarrow> byte list \<Rightarrow> conn \<Rightarrow> conn option" where
  "put_resp off bs c = do { b \<leftarrow> put_bytes (wbuff c) off bs; Some (c\<lparr>wbuff := b\<rparr>) }"

text \<open>The header of a response; the handlers of the full synchronisation leave the state byte as it is.\<close>

definition set_resp_header :: "nat \<Rightarrow> byte \<Rightarrow> byte option \<Rightarrow> conn \<Rightarrow> conn option" where
  "set_resp_header n cmd st c = do {
     old \<leftarrow> get_header (wbuff c);
     b \<leftarrow> put_header (wbuff c) \<lparr>body_len = of_nat n, h_cmd = cmd, h_state = (case st of None \<Rightarrow> h_state old | Some s \<Rightarrow> s)\<rparr>;
     Some (c\<lparr>wbuff := b, wbytes := int header_size\<rparr>)
   }"

definition resp_header :: "byte \<Rightarrow> conn \<Rightarrow> conn option" where
  "resp_header code c = do { h \<leftarrow> get_header (rbuff c); set_resp_header 0 (h_cmd h) (Some code) c }"

definition upd_conn :: "(conn \<Rightarrow> conn option) \<Rightarrow> world \<Rightarrow> world option" where
  "upd_conn g w = do { c \<leftarrow> g (w_conn w); Some (w\<lparr>w_conn := c\<rparr>) }"

definition handle_protocol_error :: "byte \<Rightarrow> conn \<Rightarrow> conn option" where
  "handle_protocol_error code c = do { c \<leftarrow> resp_header code c; Some (set_conn_state conn_write c) }"

definition handle_protocol_ack :: "conn_states \<Rightarrow> conn_states \<Rightarrow> conn \<Rightarrow> conn option" where
  "handle_protocol_ack st next_st c = do {
     c \<leftarrow> resp_header (status_code RS_SUCCESS) c;
     Some ((set_conn_state st c)\<lparr>c_nextto := next_st\<rparr>)
   }"

text \<open>A response with a code and no body, handed to the network thread.\<close>

definition answer :: "sys \<Rightarrow> protocol_resp_status \<Rightarrow> world \<Rightarrow> world option" where
  "answer sy st w = do { w \<leftarrow> upd_conn (resp_header (status_code st)) w; Some (dio_notify_nio sy conn_write (EV_WRITE + EV_PERSIST) w) }"

subsection \<open>The end of a transfer\<close>

definition sys_rename :: "cstr \<Rightarrow> cstr \<Rightarrow> fsys \<Rightarrow> int \<times> fsys" where
  "sys_rename old new fs =
     (case fs_files fs old of
        None \<Rightarrow> (-1, fs_tick fs)
      | Some d \<Rightarrow> if fs_fail fs then (-1, fs_tick fs) else (0, fs_tick (fs\<lparr>fs_files := ((fs_files fs)(old := None))(new \<mapsto> d)\<rparr>)))"

definition create_record :: "file_ctx \<Rightarrow> cstr" where
  "create_record f = snprintf BINLOG_RECORD_SIZE
     (fmt_d (f_create_timestamp f) @ [SPLITSYMBOL, FILE_OP_TYPE_CREATE_FILE, SPLITSYMBOL] @ Ds_File.f_id f @ [10])"

text \<open>The last part of \<open>file_upload_done_callback\<close>: the record of the log and the response with the identifier.\<close>

definition upload_record :: "sys \<Rightarrow> ds_env \<Rightarrow> file_ctx \<Rightarrow> world \<Rightarrow> world option" where
  "upload_record sy e f w = do {
     (ret, bctx, fs) \<leftarrow> binlog_write (e_time e (w_calls w)) (create_record f) (w_bctx w) (w_fs w);
     let w = w\<lparr>w_bctx := bctx, w_fs := fs\<rparr>;
     if ret \<noteq> 0 then answer sy RS_ERROR_BINLOG_WRITE w
     else do {
       let l = e_upload_resp e;
       let id = base64_encode_ex (de_b64 (e_names e)) (Ds_File.f_id f) True;
       w \<leftarrow> upd_conn (set_resp_header (size_of l) (cmd_code CMD_FILE_UPLOAD) (Some (status_code RS_SUCCESS))) w;
       w \<leftarrow> upd_conn (put_resp (header_size + field_off l ''file_b64_id'') (id @ [0])) w;
       w \<leftarrow> upd_conn (put_resp (header_size + field_off l ''file_b64_id_len'') (int2buff (of_nat (length id)))) w;
       w \<leftarrow> upd_conn (\<lambda>c. Some (c\<lparr>wbytes := wbytes c + int (size_of l)\<rparr>)) w;
       Some (dio_notify_nio sy conn_write (EV_WRITE + EV_PERSIST) w)
     }
   }"

text \<open>The middle part: the file gets its final name, which holds the time and the checksum. The time is the one
  that \<open>stat\<close> reports or the one of the clock; both are an answer of the environment.\<close>

definition upload_finish :: "sys \<Rightarrow> ds_env \<Rightarrow> file_ctx \<Rightarrow> world \<Rightarrow> world option" where
  "upload_finish sy e f w = do {
     let old = Ds_File.f_block_map_name f;
     let f = f\<lparr>f_create_timestamp := e_time e (w_calls w), f_crc32 := get_file_crc32_value (fs_files (w_fs w) old)\<rparr>;
     (ret, f) \<leftarrow> file_metedata_pack (e_names e) (w_mounts w) f;
     let w = w\<lparr>w_slot := Some f\<rparr>;
     if ret \<noteq> 0 then answer sy RS_ERROR_FILEMETEDATA_PACK w
     else do {
       let (r, fs) = sys_rename old (Ds_File.f_block_map_name f) (w_fs w);
       let w = w\<lparr>w_fs := fs\<rparr>;
       if r \<noteq> 0 then answer sy RS_ERROR_FILEMETEDATA_PACK w else upload_record sy e f w
     }
   }"

definition file_upload_done_callback :: "sys \<Rightarrow> ds_env \<Rightarrow> int \<Rightarrow> world \<Rightarrow> world option" where
  "file_upload_done_callback sy e err_no w = do {
     f \<leftarrow> (if c_fctx (w_conn w) then w_slot w else None);
     if err_no \<noteq> 0 then answer sy RS_ERROR_DIO_WRITE_DISK w
     else if f_total_offset f \<ge> f_total_size f then upload_finish sy e f w
     else if f_offset f \<ge> f_size f then do {
       w \<leftarrow> upd_conn (resp_header (status_code RS_SUCCESS)) w;
       Some (dio_notify_nio sy conn_write (EV_WRITE + EV_PERSIST) (w\<lparr>w_slot := Some (file_ctx_reset f)\<rparr>))
     }
     else Some w
   }"

definition asyncfile_done_callback :: "sys \<Rightarrow> ds_env \<Rightarrow> int \<Rightarrow> world \<Rightarrow> world option" where
  "asyncfile_done_callback sy e err_no w = do {
     f \<leftarrow> (if c_fctx (w_conn w) then w_slot w else None);
     if err_no \<noteq> 0 then answer sy RS_ERROR_DIO_WRITE_DISK w
     else do {
       (ret, rbctx, fs) \<leftarrow> binlog_write (e_time e (w_calls w)) (create_record f) (w_rbctx w) (w_fs w);
       let w = w\<lparr>w_rbctx := rbctx, w_fs := fs\<rparr>;
       if ret \<noteq> 0 then answer sy RS_ERROR_BINLOG_WRITE w
       else do {
         w \<leftarrow> upd_conn (set_resp_header 0 (cmd_code CMD_ASYNC_COPY_FILE) (Some (status_code RS_SUCCESS))) w;
         let w = (if f_create_timestamp f > w_last_sync_sequence w then w\<lparr>w_last_sync_sequence := f_create_timestamp f\<rparr> else w);
         Some (dio_notify_nio sy conn_write (EV_WRITE + EV_PERSIST) w)
       }
     }
   }"

definition file_download_done_callback :: "sys \<Rightarrow> int \<Rightarrow> world \<Rightarrow> world option" where
  "file_download_done_callback sy err_no w = (if err_no \<noteq> 0 then answer sy RS_ERROR_FILE_DOWNLOAD_DIO w else Some w)"

definition op_func_call :: "sys \<Rightarrow> ds_env \<Rightarrow> done_call" where
  "op_func_call sy e g ret w =
     (case g of
        File_upload_done \<Rightarrow> file_upload_done_callback sy e ret w
      | Asyncfile_done \<Rightarrow> asyncfile_done_callback sy e ret w
      | File_download_done \<Rightarrow> file_download_done_callback sy ret w)"

subsection \<open>Handlers\<close>

type_synonym handler = "sys \<Rightarrow> ds_env \<Rightarrow> world \<Rightarrow> (byte \<times> world) option"

definition ok :: byte where "ok = status_code RS_SUCCESS"

text \<open>\<open>file_ctx_new\<close> for the connection; the first element is whether there is a context.\<close>

definition new_fctx :: "sys \<Rightarrow> ds_env \<Rightarrow> file_op_type \<Rightarrow> world \<Rightarrow> (bool \<times> world) option" where
  "new_fctx sy e opt w = do {
     let k = w_calls w;
     (r, slot) \<leftarrow> file_ctx_new (sys_mem sy k) (sys_mem sy (k + 1)) (e_max_fds e) (c_sfd (w_conn w)) DEFAULT_FILE_BUFF_SIZE opt (w_slot w);
     Some (r, w\<lparr>w_slot := slot, w_conn := (w_conn w)\<lparr>c_fctx := r\<rparr>, w_calls := k + 2\<rparr>)
   }"

text \<open>\<open>handle_cmd_fileupload\<close>, its second half first: the request is read into the context.\<close>

definition upload_ctx :: "ds_env \<Rightarrow> nat \<Rightarrow> cstr \<Rightarrow> int \<Rightarrow> int \<Rightarrow> file_ctx \<Rightarrow> file_ctx" where
  "upload_ctx e k name sz tot f =
     f\<lparr>f_orginl_name := name, f_offset := 0, f_size := sz, f_total_size := tot, f_op_flags := O_WRONLY_CREAT,
       f_crc32 := e_rand e k, f_create_timestamp := e_time e k, f_modify_timestamp := e_time e (k + 1),
       f_dio_func := Some Dio_write, f_op_func := Some File_upload_done, f_cleanup := True\<rparr>"

definition upload_start :: "ds_env \<Rightarrow> file_ctx \<Rightarrow> world \<Rightarrow> (byte \<times> world) option" where
  "upload_start e f w = do {
     let l = lfs_fileupload_req;
     name \<leftarrow> req_str (field_off l ''file_name'') (w_conn w);
     sz \<leftarrow> req_long (field_off l ''file_size'') (w_conn w);
     tot \<leftarrow> req_long (field_off l ''file_total_size'') (w_conn w);
     if length name > LFS_FILE_NAME_SIZE then None
     else do {
       (ret, f) \<leftarrow> file_metedata_pack (e_names e) (w_mounts w) (upload_ctx e (w_calls w) name sz tot f);
       let w = w\<lparr>w_slot := Some f, w_calls := w_calls w + 2\<rparr>;
       if ret \<noteq> 0 then Some (status_code RS_ERROR_FILEMETEDATA_PACK, w)
       else Some (ok, w\<lparr>w_conn := set_conn_state conn_fread (w_conn w)\<rparr>)
     }
   }"

definition handle_cmd_fileupload :: handler where
  "handle_cmd_fileupload sy e w = do {
     (r, w) \<leftarrow> new_fctx sy e FILE_OP_TYPE_WRITE w;
     if \<not> r then Some (status_code RS_ERROR_MEMORY, w)
     else do {
       f \<leftarrow> w_slot w;
       (ret, (ix, pre, suf), m) \<leftarrow> mount_block_map_polling (e_vfs e) (e_low e) (e_bconfs e) (c_sfd (w_conn w))
         (f_mnt_block_index f, f_mp_pre f, f_mp_suf f) (w_mounts w);
       let f = f\<lparr>f_mnt_block_index := ix, f_mp_pre := pre, f_mp_suf := suf\<rparr>;
       let w = w\<lparr>w_mounts := m, w_slot := Some f\<rparr>;
       if ret \<noteq> 0 then Some (status_code RS_ERROR_MOUNT_BLOCK_MAP_INFO, w) else upload_start e f w
     }
   }"

text \<open>\<open>handle_cmd_filedownload\<close>, its second half first: the requested offset is checked but not stored.\<close>

definition download_start :: "int \<Rightarrow> int \<Rightarrow> file_ctx \<Rightarrow> world \<Rightarrow> (byte \<times> world) option" where
  "download_start file_offset download_size f w =
     (if file_offset < 0 then Some (status_code RS_ERROR_FILEDOWNLOAD_OFFSET_INVALID, w)
      else if download_size \<le> 0 then Some (status_code RS_ERROR_FILEDOWNLOAD_SIZE_INVALID, w)
      else if file_offset \<noteq> 0 \<and> download_size \<ge> file_offset then Some (status_code RS_ERROR_FILEDOWNLOAD_SIZE_INVALID, w)
      else do {
        let f = f\<lparr>f_size := download_size, f_op_flags := O_RDONLY, f_dio_func := Some Dio_read, f_op_func := Some File_download_done\<rparr>;
        w \<leftarrow> upd_conn (handle_protocol_ack conn_mwrite conn_n2dio) (w\<lparr>w_slot := Some f\<rparr>);
        Some (ok, w)
      })"

definition handle_cmd_filedownload :: handler where
  "handle_cmd_filedownload sy e w = do {
     (r, w) \<leftarrow> new_fctx sy e FILE_OP_TYPE_READ w;
     if \<not> r then Some (status_code RS_ERROR_MEMORY, w)
     else do {
       f \<leftarrow> w_slot w;
       let l = lfs_filedownload_req;
       file_offset \<leftarrow> req_long (field_off l ''file_offset'') (w_conn w);
       download_size \<leftarrow> req_long (field_off l ''download_size'') (w_conn w);
       ix \<leftarrow> req_long (field_off l ''mnt_block_index'') (w_conn w);
       name \<leftarrow> req_str (field_off l ''file_map_name'') (w_conn w);
       b \<leftarrow> blk_at (w_mounts w) (to_s32 ix);
       let s = mount_path b @ [47] @ name;
       if length name \<ge> LFS_FILE_MAP_NAME_SIZE \<or> length s \<ge> LFS_FILE_BLOCK_MAP_NAME_SIZE then None
       else do {
         let f = f\<lparr>f_mnt_block_index := to_s32 ix, Ds_File.f_map_name := name, Ds_File.f_block_map_name := s\<rparr>;
         download_start file_offset download_size f (w\<lparr>w_slot := Some f\<rparr>)
       }
     }
   }"

text \<open>\<open>handle_cmd_asynccopyfile\<close>: an identifier without three separators makes the macro return \<open>LFS_ERROR\<close>.\<close>

definition handle_cmd_asynccopyfile :: handler where
  "handle_cmd_asynccopyfile sy e w = do {
     (r, w) \<leftarrow> new_fctx sy e FILE_OP_TYPE_READ w;
     if \<not> r then Some (status_code RS_ERROR_MEMORY, w)
     else do {
       f \<leftarrow> w_slot w;
       ts \<leftarrow> req_long 0 (w_conn w);
       len8 \<leftarrow> req_long 8 (w_conn w);
       let len = to_s32 len8;
       if len < 0 \<or> int LFS_FILE_ID_SIZE \<le> len then None
       else do {
         idb \<leftarrow> get_bytes (rbuff (w_conn w)) (rcurr (w_conn w) + 16) (nat len);
         size \<leftarrow> req_long (16 + nat len) (w_conn w);
         let id = cstr_of (idb @ [0]);
         let f = f\<lparr>f_create_timestamp := ts, Ds_File.f_id := id, f_size := size\<rparr>;
         case split_block_index id of
           None \<Rightarrow> Some (-1, w\<lparr>w_slot := Some f\<rparr>)
         | Some (pblock_index, map_name) \<Rightarrow> do {
             b \<leftarrow> blk_at (w_mounts w) (atoi pblock_index);
             let s = mount_path b @ [47] @ map_name;
             if length s \<ge> LFS_FILE_BLOCK_MAP_NAME_SIZE then None
             else
               let f = f\<lparr>Ds_File.f_block_map_name := s, f_op_flags := O_WRONLY_CREAT, f_dio_func := Some Dio_write,
                         f_op_func := Some Asyncfile_done, f_cleanup := True\<rparr> in
               Some (ok, w\<lparr>w_slot := Some f, w_conn := set_conn_state conn_fread (w_conn w)\<rparr>)
           }
       }
     }
   }"

definition handle_cmd_getmasterbinlogmete :: handler where
  "handle_cmd_getmasterbinlogmete sy e w = do {
     w \<leftarrow> upd_conn (set_resp_header 8 (cmd_code CMD_FULL_SYNC_GET_MASTER_BINLOG_METE) (Some (status_code RS_SUCCESS))) w;
     w \<leftarrow> upd_conn (put_resp header_size (int2buff (word_of_int (curr_binlog_file_index (w_bctx w) + 1)))) w;
     w \<leftarrow> upd_conn (put_resp (header_size + 4) (int2buff (word_of_int (curr_binlog_file_index (w_rbctx w) + 1)))) w;
     Some (ok, w\<lparr>w_conn := set_conn_state conn_write ((w_conn w)\<lparr>wbytes := wbytes (w_conn w) + 8\<rparr>)\<rparr>)
   }"

text \<open>The answer of both handlers that send a whole file: its length, and then the file.\<close>

definition send_file :: "protocol_cmd \<Rightarrow> int \<Rightarrow> world \<Rightarrow> (byte \<times> world) option" where
  "send_file cmd n w = do {
     w \<leftarrow> upd_conn (set_resp_header 8 (cmd_code cmd) None) w;
     w \<leftarrow> upd_conn (put_resp header_size (long2buff (word_of_int n))) w;
     Some (ok, w\<lparr>w_conn := set_conn_mstate conn_mwrite conn_fsend ((w_conn w)\<lparr>wbytes := wbytes (w_conn w) + 8\<rparr>)\<rparr>)
   }"

text \<open>\<open>stat\<close> returns -1 for every error, which is never \<open>ENOENT\<close>. It fails for a name that is neither a file nor
  a directory, and by the choice of the system.\<close>

definition stat_size :: "cstr \<Rightarrow> fsys \<Rightarrow> int option \<times> fsys" where
  "stat_size p fs =
     (if fs_fail fs \<or> \<not> fileExists p fs then (None, fs_tick fs)
      else (Some (case fs_files fs p of None \<Rightarrow> 4096 | Some d \<Rightarrow> int (length d)), fs_tick fs))"

definition handle_cmd_copymasterbinlog :: handler where
  "handle_cmd_copymasterbinlog sy e w = do {
     bindex \<leftarrow> req_int4 0 (w_conn w);
     btype \<leftarrow> req_int4 4 (w_conn w);
     boffset \<leftarrow> req_long 8 (w_conn w);
     if btype \<noteq> 0 \<and> btype \<noteq> 1 then Some (status_code RS_ERROR_SYNC_NO_BINLOGTYPE, w)
     else do {
       let b_fn = BINLOG_FILENAME (binlog_file_name (if btype = 0 then w_bctx w else w_rbctx w)) bindex;
       (r, w) \<leftarrow> new_fctx sy e FILE_OP_TYPE_READ w;
       if \<not> r then Some (status_code RS_ERROR_MEMORY, w)
       else do {
         f \<leftarrow> w_slot w;
         let (sz, fs) = stat_size b_fn (w_fs w);
         let w = w\<lparr>w_fs := fs\<rparr>;
         case sz of
           None \<Rightarrow> Some (status_code RS_ERROR_SYNC_STAT_BINLOGFILE, w)
         | Some n \<Rightarrow>
             send_file CMD_FULL_SYNC_COPY_MASTER_BINLOG (n - boffset)
               (w\<lparr>w_slot := Some (f\<lparr>f_path_name := b_fn, f_size := n - boffset, f_offset := boffset\<rparr>)\<rparr>)
       }
     }
   }"

definition handle_cmd_copymasterdata :: handler where
  "handle_cmd_copymasterdata sy e w = do {
     (r, w) \<leftarrow> new_fctx sy e FILE_OP_TYPE_READ w;
     if \<not> r then Some (status_code RS_ERROR_MEMORY, w)
     else do {
       f \<leftarrow> w_slot w;
       sfnlen \<leftarrow> req_int4 0 (w_conn w);
       if sfnlen < 0 \<or> int MAX_PATH_SIZE \<le> sfnlen then None
       else do {
         pb \<leftarrow> get_bytes (rbuff (w_conn w)) (rcurr (w_conn w) + 4) (nat sfnlen);
         let p = cstr_of (pb @ [0]);
         let (sz, fs) = stat_size p (w_fs w);
         let w = w\<lparr>w_fs := fs, w_slot := Some (f\<lparr>f_path_name := p\<rparr>)\<rparr>;
         case sz of
           None \<Rightarrow> Some (status_code RS_ERROR_SYNC_STAT_DATAFILE, w)
         | Some n \<Rightarrow>
             send_file CMD_FULL_SYNC_COPY_MASTER_DATA n (w\<lparr>w_slot := Some (f\<lparr>f_path_name := p, f_size := n, f_offset := 0\<rparr>)\<rparr>)
       }
     }
   }"

end
