(* ===== verification/Ds_Network_Io.thy ===== *)
theory Ds_Network_Io
  imports Ds_Service
begin

text \<open>
  The network threads of the data server (\<open>src/dataserver/ds_network_io.c\<close>): reading a request, moving the bytes of
  a file between the socket and the buffer of the context, writing responses, and the state machine that
  drives a connection. The last part puts the network thread, the disk thread and the pipe between them
  together: \<open>conn_step\<close> is one step of any of them on a connection.
\<close>

definition MAX_PACKAGE_DATA_SIZE :: int where "MAX_PACKAGE_DATA_SIZE = 8 * 1024"

datatype network_read_result = READ_SOFT_ERROR | READ_HARD_ERROR | READ_DATA_RECEIVED | READ_NO_DATA_RECEIVED | READ_COMPLETE | READ_INCOMPLETE

datatype network_write_result = WRITE_SOFT_ERROR | WRITE_HARD_ERROR | WRITE_COMPLETE | WRITE_INCOMPLETE

subsection \<open>Reading a request\<close>

text \<open>Every call asks for a whole header, also when a part of it is there already.\<close>

partial_function (option) network_read_header :: "sys \<Rightarrow> conn \<Rightarrow> nat \<Rightarrow> (network_read_result \<times> conn \<times> nat) option" where
  [code]: "network_read_header sy c k =
     (case sys_read sy k header_size of
        R_data bs \<Rightarrow>
          if bs = [] then Some (READ_HARD_ERROR, c, k + 1)
          else do {
            rb \<leftarrow> put_bytes (rbuff c) (rcurr c + nat (rbytes c)) bs;
            let c = c\<lparr>rbuff := rb, rbytes := rbytes c + int (length bs)\<rparr>;
            if rbytes c = int header_size then Some (READ_DATA_RECEIVED, c, k + 1) else network_read_header sy c (k + 1)
          }
      | R_again \<Rightarrow> Some (READ_NO_DATA_RECEIVED, c, k + 1)
      | R_error \<Rightarrow> Some (READ_HARD_ERROR, c, k + 1))"

text \<open>The buffer is doubled when it is full, at most twice; a call asks for all that is missing of the body,
  whether it fits into the buffer or not. A negative size is a huge one for \<open>read\<close>: it may write anywhere.\<close>

definition grow_rbuff :: "conn \<Rightarrow> nat \<Rightarrow> conn \<times> nat" where
  "grow_rbuff c k =
     (if rbytes c \<ge> int (rsize c)
      then (c\<lparr>c_alloc_count := Suc (c_alloc_count c), rbuff := rbuff c @ replicate (rsize c) 0, rcurr := 0, rsize := rsize c * 2\<rparr>, k + 1)
      else (c, k))"

partial_function (option) network_body_loop :: "sys \<Rightarrow> int \<Rightarrow> conn \<Rightarrow> nat \<Rightarrow> (network_read_result \<times> conn \<times> nat) option" where
  [code]: "network_body_loop sy blen c k =
     (if rbytes c \<ge> int (rsize c) \<and> c_alloc_count c = 2 then Some (READ_NO_DATA_RECEIVED, c, k)
      else if rbytes c \<ge> int (rsize c) \<and> \<not> sys_mem sy k then do {
        c \<leftarrow> handle_protocol_error (status_code RS_ERROR_MEMORY) (c\<lparr>c_alloc_count := Suc (c_alloc_count c), rbytes := 0\<rparr>);
        Some (READ_SOFT_ERROR, c, k + 1)
      }
      else do {
        let (c, k) = grow_rbuff c k;
        let avail = to_s32 (blen - (rbytes c - int header_size));
        if avail < 0 then None
        else (case sys_read sy k (nat avail) of
          R_data bs \<Rightarrow>
            if bs = [] then Some (READ_HARD_ERROR, c, k + 1)
            else do {
              rb \<leftarrow> put_bytes (rbuff c) (rcurr c + nat (rbytes c)) bs;
              let c = c\<lparr>rbuff := rb, rbytes := rbytes c + int (length bs)\<rparr>;
              if rbytes c = blen + int header_size then Some (READ_DATA_RECEIVED, c, k + 1) else network_body_loop sy blen c (k + 1)
            }
        | R_again \<Rightarrow> Some (READ_NO_DATA_RECEIVED, c, k + 1)
        | R_error \<Rightarrow> Some (READ_HARD_ERROR, c, k + 1))
      })"

text \<open>The length of the body is a signed number here; a length with the highest bit set is negative.\<close>

definition network_read_body :: "sys \<Rightarrow> conn \<Rightarrow> nat \<Rightarrow> (network_read_result \<times> conn \<times> nat) option" where
  "network_read_body sy c k = do {
     h \<leftarrow> get_header (rbuff c);
     let blen = sint (body_len h);
     if blen > MAX_PACKAGE_DATA_SIZE then do {
       c \<leftarrow> handle_protocol_error (status_code RS_ERROR_PACKAGESIZE_OVERFLOW) c;
       Some (READ_SOFT_ERROR, c, k)
     }
     else network_body_loop sy blen c k
   }"

definition network_read :: "sys \<Rightarrow> conn \<Rightarrow> nat \<Rightarrow> (network_read_result \<times> conn \<times> nat) option" where
  "network_read sy c k = (if rbytes c < int header_size then network_read_header sy c k else network_read_body sy c k)"

subsection \<open>Moving the bytes of a file\<close>

text \<open>\<open>__network_fread\<close>: a call asks for as much as the buffer holds, whatever is left of the file. An error other
  than \<open>EAGAIN\<close> is tried again. The result has the bytes that were read.\<close>

partial_function (option) network_fread ::
  "sys \<Rightarrow> conn \<Rightarrow> file_ctx \<Rightarrow> byte list \<Rightarrow> nat \<Rightarrow> (network_read_result \<times> conn \<times> file_ctx \<times> byte list \<times> nat) option" where
  [code]: "network_fread sy c f rd k =
     (if f_rwoffset f \<ge> f_size f \<or> f_buff_offset f \<ge> f_buff_size f then Some (READ_COMPLETE, c, f, rd, k)
      else do {
        let avail = nat (f_buff_size f - f_buff_offset f);
        case sys_read sy k avail of
          R_data bs \<Rightarrow>
            if bs = [] then Some (READ_HARD_ERROR, c, f, rd, k + 1)
            else do {
              b \<leftarrow> put_bytes (f_buff f) (nat (f_buff_offset f)) bs;
              let n = int (length bs);
              let f = f\<lparr>f_buff := b, f_buff_offset := f_buff_offset f + n, f_rwoffset := f_rwoffset f + n\<rparr>;
              if length bs = avail then network_fread sy c f (rd @ bs) (k + 1) else Some (READ_COMPLETE, c, f, rd @ bs, k + 1)
            }
        | R_again \<Rightarrow>
            let (r, c, k) = update_conn_event sy (EV_READ + EV_PERSIST) c (k + 1) in
            Some (if r \<noteq> 0 then READ_HARD_ERROR else READ_INCOMPLETE, c, f, rd, k)
        | R_error \<Rightarrow> network_fread sy c f rd (k + 1)
      })"

text \<open>The number of bytes that a call took, \<open>None\<close> for an error and for none.\<close>

definition sent_count :: "write_result \<Rightarrow> nat option" where
  "sent_count r = (case r of W_sent n \<Rightarrow> if n > 0 then Some n else None | _ \<Rightarrow> None)"

text \<open>The end of \<open>__network_write_noblock\<close> and of \<open>__network_fwrite\<close> when nothing could be written.\<close>

definition write_later :: "sys \<Rightarrow> write_result \<Rightarrow> conn \<Rightarrow> nat \<Rightarrow> network_write_result \<times> conn \<times> nat" where
  "write_later sy r c k =
     (case r of
        W_again \<Rightarrow> let (r, c, k) = update_conn_event sy (EV_WRITE + EV_PERSIST) c k in (if r \<noteq> 0 then WRITE_SOFT_ERROR else WRITE_INCOMPLETE, c, k)
      | _ \<Rightarrow> (WRITE_HARD_ERROR, c, k))"

partial_function (option) network_write_noblock ::
  "sys \<Rightarrow> conn \<Rightarrow> byte list \<Rightarrow> nat \<Rightarrow> (network_write_result \<times> conn \<times> byte list \<times> nat) option" where
  [code]: "network_write_noblock sy c out k =
     (let c = c\<lparr>wcurr := nat (wused c)\<rparr>; remain = wbytes c - wused c in
      if remain > 0 then do {
        bs \<leftarrow> get_bytes (wbuff c) (nat (wused c)) (nat remain);
        case sent_count (sys_write sy k bs) of
          Some n \<Rightarrow> network_write_noblock sy (c\<lparr>wused := wused c + int n\<rparr>) (out @ take n bs) (k + 1)
        | None \<Rightarrow> let (st, c, k) = write_later sy (sys_write sy k bs) c (k + 1) in Some (st, c, out, k)
      }
      else Some (WRITE_COMPLETE, c, out, k))"

partial_function (option) network_fwrite ::
  "sys \<Rightarrow> conn \<Rightarrow> file_ctx \<Rightarrow> byte list \<Rightarrow> nat \<Rightarrow> (network_write_result \<times> conn \<times> file_ctx \<times> byte list \<times> nat) option" where
  [code]: "network_fwrite sy c f out k =
     (let remain = f_buff_offset f - f_rwoffset f in
      if remain > 0 then do {
        bs \<leftarrow> get_bytes (f_buff f) (nat (f_rwoffset f)) (nat remain);
        case sent_count (sys_write sy k bs) of
          Some n \<Rightarrow>
            network_fwrite sy c (f\<lparr>f_rwoffset := f_rwoffset f + int n, f_offset := f_offset f + int n,
              f_total_offset := f_total_offset f + int n\<rparr>) (out @ take n bs) (k + 1)
        | None \<Rightarrow> let (st, c, k) = write_later sy (sys_write sy k bs) c (k + 1) in Some (st, c, f, out, k)
      }
      else Some (WRITE_COMPLETE, c, f, out, k))"

text \<open>\<open>__network_fsend\<close>: the loop over \<open>sendfile\<close>, in blocking mode; it ends at the end of the file and on errors, and
  the result does not say which. The outcome of the three calls of \<open>fcntl\<close> is an answer of the system.\<close>

partial_function (option) sendfile_loop :: "sys \<Rightarrow> byte list \<Rightarrow> int \<Rightarrow> int \<Rightarrow> byte list \<Rightarrow> nat \<Rightarrow> (byte list \<times> nat) option" where
  [code]: "sendfile_loop sy d off remain out k =
     (if remain > 0 then
        let bs = (if off < 0 then [] else take (nat remain) (drop (nat off) d)) in
        case (if bs = [] then None else sent_count (sys_write sy k bs)) of
          Some n \<Rightarrow> sendfile_loop sy d (off + int n) (remain - int n) (out @ take n bs) (k + 1)
        | None \<Rightarrow> Some (out, k + 1)
      else Some (out, k))"

definition network_fsend :: "sys \<Rightarrow> file_ctx \<Rightarrow> fsys \<Rightarrow> byte list \<Rightarrow> nat \<Rightarrow> (network_write_result \<times> fsys \<times> byte list \<times> nat) option" where
  "network_fsend sy f fs out k =
     (let (fd, fs) = open_read (f_path_name f) fs in
      if fd < 0 then Some (WRITE_HARD_ERROR, fs, out, k)
      else if sys_event sy k = -1 \<or> sys_event sy (k + 1) = -1 then Some (WRITE_HARD_ERROR, sys_close fd fs, out, k + 2)
      else do {
        d \<leftarrow> fs_files fs (f_path_name f);
        (out, k) \<leftarrow> sendfile_loop sy d (f_offset f) (f_size f) out (k + 2);
        Some (if sys_event sy k = -1 then WRITE_HARD_ERROR else WRITE_COMPLETE, sys_close fd fs, out, k + 1)
      })"

subsection \<open>Requests\<close>

definition cmd_handler :: "byte \<Rightarrow> handler" where
  "cmd_handler cmd sy e w =
     (if cmd = cmd_code CMD_FILE_UPLOAD then handle_cmd_fileupload sy e w
      else if cmd = cmd_code CMD_FILE_DOWNLOAD then handle_cmd_filedownload sy e w
      else if cmd = cmd_code CMD_ASYNC_COPY_FILE then handle_cmd_asynccopyfile sy e w
      else if cmd = cmd_code CMD_FULL_SYNC_GET_MASTER_BINLOG_METE then handle_cmd_getmasterbinlogmete sy e w
      else if cmd = cmd_code CMD_FULL_SYNC_COPY_MASTER_BINLOG then handle_cmd_copymasterbinlog sy e w
      else if cmd = cmd_code CMD_FULL_SYNC_COPY_MASTER_DATA then handle_cmd_copymasterdata sy e w
      else Some (ok, w))"

definition dispatch_cmd :: "sys \<Rightarrow> ds_env \<Rightarrow> byte \<Rightarrow> world \<Rightarrow> world option" where
  "dispatch_cmd sy e cmd w = do {
     (st, w) \<leftarrow> cmd_handler cmd sy e w;
     if st \<noteq> 0 then upd_conn (handle_protocol_error st) w else Some w
   }"

definition parse_protocol_cmd :: "sys \<Rightarrow> ds_env \<Rightarrow> world \<Rightarrow> (int \<times> world) option" where
  "parse_protocol_cmd sy e w =
     (let c = w_conn w in
      if \<not> rbytes c > 0 then None
      else if rbytes c < int header_size then Some (0, w)
      else do {
        h \<leftarrow> get_header (rbuff c);
        if rbytes c - int header_size \<ge> uint (body_len h) then do {
          w \<leftarrow> dispatch_cmd sy e (h_cmd h) (w\<lparr>w_conn := c\<lparr>rbytes := rbytes c - int header_size, rcurr := header_size\<rparr>\<rparr>);
          Some (1, w)
        }
        else Some (0, w)
      })"

subsection \<open>The state machine\<close>

definition goto :: "conn_states \<Rightarrow> world \<Rightarrow> world" where
  "goto st w = w\<lparr>w_conn := set_conn_state st (w_conn w)\<rparr>"

text \<open>One round of the loop; the first element of the result is the flag that ends it. In the state \<open>conn_waiting\<close> a
  connection whose event cannot be changed is marked as closed and then reads on. The case \<open>WRITE_SUCCESS\<close> of the
  source does not occur.\<close>

definition machine_step :: "sys \<Rightarrow> ds_env \<Rightarrow> world \<Rightarrow> (bool \<times> world) option" where
  "machine_step sy e w =
     (let c = w_conn w; k = w_calls w in
      case c_state c of
        conn_waiting \<Rightarrow>
          let (r, c, k) = update_conn_event sy (EV_READ + EV_PERSIST) c k in
          Some (True, goto conn_read (w\<lparr>w_conn := c, w_calls := k\<rparr>))
      | conn_read \<Rightarrow> do {
          (ret, c, k) \<leftarrow> network_read sy c k;
          let w = w\<lparr>w_conn := c, w_calls := k\<rparr>;
          Some (False, case ret of READ_NO_DATA_RECEIVED \<Rightarrow> goto conn_waiting w | READ_DATA_RECEIVED \<Rightarrow> goto conn_parse_cmd w
                       | READ_HARD_ERROR \<Rightarrow> goto conn_closed w | READ_SOFT_ERROR \<Rightarrow> goto conn_closed w | _ \<Rightarrow> w)
        }
      | conn_fread \<Rightarrow> do {
          f \<leftarrow> (if c_fctx c then w_slot w else None);
          (ret, c, f, rd, k) \<leftarrow> network_fread sy c f [] k;
          let w = w\<lparr>w_conn := c, w_slot := Some f, w_recv := w_recv w @ rd, w_calls := k\<rparr>;
          Some (case ret of READ_COMPLETE \<Rightarrow> (False, goto conn_n2dio w) | READ_INCOMPLETE \<Rightarrow> (True, w)
                | READ_HARD_ERROR \<Rightarrow> (False, goto conn_closed w) | READ_SOFT_ERROR \<Rightarrow> (False, goto (c_nextto c) w) | _ \<Rightarrow> (False, w))
        }
      | conn_parse_cmd \<Rightarrow> do {
          (ret, w) \<leftarrow> parse_protocol_cmd sy e w;
          Some (False, if ret = 0 then goto conn_waiting w else w)
        }
      | conn_write \<Rightarrow> do {
          (ret, c, out, k) \<leftarrow> network_write_noblock sy c (w_sent w) k;
          let w = w\<lparr>w_conn := c, w_sent := out, w_calls := k\<rparr>;
          Some (case ret of WRITE_COMPLETE \<Rightarrow> (False, goto conn_waiting (conn_reset w)) | WRITE_INCOMPLETE \<Rightarrow> (True, w)
                | _ \<Rightarrow> (False, goto conn_closed w))
        }
      | conn_fwrite \<Rightarrow> do {
          f \<leftarrow> (if c_fctx c then w_slot w else None);
          (ret, c, f, out, k) \<leftarrow> network_fwrite sy c f (w_sent w) k;
          let w = w\<lparr>w_conn := c, w_slot := Some f, w_sent := out, w_calls := k\<rparr>;
          Some (case ret of WRITE_COMPLETE \<Rightarrow> (False, goto conn_n2dio (conn_reset w)) | WRITE_INCOMPLETE \<Rightarrow> (True, w)
                | _ \<Rightarrow> (False, goto conn_closed w))
        }
      | conn_fsend \<Rightarrow> do {
          f \<leftarrow> (if c_fctx c then w_slot w else None);
          (ret, fs, out, k) \<leftarrow> network_fsend sy f (w_fs w) (w_sent w) k;
          let w = w\<lparr>w_fs := fs, w_sent := out, w_calls := k\<rparr>;
          Some (case ret of WRITE_COMPLETE \<Rightarrow> (False, goto conn_waiting (conn_reset w)) | WRITE_INCOMPLETE \<Rightarrow> (False, w)
                | _ \<Rightarrow> (False, goto conn_closed w))
        }
      | conn_mwrite \<Rightarrow> do {
          (ret, c, out, k) \<leftarrow> network_write_noblock sy c (w_sent w) k;
          let w = w\<lparr>w_conn := c, w_sent := out, w_calls := k\<rparr>;
          Some (case ret of WRITE_COMPLETE \<Rightarrow> (False, goto (c_nextto c) (w\<lparr>w_conn := conn_write_reset c\<rparr>)) | WRITE_INCOMPLETE \<Rightarrow> (True, w)
                | _ \<Rightarrow> (False, goto conn_closed w))
        }
      | conn_n2dio \<Rightarrow> do {
          (ret, w) \<leftarrow> dio_thread_pool_dispatch sy (e_dio e) w;
          Some (if ret \<noteq> 0 then (False, goto conn_closed w) else (True, w))
        }
      | conn_closed \<Rightarrow> Some (True, conn_close sy w))"

partial_function (option) state_machine :: "sys \<Rightarrow> ds_env \<Rightarrow> world \<Rightarrow> world option" where
  [code]: "state_machine sy e w = do {
     (flag, w) \<leftarrow> machine_step sy e w;
     if flag then Some w else state_machine sy e w
   }"

definition event_handler_callback :: "sys \<Rightarrow> ds_env \<Rightarrow> int \<Rightarrow> int \<Rightarrow> world \<Rightarrow> world option" where
  "event_handler_callback sy e fd which w =
     (let c = (w_conn w)\<lparr>c_which := which\<rparr>; w = w\<lparr>w_conn := c\<rparr> in
      if fd \<noteq> c_sfd c then Some (conn_close sy w) else state_machine sy e w)"

text \<open>The case \<open>'d'\<close> of \<open>__libevent_thread_callback\<close>, for a queue whose first connection is the one of the world.\<close>

definition notify_callback :: "sys \<Rightarrow> world \<Rightarrow> world option" where
  "notify_callback sy w =
     (case conn_queue_pop (w_cq w) of
        (None, q) \<Rightarrow> None
      | (Some x, q) \<Rightarrow>
          let w = w\<lparr>w_cq := q, w_pipe := w_pipe w - 1\<rparr> in
          if x \<noteq> c_sfd (w_conn w) then Some w
          else let (r, c, k) = add_conn_event sy (c_event_flags (w_conn w)) (w_conn w) (w_calls w) in Some (w\<lparr>w_conn := c, w_calls := k\<rparr>))"

subsection \<open>All threads together\<close>

text \<open>A step of a connection: libevent starts the state machine, the machine makes a round, a disk thread or the
  reader of the pipe takes the connection from a queue, or other connections move in the queues. The first
  component of a state is whether the network thread is in the state machine.\<close>

definition mine :: "world \<Rightarrow> int list \<Rightarrow> int list" where
  "mine w q = filter (\<lambda>x. x = c_sfd (w_conn w)) q"

inductive conn_step :: "sys \<Rightarrow> ds_env \<Rightarrow> bool \<times> world \<Rightarrow> bool \<times> world \<Rightarrow> bool" for sy e where
  event: "c_event_on (w_conn w) \<Longrightarrow> conn_step sy e (False, w) (True, w\<lparr>w_conn := (w_conn w)\<lparr>c_which := which\<rparr>\<rparr>)"
| round: "machine_step sy e w = Some (flag, w') \<Longrightarrow> conn_step sy e (True, w) (\<not> flag, w')"
| disk: "w_dioqs w t = c_sfd (w_conn w) # q \<Longrightarrow> run_dio_func sy (op_func_call sy e) (w\<lparr>w_dioqs := (w_dioqs w)(t := q)\<rparr>) = Some (r, w') \<Longrightarrow>
    conn_step sy e (b, w) (b, w')"
| notify: "w_pipe w > 0 \<Longrightarrow> notify_callback sy w = Some w' \<Longrightarrow> conn_step sy e (b, w) (b, w')"
| others: "mine w q = mine w (w_cq w) \<Longrightarrow> (\<forall>t. mine w (qs t) = mine w (w_dioqs w t)) \<Longrightarrow>
    conn_step sy e (b, w) (b, w\<lparr>w_cq := q, w_dioqs := qs, w_pipe := p\<rparr>)"

inductive_cases conn_stepE: "conn_step sy e (b, w) s'"

lemma state_machine_steps:
  assumes "state_machine sy e w = Some w'"
  shows "(conn_step sy e)\<^sup>*\<^sup>* (True, w) (False, w')"
proof -
  let ?P = "\<lambda>w w'. (conn_step sy e)\<^sup>*\<^sup>* (True, w) (False, w')"
  show ?thesis
  proof (rule state_machine.raw_induct [where P = "\<lambda>sy' e' w w'. sy' = sy \<longrightarrow> e' = e \<longrightarrow> ?P w w'", OF _ assms, rule_format], goal_cases)
    case (1 rec sy' e' w w')
    then obtain flag w1 where m: "machine_step sy e w = Some (flag, w1)" "(if flag then Some w1 else rec sy e w1) = Some w'"
      by (auto simp: bind_eq_Some_conv)
    have s: "conn_step sy e (True, w) (\<not> flag, w1)" by (rule conn_step.round [OF m(1)])
    show ?case
    proof (cases flag)
      case True
      then show ?thesis using s m(2) by auto
    next
      case False
      then have "?P w1 w'" using 1(1) m(2) by simp
      then show ?thesis using s False by (auto intro: converse_rtranclp_into_rtranclp)
    qed
  qed simp_all
qed

end
