(* ===== verification/Ds_Keeps.thy ===== *)
theory Ds_Keeps
  imports Ds_Network_Io
begin

text \<open>
  What the operations of the data server keep of a connection and of its file context: the sizes of the
  buffers, the descriptor, the queues and the event of the connection.
\<close>

subsection \<open>Well-formed connections\<close>

definition conn_wf :: "conn \<Rightarrow> bool" where
  "conn_wf c \<longleftrightarrow> length (rbuff c) = rsize c \<and> length (wbuff c) = wsize c"

text \<open>A context that is read from disk has the callback of downloads, which does not hand the connection over a
  second time.\<close>

definition fctx_wf :: "file_ctx \<Rightarrow> bool" where
  "fctx_wf f \<longleftrightarrow> length (f_buff f) = nat (f_buff_size f) \<and> (f_dio_func f = Some Dio_read \<longrightarrow> f_op_func f = Some File_download_done)"

definition world_wf :: "world \<Rightarrow> bool" where
  "world_wf w \<longleftrightarrow> conn_wf (w_conn w) \<and> (\<forall>f. w_slot w = Some f \<longrightarrow> fctx_wf f)"

text \<open>\<open>ckeeps\<close>, \<open>fkeeps\<close>: what the operations keep of a connection and of a context.\<close>

definition ckeeps :: "conn \<Rightarrow> conn \<Rightarrow> bool" where
  "ckeeps c c' \<longleftrightarrow> c_sfd c' = c_sfd c \<and> (conn_wf c \<longrightarrow> conn_wf c')"

definition fkeeps :: "file_ctx \<Rightarrow> file_ctx \<Rightarrow> bool" where
  "fkeeps f f' \<longleftrightarrow> f_dio_func f' = f_dio_func f \<and> f_op_func f' = f_op_func f \<and> f_buff_size f' = f_buff_size f \<and> length (f_buff f') = length (f_buff f)"

lemma ckeeps_refl [simp]: "ckeeps c c" and fkeeps_refl [simp]: "fkeeps f f"
  by (simp_all add: ckeeps_def fkeeps_def)

lemma ckeeps_trans: "ckeeps c c1 \<Longrightarrow> ckeeps c1 c2 \<Longrightarrow> ckeeps c c2"
  by (simp add: ckeeps_def)

lemma fkeeps_trans: "fkeeps f f1 \<Longrightarrow> fkeeps f1 f2 \<Longrightarrow> fkeeps f f2"
  by (simp add: fkeeps_def)

lemma fkeeps_wf: "fkeeps f f' \<Longrightarrow> fctx_wf f \<Longrightarrow> fctx_wf f'"
  by (simp add: fkeeps_def fctx_wf_def)

text \<open>Responses.\<close>

lemma set_resp_header_keeps: "set_resp_header n cmd st c = Some c' \<Longrightarrow> ckeeps c c' \<and> c_event_on c' = c_event_on c"
  by (auto simp: set_resp_header_def bind_eq_Some_conv ckeeps_def conn_wf_def dest: put_header_length)

lemma resp_header_keeps: "resp_header code c = Some c' \<Longrightarrow> ckeeps c c' \<and> c_event_on c' = c_event_on c"
  by (auto simp: resp_header_def bind_eq_Some_conv dest: set_resp_header_keeps)

lemma put_resp_keeps: "put_resp off bs c = Some c' \<Longrightarrow> ckeeps c c' \<and> c_event_on c' = c_event_on c"
  by (auto simp: put_resp_def bind_eq_Some_conv ckeeps_def conn_wf_def dest: put_bytes_length)

lemma ds_set_conn_state_simps [simp]:
  "c_sfd (set_conn_state st c) = c_sfd c" "c_event_on (set_conn_state st c) = c_event_on c" "c_fctx (set_conn_state st c) = c_fctx c"
  "c_state (set_conn_state st c) = st" "conn_wf (set_conn_state st c) = conn_wf c" "rbuff (set_conn_state st c) = rbuff c"
  "wbuff (set_conn_state st c) = wbuff c" "wbytes (set_conn_state st c) = wbytes c" "wused (set_conn_state st c) = wused c"
  by (simp_all add: set_conn_state_def conn_wf_def)

lemma set_conn_state_keeps [simp]: "ckeeps c (set_conn_state st c)"
  by (simp add: ckeeps_def)

lemma handle_protocol_error_keeps: "handle_protocol_error code c = Some c' \<Longrightarrow> ckeeps c c'"
  by (auto simp: handle_protocol_error_def bind_eq_Some_conv ckeeps_def dest!: resp_header_keeps)

lemma handle_protocol_ack_keeps: "handle_protocol_ack st nx c = Some c' \<Longrightarrow> ckeeps c c'"
  by (auto simp: handle_protocol_ack_def bind_eq_Some_conv ckeeps_def conn_wf_def set_conn_state_def dest!: resp_header_keeps)

text \<open>Events.\<close>

lemma update_conn_event_simps:
  "c_sfd (fst (snd (update_conn_event sy fl c k))) = c_sfd c" "conn_wf (fst (snd (update_conn_event sy fl c k))) = conn_wf c"
  by (simp_all add: update_conn_event_def event_del_def event_add_def conn_wf_def Let_def)

lemma update_conn_event_keeps: "update_conn_event sy fl c k = (r, c', k') \<Longrightarrow> ckeeps c c'"
  using update_conn_event_simps [of sy fl c k] by (simp add: ckeeps_def)

subsection \<open>Reading and writing\<close>

lemma network_read_header_keeps:
  assumes "network_read_header sy c k = Some res"
  shows "ckeeps c (fst (snd res))"
proof (rule network_read_header.raw_induct [where P = "\<lambda>sy c k res. ckeeps c (fst (snd res))", OF _ assms], goal_cases)
  case (1 rec sy c k res)
  show ?case
  proof (cases "sys_read sy k header_size")
    case (R_data bs)
    show ?thesis
    proof (cases "bs = []")
      case False
      then obtain rb where rb: "put_bytes (rbuff c) (rcurr c + nat (rbytes c)) bs = Some rb" using 1(2) R_data by (auto simp: bind_eq_Some_conv)
      let ?c = "c\<lparr>rbuff := rb, rbytes := rbytes c + int (length bs)\<rparr>"
      have "ckeeps c ?c" using put_bytes_length [OF rb] by (simp add: ckeeps_def conn_wf_def)
      then show ?thesis using 1 R_data False rb ckeeps_trans by (auto simp: Let_def split: if_splits)
    qed (use 1(2) R_data in auto)
  qed (use 1(2) in auto)
qed

lemma grow_rbuff_keeps: "grow_rbuff c k = (c', k') \<Longrightarrow> ckeeps c c'"
  by (auto simp: grow_rbuff_def ckeeps_def conn_wf_def split: if_splits)

lemma network_body_loop_keeps:
  assumes "network_body_loop sy blen c k = Some res"
  shows "ckeeps c (fst (snd res))"
proof (rule network_body_loop.raw_induct [where P = "\<lambda>sy blen c k res. ckeeps c (fst (snd res))", OF _ assms], goal_cases)
  case (1 rec sy blen c k res)
  obtain c1 k1 where g: "grow_rbuff c k = (c1, k1)" by fastforce
  note c1 = grow_rbuff_keeps [OF g]
  let ?n = "to_s32 (blen - (rbytes c1 - int header_size))"
  have z: "ckeeps c (c\<lparr>c_alloc_count := i, rbytes := 0\<rparr>)" for i by (simp add: ckeeps_def conn_wf_def)
  show ?case
  proof (cases "rbytes c \<ge> int (rsize c) \<and> (c_alloc_count c = 2 \<or> \<not> sys_mem sy k)")
    case True
    then show ?thesis using 1(2)
      by (auto simp: bind_eq_Some_conv split: if_splits dest!: handle_protocol_error_keeps intro: ckeeps_trans [OF z])
  next
    case False
    show ?thesis
    proof (cases "sys_read sy k1 (nat ?n)")
      case (R_data bs)
      show ?thesis
      proof (cases "bs = []")
        case True
        then show ?thesis using 1(2) False g c1 R_data by (auto simp: Let_def split: if_splits)
      next
        case ne: False
        then obtain rb where rb: "put_bytes (rbuff c1) (rcurr c1 + nat (rbytes c1)) bs = Some rb" using 1(2) False g R_data by (auto simp: bind_eq_Some_conv Let_def split: if_splits)
        let ?c = "c1\<lparr>rbuff := rb, rbytes := rbytes c1 + int (length bs)\<rparr>"
        have "ckeeps c1 ?c" using put_bytes_length [OF rb] by (simp add: ckeeps_def conn_wf_def)
        then have "ckeeps c ?c" using c1 ckeeps_trans by blast
        then show ?thesis using 1 False g R_data ne rb ckeeps_trans by (auto simp: Let_def split: if_splits)
      qed
    qed (use 1(2) False g c1 in \<open>auto simp: Let_def split: if_splits\<close>)
  qed
qed

lemma network_read_keeps:
  assumes "network_read sy c k = Some (r, c', k')"
  shows "ckeeps c c'"
proof (cases "rbytes c < int header_size")
  case True
  then show ?thesis using network_read_header_keeps [of sy c k "(r, c', k')"] assms by (simp add: network_read_def)
next
  case False
  then obtain h where h: "get_header (rbuff c) = Some h" using assms by (auto simp: network_read_def network_read_body_def bind_eq_Some_conv)
  show ?thesis
  proof (cases "sint (body_len h) > MAX_PACKAGE_DATA_SIZE")
    case True
    then show ?thesis using False h assms by (auto simp: network_read_def network_read_body_def bind_eq_Some_conv dest: handle_protocol_error_keeps)
  next
    case le: False
    then show ?thesis using False h assms network_body_loop_keeps [of sy "sint (body_len h)" c k "(r, c', k')"]
      by (simp add: network_read_def network_read_body_def)
  qed
qed

lemma network_fread_keeps:
  assumes "network_fread sy c f rd k = Some res"
  shows "ckeeps c (fst (snd res)) \<and> fkeeps f (fst (snd (snd res)))"
proof (rule network_fread.raw_induct [where P = "\<lambda>sy c f rd k res. ckeeps c (fst (snd res)) \<and> fkeeps f (fst (snd (snd res)))", OF _ assms], goal_cases)
  case (1 rec sy c f rd k res)
  let ?n = "nat (f_buff_size f - f_buff_offset f)"
  show ?case
  proof (cases "f_rwoffset f \<ge> f_size f \<or> f_buff_offset f \<ge> f_buff_size f")
    case True
    then show ?thesis using 1(2) by (auto split: if_splits)
  next
    case False
    show ?thesis
    proof (cases "sys_read sy k ?n")
      case (R_data bs)
      show ?thesis
      proof (cases "bs = []")
        case True
        then show ?thesis using 1(2) False R_data by (auto simp: Let_def split: if_splits)
      next
        case ne: False
        then obtain b where b: "put_bytes (f_buff f) (nat (f_buff_offset f)) bs = Some b"
          using 1(2) False R_data by (auto simp: bind_eq_Some_conv Let_def split: if_splits)
        let ?f = "f\<lparr>f_buff := b, f_buff_offset := f_buff_offset f + int (length bs), f_rwoffset := f_rwoffset f + int (length bs)\<rparr>"
        have "fkeeps f ?f" using put_bytes_length [OF b] by (simp add: fkeeps_def)
        then show ?thesis using 1 False R_data ne b fkeeps_trans by (auto simp: Let_def split: if_splits)
      qed
    next
      case R_again
      then show ?thesis using 1(2) False update_conn_event_keeps by (auto simp: Let_def split: if_splits prod.splits)
    next
      case R_error
      then show ?thesis using 1 False by (auto simp: Let_def split: if_splits)
    qed
  qed
qed

lemma write_later_keeps: "write_later sy r c k = (st, c', k') \<Longrightarrow> ckeeps c c'"
  by (auto simp: write_later_def Let_def dest: update_conn_event_keeps split: write_result.splits prod.splits)

lemma wcurr_keeps: "ckeeps c (c\<lparr>wcurr := i\<rparr>)" "ckeeps c (c\<lparr>wcurr := i, wused := j\<rparr>)"
  by (simp_all add: ckeeps_def conn_wf_def)

lemma network_write_noblock_keeps:
  assumes "network_write_noblock sy c out k = Some res"
  shows "ckeeps c (fst (snd res))"
proof (rule network_write_noblock.raw_induct [where P = "\<lambda>sy c out k res. ckeeps c (fst (snd res))", OF _ assms], goal_cases)
  case (1 rec sy c out k res)
  then obtain bs where bs: "wbytes c - wused c > 0 \<Longrightarrow> get_bytes (wbuff c) (nat (wused c)) (nat (wbytes c - wused c)) = Some bs"
    by (auto simp: bind_eq_Some_conv Let_def split: if_splits)
  show ?case
  proof (cases "sent_count (sys_write sy k bs)")
    case None
    then show ?thesis using 1(2) bs wcurr_keeps
      by (auto simp: Let_def split: if_splits prod.splits dest!: write_later_keeps intro: ckeeps_trans [OF wcurr_keeps(1)])
  next
    case (Some n)
    then show ?thesis using 1(2) bs wcurr_keeps by (auto simp: Let_def split: if_splits dest!: 1(1) intro: ckeeps_trans [OF wcurr_keeps(2)])
  qed
qed

lemma network_fwrite_keeps:
  assumes "network_fwrite sy c f out k = Some res"
  shows "ckeeps c (fst (snd res)) \<and> fkeeps f (fst (snd (snd res)))"
proof (rule network_fwrite.raw_induct [where P = "\<lambda>sy c f out k res. ckeeps c (fst (snd res)) \<and> fkeeps f (fst (snd (snd res)))", OF _ assms], goal_cases)
  case (1 rec sy c f out k res)
  then obtain bs where bs: "f_buff_offset f - f_rwoffset f > 0 \<Longrightarrow> get_bytes (f_buff f) (nat (f_rwoffset f)) (nat (f_buff_offset f - f_rwoffset f)) = Some bs"
    by (auto simp: bind_eq_Some_conv Let_def split: if_splits)
  have k: "fkeeps f (f\<lparr>f_rwoffset := i, f_offset := j, f_total_offset := l\<rparr>)" for i j l by (simp add: fkeeps_def)
  show ?case
  proof (cases "sent_count (sys_write sy k bs)")
    case None
    then show ?thesis using 1(2) bs by (auto simp: Let_def split: if_splits prod.splits dest!: write_later_keeps)
  next
    case (Some n)
    then show ?thesis using 1(2) bs by (auto simp: Let_def split: if_splits dest!: 1(1) intro: fkeeps_trans [OF k])
  qed
qed

subsection \<open>Handlers\<close>

text \<open>\<open>wkeeps w w'\<close>: the connection stays in the same queues and the world stays well-formed.\<close>

definition same_queues :: "world \<Rightarrow> world \<Rightarrow> bool" where
  "same_queues w w' \<longleftrightarrow> c_sfd (w_conn w') = c_sfd (w_conn w) \<and> w_cq w' = w_cq w \<and> w_dioqs w' = w_dioqs w"

definition wkeeps :: "world \<Rightarrow> world \<Rightarrow> bool" where
  "wkeeps w w' \<longleftrightarrow> same_queues w w' \<and> (world_wf w \<longrightarrow> world_wf w')"

lemma wkeeps_refl [simp]: "wkeeps w w"
  by (simp add: wkeeps_def same_queues_def)

lemma wkeeps_trans: "wkeeps w w1 \<Longrightarrow> wkeeps w1 w2 \<Longrightarrow> wkeeps w w2"
  by (simp add: wkeeps_def same_queues_def)

lemma wkeeps_conn: "ckeeps (w_conn w) c \<Longrightarrow> wkeeps w (w\<lparr>w_conn := c\<rparr>)"
  by (simp add: wkeeps_def same_queues_def ckeeps_def world_wf_def)

lemma wkeeps_slot: "fctx_wf f \<Longrightarrow> wkeeps w (w\<lparr>w_slot := Some f\<rparr>)"
  by (simp add: wkeeps_def same_queues_def world_wf_def)

lemma wkeeps_slot': "w_slot w = Some f \<Longrightarrow> fkeeps f f' \<Longrightarrow> wkeeps w (w\<lparr>w_slot := Some f'\<rparr>)"
  using fkeeps_wf by (simp add: wkeeps_def same_queues_def world_wf_def)

lemma wkeeps_other:
  "wkeeps w (w\<lparr>w_fs := x\<rparr>)" "wkeeps w (w\<lparr>w_mounts := m\<rparr>)" "wkeeps w (w\<lparr>w_calls := k\<rparr>)" "wkeeps w (w\<lparr>w_bctx := b\<rparr>)" "wkeeps w (w\<lparr>w_rbctx := b\<rparr>)"
  "wkeeps w (w\<lparr>w_last_sync_sequence := i\<rparr>)" "wkeeps w (w\<lparr>w_sent := s\<rparr>)" "wkeeps w (w\<lparr>w_recv := s\<rparr>)" "wkeeps w (w\<lparr>w_curr_conns := u\<rparr>)"
  by (simp_all add: wkeeps_def same_queues_def world_wf_def)

lemma upd_conn_keeps:
  assumes "upd_conn g w = Some w'" and "\<And>c c'. g c = Some c' \<Longrightarrow> ckeeps c c'"
  shows "wkeeps w w' \<and> w_slot w' = w_slot w"
  using assms wkeeps_conn by (auto simp: upd_conn_def bind_eq_Some_conv)

lemma new_fctx_keeps:
  assumes "new_fctx sy e opt w = Some (r, w1)"
  shows "wkeeps w w1" "\<forall>f. r \<longrightarrow> w_slot w1 = Some f \<longrightarrow> fctx_wf f \<and> f_dio_func f = None"
proof -
  obtain slot where s: "file_ctx_new (sys_mem sy (w_calls w)) (sys_mem sy (w_calls w + 1)) (e_max_fds e) (c_sfd (w_conn w)) DEFAULT_FILE_BUFF_SIZE opt (w_slot w) = Some (r, slot)"
    "w1 = w\<lparr>w_slot := slot, w_conn := (w_conn w)\<lparr>c_fctx := r\<rparr>, w_calls := w_calls w + 2\<rparr>"
    using assms by (auto simp: new_fctx_def bind_eq_Some_conv Let_def)
  have f: "\<forall>f. slot = Some f \<longrightarrow> fctx_wf f \<and> f_dio_func f = None"
    using s(1) by (auto simp: file_ctx_new_def fctx_wf_def file_ctx_reinit_def split: if_splits option.splits)
  then show "wkeeps w w1" by (simp add: s(2) wkeeps_def same_queues_def world_wf_def conn_wf_def)
  show "\<forall>f. r \<longrightarrow> w_slot w1 = Some f \<longrightarrow> fctx_wf f \<and> f_dio_func f = None" using f s(2) by simp
qed

lemma pack_keeps: "file_metedata_pack e m f = Some (r, f') \<Longrightarrow> fkeeps f f'"
  by (auto simp: file_metedata_pack_def fileidname_pack_def mapname_pack_def blockmapname_pack_def bind_eq_Some_conv Let_def fkeeps_def split: if_splits)

lemma upload_start_keeps:
  assumes "upload_start e f w = Some (st, w')" and "fctx_wf f"
  shows "wkeeps w w'"
proof -
  obtain name sz tot where q: "req_str (field_off lfs_fileupload_req ''file_name'') (w_conn w) = Some name"
    "req_long (field_off lfs_fileupload_req ''file_size'') (w_conn w) = Some sz" "req_long (field_off lfs_fileupload_req ''file_total_size'') (w_conn w) = Some tot"
    "\<not> length name > LFS_FILE_NAME_SIZE"
    using assms(1) by (auto simp: upload_start_def bind_eq_Some_conv Let_def split: if_splits)
  let ?g = "upload_ctx e (w_calls w) name sz tot f"
  obtain ret g where p: "file_metedata_pack (e_names e) (w_mounts w) ?g = Some (ret, g)" using assms(1) q by (auto simp: upload_start_def bind_eq_Some_conv)
  let ?w = "w\<lparr>w_slot := Some g, w_calls := w_calls w + 2\<rparr>"
  have "w' = ?w \<or> w' = ?w\<lparr>w_conn := set_conn_state conn_fread (w_conn w)\<rparr>" using assms(1) q p by (auto simp: upload_start_def Let_def split: if_splits)
  moreover have "fctx_wf g" using pack_keeps [OF p] assms(2) by (simp add: fkeeps_def fctx_wf_def upload_ctx_def)
  ultimately show ?thesis by (auto simp: wkeeps_def same_queues_def world_wf_def)
qed

subsection \<open>Postconditions\<close>

text \<open>\<open>post P m\<close>: whatever \<open>m\<close> returns satisfies \<open>P\<close>. The rules follow the text of a definition.\<close>

definition post :: "('a \<Rightarrow> bool) \<Rightarrow> 'a option \<Rightarrow> bool" where
  "post P m \<longleftrightarrow> (\<forall>x. m = Some x \<longrightarrow> P x)"

lemma postD: "post P m \<Longrightarrow> m = Some x \<Longrightarrow> P x"
  by (simp add: post_def)

lemma post_None: "post P None"
  by (simp add: post_def)

lemma post_Some: "P x \<Longrightarrow> post P (Some x)"
  by (simp add: post_def)

lemma post_bind: "(\<And>x. m = Some x \<Longrightarrow> post P (f x)) \<Longrightarrow> post P (Option.bind m f)"
  by (auto simp: post_def bind_eq_Some_conv)

lemma post_prod: "(\<And>a b. p = (a, b) \<Longrightarrow> post P (f a b)) \<Longrightarrow> post P (case p of (a, b) \<Rightarrow> f a b)"
  by (cases p) simp

lemma post_prod1: "(\<And>a b. p = (a, b) \<Longrightarrow> post P (f a b x)) \<Longrightarrow> post P ((case p of (a, b) \<Rightarrow> f a b) x)"
  by (cases p) simp

lemma post_Let: "post P (f x) \<Longrightarrow> post P (Let x f)"
  by simp

lemma post_if: "(b \<Longrightarrow> post P x) \<Longrightarrow> (\<not> b \<Longrightarrow> post P y) \<Longrightarrow> post P (if b then x else y)"
  by simp

lemma post_option: "(m = None \<Longrightarrow> post P x) \<Longrightarrow> (\<And>y. m = Some y \<Longrightarrow> post P (f y)) \<Longrightarrow> post P (case m of None \<Rightarrow> x | Some y \<Rightarrow> f y)"
  by (cases m) simp_all

lemmas post_rules = post_None post_bind post_prod post_prod1 post_Let post_if post_option

lemma wk_slot: "fctx_wf f \<Longrightarrow> wkeeps w w1 \<Longrightarrow> wkeeps w (w1\<lparr>w_slot := Some f\<rparr>)"
  using wkeeps_slot wkeeps_trans by blast

lemma wk_conn: "ckeeps (w_conn w1) c \<Longrightarrow> wkeeps w w1 \<Longrightarrow> wkeeps w (w1\<lparr>w_conn := c\<rparr>)"
  using wkeeps_conn wkeeps_trans by blast

lemma wk_upd: "upd_conn g w1 = Some w2 \<Longrightarrow> (\<And>c c'. g c = Some c' \<Longrightarrow> ckeeps c c') \<Longrightarrow> wkeeps w w1 \<Longrightarrow> wkeeps w w2"
  using upd_conn_keeps wkeeps_trans by blast

lemma wk_new: "new_fctx sy e opt w1 = Some (r, w2) \<Longrightarrow> wkeeps w w1 \<Longrightarrow> wkeeps w w2"
  using new_fctx_keeps(1) wkeeps_trans by blast

lemmas wk_other = wkeeps_other [THEN wkeeps_trans [rotated]]

lemma wf_new: "new_fctx sy e opt w1 = Some (True, w2) \<Longrightarrow> w_slot w2 = Some f \<Longrightarrow> fctx_wf f" "new_fctx sy e opt w1 = Some (True, w2) \<Longrightarrow> w_slot w2 = Some f \<Longrightarrow> f_dio_func f = None"
  using new_fctx_keeps(2) by blast+

lemma set_resp_keeps: "set_resp_header n cmd st c = Some c' \<Longrightarrow> ckeeps c c'" "put_resp off bs c = Some c' \<Longrightarrow> ckeeps c c'"
  using set_resp_header_keeps put_resp_keeps by blast+

lemma download_start_keeps:
  assumes "wkeeps w w1" and "fctx_wf f"
  shows "post (\<lambda>r. wkeeps w (snd r)) (download_start off n f w1)"
proof -
  have f: "fctx_wf (f\<lparr>f_size := n, f_op_flags := O_RDONLY, f_dio_func := Some Dio_read, f_op_func := Some File_download_done\<rparr>)"
    using assms(2) by (simp add: fctx_wf_def)
  show ?thesis
    unfolding download_start_def
    by (intro post_rules post_Some) (use assms(1) in \<open>auto intro: wk_slot [OF f] elim!: wk_upd dest: handle_protocol_ack_keeps\<close>)
qed

subsection \<open>The handlers\<close>

lemma upload_keeps:
  assumes "wkeeps w w1" and "fctx_wf f"
  shows "post (\<lambda>r. wkeeps w (snd r)) (upload_start e f w1)"
  using assms(1) upload_start_keeps [OF _ assms(2)] wkeeps_trans by (fastforce simp: post_def)

lemma fctx_wf_name [simp]:
  "fctx_wf (f\<lparr>f_mnt_block_index := ix\<rparr>) = fctx_wf f" "fctx_wf (f\<lparr>f_mp_pre := pre\<rparr>) = fctx_wf f" "fctx_wf (f\<lparr>f_mp_suf := suf\<rparr>) = fctx_wf f"
  "fctx_wf (f\<lparr>Ds_File.f_map_name := n\<rparr>) = fctx_wf f" "fctx_wf (f\<lparr>Ds_File.f_block_map_name := n\<rparr>) = fctx_wf f" "fctx_wf (f\<lparr>f_path_name := n\<rparr>) = fctx_wf f"
  "fctx_wf (f\<lparr>f_size := i\<rparr>) = fctx_wf f" "fctx_wf (f\<lparr>f_offset := i\<rparr>) = fctx_wf f" "fctx_wf (f\<lparr>f_create_timestamp := i\<rparr>) = fctx_wf f" "fctx_wf (f\<lparr>Ds_File.f_id := n\<rparr>) = fctx_wf f"
  by (simp_all add: fctx_wf_def)

lemma fileupload_keeps: "post (\<lambda>r. wkeeps w (snd r)) (handle_cmd_fileupload sy e w)"
  unfolding handle_cmd_fileupload_def
  by (intro post_rules post_Some upload_keeps) (auto intro!: wk_slot wk_other elim: wk_new dest: wf_new)

lemma filedownload_keeps: "post (\<lambda>r. wkeeps w (snd r)) (handle_cmd_filedownload sy e w)"
  unfolding handle_cmd_filedownload_def
  by (intro post_rules post_Some download_start_keeps) (auto intro!: wk_slot wk_other elim: wk_new dest: wf_new)

lemma asynccopyfile_keeps: "post (\<lambda>r. wkeeps w (snd r)) (handle_cmd_asynccopyfile sy e w)"
  unfolding handle_cmd_asynccopyfile_def
  by (intro post_rules post_Some) (auto intro!: wk_slot wk_conn elim: wk_new simp: fctx_wf_def dest: wf_new)

lemma wk_resp:
  "upd_conn (set_resp_header n cmd st) w1 = Some w2 \<Longrightarrow> wkeeps w w1 \<Longrightarrow> wkeeps w w2" "upd_conn (put_resp off bs) w1 = Some w2 \<Longrightarrow> wkeeps w w1 \<Longrightarrow> wkeeps w w2"
  "upd_conn (handle_protocol_error code) w1 = Some w2 \<Longrightarrow> wkeeps w w1 \<Longrightarrow> wkeeps w w2"
  by (erule wk_upd; blast dest: set_resp_keeps handle_protocol_error_keeps)+

lemma set_state_keeps [simp]: "ckeeps c (set_conn_state s (c\<lparr>wbytes := i\<rparr>))" "ckeeps c (set_conn_mstate s t (c\<lparr>wbytes := i\<rparr>))"
  by (simp_all add: ckeeps_def conn_wf_def set_conn_state_def set_conn_mstate_def Let_def)

lemma getmasterbinlogmete_keeps: "post (\<lambda>r. wkeeps w (snd r)) (handle_cmd_getmasterbinlogmete sy e w)"
  unfolding handle_cmd_getmasterbinlogmete_def
  by (intro post_rules post_Some) (auto intro!: wk_conn elim!: wk_resp)

lemma send_file_keeps: "wkeeps w w1 \<Longrightarrow> post (\<lambda>r. wkeeps w (snd r)) (send_file cmd n w1)"
  unfolding send_file_def
  by (intro post_rules post_Some) (auto intro!: wk_conn elim!: wk_resp)

lemma copymasterbinlog_keeps: "post (\<lambda>r. wkeeps w (snd r)) (handle_cmd_copymasterbinlog sy e w)"
  unfolding handle_cmd_copymasterbinlog_def
  by (intro post_rules post_Some send_file_keeps) (auto intro!: wk_slot wk_other elim: wk_new dest: wf_new)

lemma copymasterdata_keeps: "post (\<lambda>r. wkeeps w (snd r)) (handle_cmd_copymasterdata sy e w)"
  unfolding handle_cmd_copymasterdata_def
  by (intro post_rules post_Some send_file_keeps) (auto intro!: wk_slot wk_other elim: wk_new dest: wf_new)

lemma cmd_handler_keeps: "post (\<lambda>r. wkeeps w (snd r)) (cmd_handler cmd sy e w)"
  unfolding cmd_handler_def
  by (intro post_if fileupload_keeps filedownload_keeps asynccopyfile_keeps getmasterbinlogmete_keeps copymasterbinlog_keeps copymasterdata_keeps post_Some) simp

lemma dispatch_cmd_keeps:
  assumes "dispatch_cmd sy e cmd w = Some w'"
  shows "wkeeps w w'"
proof -
  obtain st w1 where h: "cmd_handler cmd sy e w = Some (st, w1)" using assms by (auto simp: dispatch_cmd_def bind_eq_Some_conv)
  have k: "wkeeps w w1" using postD [OF cmd_handler_keeps h] by simp
  have "w' = w1 \<or> upd_conn (handle_protocol_error st) w1 = Some w'" using assms h by (auto simp: dispatch_cmd_def split: if_splits)
  then show ?thesis using k wk_resp(3) by blast
qed

lemma parse_protocol_cmd_keeps: "post (\<lambda>r. wkeeps w (snd r)) (parse_protocol_cmd sy e w)"
proof -
  have "wkeeps w (w\<lparr>w_conn := (w_conn w)\<lparr>rbytes := i, rcurr := j\<rparr>\<rparr>)" for i j by (rule wkeeps_conn) (simp add: ckeeps_def conn_wf_def)
  then show ?thesis unfolding parse_protocol_cmd_def
    by (intro post_rules post_Some) (auto dest!: dispatch_cmd_keeps intro: wkeeps_trans)
qed

subsection \<open>The state machine\<close>

lemma wk_slot': "w_slot w1 = Some f \<Longrightarrow> fkeeps f f' \<Longrightarrow> wkeeps w w1 \<Longrightarrow> wkeeps w (w1\<lparr>w_slot := Some f'\<rparr>)"
  using wkeeps_slot' wkeeps_trans by blast

lemma wk_goto: "wkeeps w w1 \<Longrightarrow> wkeeps w (goto st w1)"
  by (simp add: goto_def wk_conn)

lemma conn_write_reset_keeps: "ckeeps c (conn_write_reset c)"
  by (simp add: conn_write_reset_def ckeeps_def conn_wf_def)

lemma conn_reset_keeps: "wkeeps w (conn_reset w)"
  by (auto simp: conn_reset_def with_fctx_def wkeeps_def same_queues_def world_wf_def conn_wf_def fctx_wf_def file_ctx_buff_reset_def Let_def)

lemma wk_reset: "wkeeps w w1 \<Longrightarrow> wkeeps w (conn_reset w1)"
  using conn_reset_keeps wkeeps_trans by blast

lemma conn_clean_keeps: "wkeeps w (conn_clean w)"
  by (auto simp: conn_clean_def file_ctx_clean_def wkeeps_def same_queues_def world_wf_def conn_wf_def fctx_wf_def Let_def split: option.split)

lemma conn_close_keeps: "wkeeps w (conn_close sy w)"
proof -
  let ?w = "w\<lparr>w_conn := fst (snd (event_del sy (w_conn w) (w_calls w))), w_calls := snd (snd (event_del sy (w_conn w) (w_calls w)))\<rparr>"
  have "wkeeps w ?w" by (intro wk_other wk_conn wkeeps_refl) (simp add: event_del_def ckeeps_def conn_wf_def)
  then have "wkeeps w (conn_clean ?w)" using conn_clean_keeps wkeeps_trans by blast
  then show ?thesis by (auto simp: conn_close_def Let_def case_prod_beta intro!: wk_other wk_conn)
qed

lemmas net_keeps = network_fread_keeps network_fwrite_keeps network_write_noblock_keeps

lemma machine_fread_keeps:
  assumes "c_state (w_conn w) = conn_fread"
  shows "post (\<lambda>r. wkeeps w (snd r)) (machine_step sy e w)"
  unfolding machine_step_def Let_def assms conn_states.case
  by (intro post_rules post_Some)
     (auto simp: Let_def split: network_read_result.split if_splits dest!: net_keeps intro!: wk_goto wk_other wk_slot' wk_conn)

lemma machine_write_keeps:
  assumes "c_state (w_conn w) = conn_write \<or> c_state (w_conn w) = conn_mwrite"
  shows "post (\<lambda>r. wkeeps w (snd r)) (machine_step sy e w)"
proof -
  have "ckeeps c c' \<Longrightarrow> ckeeps c (conn_write_reset c')" for c c' using ckeeps_trans conn_write_reset_keeps by blast
  then show ?thesis using assms unfolding machine_step_def Let_def
    by (elim disjE; simp only: conn_states.case)
       (intro post_rules post_Some, auto split: network_write_result.split dest!: net_keeps intro!: wk_goto wk_reset wk_other wk_conn)+
qed

lemma machine_fwrite_keeps:
  assumes "c_state (w_conn w) = conn_fwrite"
  shows "post (\<lambda>r. wkeeps w (snd r)) (machine_step sy e w)"
  unfolding machine_step_def Let_def assms conn_states.case
  by (intro post_rules post_Some)
     (auto split: network_write_result.split if_splits dest!: net_keeps intro!: wk_goto wk_reset wk_other wk_slot' wk_conn)

lemma machine_fsend_keeps:
  assumes "c_state (w_conn w) = conn_fsend"
  shows "post (\<lambda>r. wkeeps w (snd r)) (machine_step sy e w)"
  unfolding machine_step_def Let_def assms conn_states.case
  by (intro post_rules post_Some) (auto split: network_write_result.split intro!: wk_goto wk_reset wk_other)

lemma machine_keeps:
  assumes "c_state (w_conn w) \<noteq> conn_n2dio"
  shows "post (\<lambda>r. wkeeps w (snd r)) (machine_step sy e w)"
proof (cases "c_state (w_conn w)")
  case conn_waiting
  show ?thesis unfolding machine_step_def Let_def conn_waiting conn_states.case
    by (intro post_rules post_Some) (auto dest!: update_conn_event_keeps intro!: wk_goto wk_other wk_conn)
next
  case conn_read
  show ?thesis unfolding machine_step_def Let_def conn_read conn_states.case
    by (intro post_rules post_Some) (auto split: network_read_result.split dest!: network_read_keeps intro!: wk_goto wk_other wk_conn)
next
  case conn_parse_cmd
  show ?thesis unfolding machine_step_def Let_def conn_parse_cmd conn_states.case
    by (intro post_rules post_Some) (auto dest!: postD [OF parse_protocol_cmd_keeps] intro!: wk_goto)
next
  case conn_closed
  show ?thesis using conn_close_keeps by (simp add: machine_step_def conn_closed post_def)
qed (use assms machine_fread_keeps machine_write_keeps machine_fwrite_keeps machine_fsend_keeps in simp_all)

end
