(* ===== verification/Ds_Owner.thy ===== *)
theory Ds_Owner
  imports Ds_Keeps
begin

text \<open>
  Who works on a connection of the data server. A connection moves between the network thread, the queue of
  a disk thread and the queue through which it comes back; the threads share the connection and its file
  context without a lock, so everything depends on the connection being in one place. This theory shows
  that it is, and that every step keeps the sizes of the buffers.
\<close>


subsection \<open>The disk threads\<close>

text \<open>What a disk thread keeps; \<open>h\<close> is whether it hands the connection back.\<close>

definition dkeeps :: "bool \<Rightarrow> world \<Rightarrow> world \<Rightarrow> bool" where
  "dkeeps h w w' \<longleftrightarrow> c_sfd (w_conn w') = c_sfd (w_conn w) \<and> c_event_on (w_conn w') = c_event_on (w_conn w) \<and> w_dioqs w' = w_dioqs w \<and>
     (world_wf w \<longrightarrow> world_wf w') \<and> w_cq w' = w_cq w @ (if h then [c_sfd (w_conn w)] else [])"

lemma dk_refl: "dkeeps False w w"
  by (simp add: dkeeps_def)

lemma dk_slot: "w_slot w1 = Some f \<Longrightarrow> (fctx_wf f \<Longrightarrow> fctx_wf f') \<Longrightarrow> dkeeps h w w1 \<Longrightarrow> dkeeps h w (w1\<lparr>w_slot := Some f'\<rparr>)"
  by (simp add: dkeeps_def world_wf_def)

lemma dk_trans: "dkeeps h w w1 \<Longrightarrow> dkeeps False w1 w2 \<Longrightarrow> dkeeps h w w2"
  unfolding dkeeps_def by simp

lemma dkeeps_conn: "ckeeps (w_conn w1) c \<Longrightarrow> c_event_on c = c_event_on (w_conn w1) \<Longrightarrow> dkeeps False w1 (w1\<lparr>w_conn := c\<rparr>)"
  by (simp add: dkeeps_def world_wf_def ckeeps_def)

lemma dk_conn: "ckeeps (w_conn w1) c \<Longrightarrow> c_event_on c = c_event_on (w_conn w1) \<Longrightarrow> dkeeps h w w1 \<Longrightarrow> dkeeps h w (w1\<lparr>w_conn := c\<rparr>)"
  using dkeeps_conn dk_trans by blast

lemma dk_upd:
  "upd_conn g w1 = Some w2 \<Longrightarrow> (\<And>c c'. g c = Some c' \<Longrightarrow> ckeeps c c' \<and> c_event_on c' = c_event_on c) \<Longrightarrow> dkeeps h w w1 \<Longrightarrow> dkeeps h w w2 \<and> w_slot w2 = w_slot w1"
  by (auto simp: upd_conn_def bind_eq_Some_conv intro: dk_conn)

lemma dkeeps_other:
  "dkeeps False w (w\<lparr>w_fs := x\<rparr>)" "dkeeps False w (w\<lparr>w_bctx := b\<rparr>)" "dkeeps False w (w\<lparr>w_rbctx := b\<rparr>)" "dkeeps False w (w\<lparr>w_last_sync_sequence := i\<rparr>)"
  by (simp_all add: dkeeps_def world_wf_def)

lemmas dk_other = dkeeps_other [THEN dk_trans [rotated]]

lemma dkeeps_notify: "dkeeps True w (dio_notify_nio sy st fl w)"
  by (simp add: dkeeps_def world_wf_def dio_notify_nio_def conn_wf_def conn_queue_push_def Let_def)

lemma dk_notify: "dkeeps False w w1 \<Longrightarrow> dkeeps True w (dio_notify_nio sy st fl w1)"
  using dkeeps_notify [of w1 sy st fl] unfolding dkeeps_def by simp

lemma dk_resp:
  "upd_conn (set_resp_header n cmd st) w1 = Some w2 \<Longrightarrow> dkeeps h w w1 \<Longrightarrow> dkeeps h w w2 \<and> w_slot w2 = w_slot w1"
  "upd_conn (put_resp off bs) w1 = Some w2 \<Longrightarrow> dkeeps h w w1 \<Longrightarrow> dkeeps h w w2 \<and> w_slot w2 = w_slot w1"
  "upd_conn (resp_header code) w1 = Some w2 \<Longrightarrow> dkeeps h w w1 \<Longrightarrow> dkeeps h w w2 \<and> w_slot w2 = w_slot w1"
  "upd_conn (\<lambda>c. Some (c\<lparr>wbytes := wbytes c + i\<rparr>)) w1 = Some w2 \<Longrightarrow> dkeeps h w w1 \<Longrightarrow> dkeeps h w w2 \<and> w_slot w2 = w_slot w1"
     apply (erule dk_upd, erule set_resp_header_keeps, assumption)
    apply (erule dk_upd, erule put_resp_keeps, assumption)
   apply (erule dk_upd, erule resp_header_keeps, assumption)
  apply (erule dk_upd, auto simp: ckeeps_def conn_wf_def)
  done

lemma answer_keeps: "dkeeps False w w1 \<Longrightarrow> post (dkeeps True w) (answer sy st w1)"
  unfolding answer_def by (intro post_rules post_Some dk_notify) (blast dest: dk_resp)

lemma upload_record_keeps: "dkeeps False w w1 \<Longrightarrow> post (dkeeps True w) (upload_record sy e f w1)"
  unfolding upload_record_def
  by (intro post_rules post_Some answer_keeps dk_notify) (auto intro: dk_other dest!: dk_resp(1) dk_resp(2) dk_resp(4))

lemma pack_wf: "file_metedata_pack e m f = Some (r, f') \<Longrightarrow> fctx_wf f \<Longrightarrow> fctx_wf f'"
  using pack_keeps fkeeps_wf by blast

lemma fctx_wf_upload: "fctx_wf (f\<lparr>f_create_timestamp := i, f_crc32 := j\<rparr>) = fctx_wf f"
  by (simp add: fctx_wf_def)

lemma upload_finish_keeps: "w_slot w1 = Some f \<Longrightarrow> dkeeps False w w1 \<Longrightarrow> post (dkeeps True w) (upload_finish sy e f w1)"
  unfolding upload_finish_def Let_def
  by (intro post_rules answer_keeps upload_record_keeps) (auto intro!: dk_other dk_slot intro: pack_wf simp: fctx_wf_upload)

lemma post_ex: "post (dkeeps h w) m \<Longrightarrow> post (\<lambda>w'. \<exists>h. dkeeps h w w') m"
  by (auto simp: post_def)

lemma fctx_wf_reset: "fctx_wf f \<Longrightarrow> fctx_wf (file_ctx_reset f)" "fctx_wf f \<Longrightarrow> fctx_wf (file_ctx_buff_reset f)"
  by (simp_all add: fctx_wf_def file_ctx_reset_def file_ctx_buff_reset_def)

lemma dk_ex: "dkeeps h w w1 \<Longrightarrow> \<exists>h. dkeeps h w w1"
  by blast

lemma dk_send_reset: "upd_conn (resp_header code) w1 = Some w2 \<Longrightarrow> w_slot w1 = Some f \<Longrightarrow> dkeeps False w w1 \<Longrightarrow> dkeeps False w (w2\<lparr>w_slot := Some (file_ctx_reset f)\<rparr>)"
  by (drule (1) dk_resp(3)) (auto intro!: dk_slot fctx_wf_reset)

lemma file_upload_done_keeps: "dkeeps False w w1 \<Longrightarrow> post (\<lambda>w'. \<exists>h. dkeeps h w w') (file_upload_done_callback sy e ret w1)"
  unfolding file_upload_done_callback_def
  apply (intro post_rules post_Some post_ex [OF answer_keeps] post_ex [OF upload_finish_keeps])
      apply (auto split: if_splits)
  apply (rule dk_ex, rule dk_notify, erule dk_send_reset; assumption)
  done

lemma dk_seq: "dkeeps h w w1 \<Longrightarrow> dkeeps h w (if b then w1\<lparr>w_last_sync_sequence := i\<rparr> else w1)"
  by (simp add: dk_other)

lemma asyncfile_done_keeps: "dkeeps False w w1 \<Longrightarrow> post (dkeeps True w) (asyncfile_done_callback sy e ret w1)"
  unfolding asyncfile_done_callback_def
  by (intro post_rules post_Some answer_keeps dk_notify dk_seq) (auto intro: dk_other dest!: dk_resp(1))

lemma op_func_keeps: "dkeeps False w w1 \<Longrightarrow> post (\<lambda>w'. \<exists>h. dkeeps h w w') (op_func_call sy e g ret w1)"
proof (cases g)
  case File_download_done
  assume "dkeeps False w w1"
  then show ?thesis unfolding File_download_done op_func_call_def op_done_func.case file_download_done_callback_def
    by (intro post_rules post_Some post_ex [OF answer_keeps] dk_ex)
qed (use file_upload_done_keeps post_ex [OF asyncfile_done_keeps] in \<open>simp_all add: op_func_call_def\<close>)

lemma call_op_func_keeps: "dkeeps False w w1 \<Longrightarrow> post (\<lambda>r. \<exists>h. dkeeps h w (snd r)) (call_op_func (op_func_call sy e) ret w1)"
  unfolding call_op_func_def
  by (intro post_rules post_Some) (auto dest: postD [OF op_func_keeps])

lemma open_file_keeps: "open_file off f fs = (r, f', fs') \<Longrightarrow> fkeeps f f'" "(if b then open_file off f fs else (0, f, fs)) = (r, f', fs') \<Longrightarrow> fkeeps f f'"
  by (auto simp: open_file_def Let_def fkeeps_def split: if_splits prod.splits)

lemma close_file_keeps: "close_file f fs = (f', fs') \<Longrightarrow> fkeeps f f'"
  by (auto simp: close_file_def fkeeps_def split: if_splits)

lemma dk_fkeeps: "w_slot w1 = Some f \<Longrightarrow> fkeeps f f' \<Longrightarrow> dkeeps h w w1 \<Longrightarrow> dkeeps h w (w1\<lparr>w_slot := Some f'\<rparr>)"
  using fkeeps_wf by (intro dk_slot)

lemma dio_write_error_cleanup_keeps: "dkeeps False w w1 \<Longrightarrow> post (dkeeps False w) (dio_write_error_cleanup w1)"
  unfolding dio_write_error_cleanup_def Let_def
  by (intro post_rules post_Some) (auto intro!: dk_other dk_fkeeps simp: fkeeps_def split: if_splits)

lemma dio_write_fail_keeps: "dkeeps False w w1 \<Longrightarrow> post (\<lambda>r. \<exists>h. dkeeps h w (snd r)) (dio_write_fail (op_func_call sy e) ret w1)"
  unfolding dio_write_fail_def
  by (intro post_rules call_op_func_keeps) (auto dest: postD [OF dio_write_error_cleanup_keeps] split: if_splits)

lemma fctx_of: "(if c_fctx (w_conn w) then w_slot w else None) = Some f \<Longrightarrow> w_slot w = Some f"
  by (simp split: if_splits)

lemma dio_write_keeps: "post (\<lambda>r. \<exists>h. dkeeps h w (snd r)) (dio_write sy (op_func_call sy e) w)"
proof -
  have o: "dkeeps False w (w\<lparr>w_slot := Some f', w_fs := fs'\<rparr>)" if "w_slot w = Some f" "fkeeps f f'" for f f' fs'
    by (intro dk_other dk_fkeeps [OF that] dk_refl)
  have n: "dkeeps False w (w\<lparr>w_slot := Some (file_ctx_buff_reset (f'\<lparr>f_offset := i, f_total_offset := j\<rparr>)), w_fs := fs'\<rparr>)"
    if "w_slot w = Some f" "fkeeps f f'" for f f' fs' i j
    by (intro dk_other dk_slot [OF that(1)] fctx_wf_reset dk_refl) (use that(2) fkeeps_wf in \<open>auto simp: fctx_wf_def fkeeps_def\<close>)
  have c: "fkeeps f f''" if "fkeeps f f'" "close_file (f'\<lparr>f_offset := i, f_total_offset := j\<rparr>) fs = (f'', fs')" for f f' f'' i j fs fs'
    using close_file_keeps [OF that(2)] that(1) by (simp add: fkeeps_def)
  show ?thesis unfolding dio_write_def Let_def
    apply (intro post_rules post_Some dio_write_fail_keeps)
         apply (auto dest!: fctx_of open_file_keeps(2) intro!: o intro: dk_ex [OF dk_notify [OF n]])
    apply (drule (1) c)
    apply (drule postD [OF call_op_func_keeps [OF o], rotated 2], assumption, assumption, simp)
    done
qed


lemma notify_slot: "w_slot (dio_notify_nio sy st fl w) = w_slot w"
  by (simp add: dio_notify_nio_def Let_def)

lemma dio_read_block_keeps:
  assumes "w_slot w = Some f"
  shows "post (\<lambda>r. \<exists>h g. dkeeps h w (snd r) \<and> w_slot (snd r) = Some g \<and> fkeeps f g \<and> (h \<longrightarrow> fst r = 0)) (dio_read_block sy f w)"
proof -
  have o: "\<exists>h g. dkeeps h w (w\<lparr>w_slot := Some f', w_fs := fs'\<rparr>) \<and> w_slot (w\<lparr>w_slot := Some f', w_fs := fs'\<rparr>) = Some g \<and> fkeeps f g \<and> (h \<longrightarrow> q)"
    if "fkeeps f f'" for f' fs' q
    by (rule exI [of _ False]) (use that in \<open>auto intro!: dk_other dk_fkeeps [OF assms] dk_refl\<close>)
  have b: "fkeeps f (f'\<lparr>f_buff := bs\<rparr>)" if "fkeeps f f'" "put_bytes (f_buff f') i xs = Some bs" for f' i xs bs
    using that(1) put_bytes_length [OF that(2)] by (simp add: fkeeps_def)
  have n: "\<exists>h g. dkeeps h w (dio_notify_nio sy st fl (w\<lparr>w_slot := Some f', w_fs := fs'\<rparr>)) \<and>
      w_slot (dio_notify_nio sy st fl (w\<lparr>w_slot := Some f', w_fs := fs'\<rparr>)) = Some g \<and> fkeeps f g \<and> (h \<longrightarrow> LFS_OK = 0)"
    if "fkeeps f f'" for f' fs' st fl
    by (rule exI [of _ True]) (use that in \<open>auto intro!: dk_notify dk_other dk_fkeeps [OF assms] dk_refl simp: notify_slot\<close>)
  have i: "fkeeps f (f'\<lparr>f_buff_offset := i\<rparr>)" if "fkeeps f f'" for f' i using that by (simp add: fkeeps_def)
  show ?thesis unfolding dio_read_block_def Let_def
    apply (intro post_rules post_Some)
        apply (simp_all only: fst_conv snd_conv)
        apply (use assms dk_refl in auto) [1]
       apply (rule o, erule open_file_keeps(1))
      apply (rule o, erule open_file_keeps(1))
     apply (rule o, rule b, erule open_file_keeps(1), assumption)
    apply (rule n, rule i, rule b, erule open_file_keeps(1), assumption)
    done
qed

lemma dio_read_keeps:
  assumes wf: "world_wf w" and d: "w_slot w = Some f" "f_dio_func f = Some Dio_read"
  shows "post (\<lambda>r. \<exists>h. dkeeps h w (snd r)) (dio_read sy (op_func_call sy e) w)"
proof (unfold post_def, intro allI impI)
  fix r assume r: "dio_read sy (op_func_call sy e) w = Some r"
  then obtain ret w1 where b: "dio_read_block sy f w = Some (ret, w1)" using d by (auto simp: dio_read_def bind_eq_Some_conv split: if_splits)
  obtain h g where h: "dkeeps h w w1" "w_slot w1 = Some g" "fkeeps f g" "h \<longrightarrow> ret = 0"
    using postD [OF dio_read_block_keeps [OF d(1)] b] by auto
  obtain g' fs where g: "close_file g (w_fs w1) = (g', fs)" by fastforce
  let ?w = "w1\<lparr>w_slot := Some g', w_fs := fs\<rparr>"
  have c: "call_op_func (op_func_call sy e) ret ?w = Some r" using r d b h(2) g by (auto simp: dio_read_def split: if_splits)
  have k: "dkeeps h w ?w" using dk_fkeeps [OF h(2) close_file_keeps [OF g] h(1)] by (rule dk_other)
  have "f_op_func g' = Some File_download_done" using wf d h(3) close_file_keeps [OF g] by (auto simp: world_wf_def fctx_wf_def fkeeps_def)
  then have "h \<Longrightarrow> snd r = ?w" using c h(4) by (auto simp: call_op_func_def op_func_call_def file_download_done_callback_def)
  then show "\<exists>h. dkeeps h w (snd r)" using k postD [OF call_op_func_keeps c] by (cases h) auto
qed

lemma run_dio_func_keeps:
  assumes "world_wf w"
  shows "post (\<lambda>r. \<exists>h. dkeeps h w (snd r)) (run_dio_func sy (op_func_call sy e) w)"
  unfolding run_dio_func_def
proof (intro post_bind)
  fix f g assume "(if c_fctx (w_conn w) then w_slot w else None) = Some f" "f_dio_func f = Some g"
  then show "post (\<lambda>r. \<exists>h. dkeeps h w (snd r)) (case g of Dio_read \<Rightarrow> dio_read sy (op_func_call sy e) w | Dio_write \<Rightarrow> dio_write sy (op_func_call sy e) w)"
    using dio_read_keeps [OF assms fctx_of] dio_write_keeps by (cases g) auto
qed

subsection \<open>One owner\<close>

lemma del_conn_event_keeps:
  "ckeeps c (fst (snd (del_conn_event sy c k)))" "fst (del_conn_event sy c k) = 0 \<Longrightarrow> \<not> c_event_on (fst (snd (del_conn_event sy c k)))"
  by (simp_all add: del_conn_event_def event_del_def ckeeps_def conn_wf_def Let_def split: if_splits)

lemma push_dioq_keeps:
  "world_wf (push_dioq t w) = world_wf w" "w_conn (push_dioq t w) = w_conn w" "w_cq (push_dioq t w) = w_cq w"
  "w_dioqs (push_dioq t w) = (w_dioqs w)(t := w_dioqs w t @ [c_sfd (w_conn w)])"
  by (simp_all add: push_dioq_def world_wf_def conn_queue_push_def)

lemma polling_keeps:
  assumes "dio_thread_pool_polling cf w = Some (r, w')"
  shows "r = 0 \<and> (world_wf w \<longrightarrow> world_wf w') \<and> w_conn w' = w_conn w \<and> w_cq w' = w_cq w \<and>
    (\<exists>t. w_dioqs w' = (w_dioqs w)(t := w_dioqs w t @ [c_sfd (w_conn w)]))"
proof -
  have "r = 0 \<and> (\<exists>t i. w' = push_dioq t (w\<lparr>w_last_reader_tid := i\<rparr>) \<or> w' = push_dioq t w)"
    using assms by (auto simp: dio_thread_pool_polling_def Let_def bind_eq_Some_conv split: if_splits file_op_type.splits)
  moreover have "world_wf (w\<lparr>w_last_reader_tid := i\<rparr>) = world_wf w" for i by (simp add: world_wf_def)
  ultimately show ?thesis by (auto simp: push_dioq_keeps)
qed

lemma dispatch_keeps:
  assumes "dio_thread_pool_dispatch sy cf w = Some (r, w')"
  shows "(r \<noteq> 0 \<and> wkeeps w w') \<or>
    (r = 0 \<and> (world_wf w \<longrightarrow> world_wf w') \<and> c_sfd (w_conn w') = c_sfd (w_conn w) \<and> \<not> c_event_on (w_conn w') \<and> w_cq w' = w_cq w \<and>
     (\<exists>t. w_dioqs w' = (w_dioqs w)(t := w_dioqs w t @ [c_sfd (w_conn w)])))"
proof -
  obtain q c k where d: "del_conn_event sy (w_conn w) (w_calls w) = (q, c, k)" by (cases "del_conn_event sy (w_conn w) (w_calls w)")
  have c: "ckeeps (w_conn w) c" "q = 0 \<Longrightarrow> \<not> c_event_on c" using del_conn_event_keeps [where c = "w_conn w" and sy = sy and k = "w_calls w"] d by simp_all
  let ?w = "w\<lparr>w_conn := c, w_calls := k\<rparr>"
  have k: "wkeeps w ?w" using c(1) by (intro wk_other wk_conn wkeeps_refl) simp
  show ?thesis
  proof (cases "q = 0")
    case False
    then show ?thesis using assms d k by (simp add: dio_thread_pool_dispatch_def)
  next
    case True
    then have "dio_thread_pool_polling cf ?w = Some (r, w')" using assms d by (simp add: dio_thread_pool_dispatch_def)
    from polling_keeps [OF this] show ?thesis using c True k by (auto simp: wkeeps_def same_queues_def)
  qed
qed

text \<open>The places of a connection: in no queue; in the queue of one disk thread; or on its way back. In the last
  two the network thread is not at work on it and libevent does not watch it.\<close>

definition in_no_queue :: "world \<Rightarrow> bool" where
  "in_no_queue w \<longleftrightarrow> mine w (w_cq w) = [] \<and> (\<forall>t. mine w (w_dioqs w t) = [])"

definition in_disk_queue :: "nat \<Rightarrow> world \<Rightarrow> bool" where
  "in_disk_queue t w \<longleftrightarrow> mine w (w_cq w) = [] \<and> mine w (w_dioqs w t) = [c_sfd (w_conn w)] \<and> (\<forall>t'. t' \<noteq> t \<longrightarrow> mine w (w_dioqs w t') = [])"

definition in_back_queue :: "world \<Rightarrow> bool" where
  "in_back_queue w \<longleftrightarrow> mine w (w_cq w) = [c_sfd (w_conn w)] \<and> (\<forall>t. mine w (w_dioqs w t) = [])"

fun one_owner :: "bool \<times> world \<Rightarrow> bool" where
  "one_owner (b, w) \<longleftrightarrow> in_no_queue w \<or> \<not> b \<and> \<not> c_event_on (w_conn w) \<and> (in_back_queue w \<or> (\<exists>t. in_disk_queue t w))"

lemma same_queues_places:
  assumes "same_queues w w'"
  shows "in_no_queue w' = in_no_queue w" "in_disk_queue t w' = in_disk_queue t w" "in_back_queue w' = in_back_queue w"
  using assms by (simp_all add: same_queues_def in_no_queue_def in_disk_queue_def in_back_queue_def mine_def)

lemma wkeeps_owner: "wkeeps w w' \<Longrightarrow> in_no_queue w \<Longrightarrow> world_wf w \<Longrightarrow> one_owner (b, w') \<and> world_wf w'"
  using same_queues_places(1) [of w w'] by (simp add: wkeeps_def)

lemma round_keeps:
  assumes m: "machine_step sy e w = Some (flag, w')" and i: "in_no_queue w" "world_wf w"
  shows "one_owner (\<not> flag, w') \<and> world_wf w'"
proof (cases "c_state (w_conn w) = conn_n2dio")
  case False
  have "wkeeps w w'" using postD [OF machine_keeps [OF False] m] by simp
  then show ?thesis by (rule wkeeps_owner [OF _ i])
next
  case True
  then obtain r w1 where d: "dio_thread_pool_dispatch sy (e_dio e) w = Some (r, w1)" "(flag, w') = (if r \<noteq> 0 then (False, goto conn_closed w1) else (True, w1))"
    using m by (auto simp: machine_step_def bind_eq_Some_conv)
  show ?thesis
  proof (cases "r = 0")
    case False
    then have "wkeeps w w'" using dispatch_keeps [OF d(1)] d(2) wk_goto by simp
    then show ?thesis by (rule wkeeps_owner [OF _ i])
  next
    case True
    then obtain t where t: "w_dioqs w' = (w_dioqs w)(t := w_dioqs w t @ [c_sfd (w_conn w)])" "w_cq w' = w_cq w" "c_sfd (w_conn w') = c_sfd (w_conn w)"
      "\<not> c_event_on (w_conn w')" "world_wf w'" "flag" using dispatch_keeps [OF d(1)] d(2) i(2) by auto
    have "in_disk_queue t w'" using i(1) t(1-3) by (simp add: in_disk_queue_def in_no_queue_def mine_def)
    then show ?thesis using t by auto
  qed
qed


lemma disk_keeps:
  assumes q: "w_dioqs w t = c_sfd (w_conn w) # q" and r: "run_dio_func sy (op_func_call sy e) (w\<lparr>w_dioqs := (w_dioqs w)(t := q)\<rparr>) = Some (r, w')"
    and i: "one_owner (b, w)" "world_wf w"
  shows "one_owner (b, w') \<and> world_wf w'"
proof -
  let ?w = "w\<lparr>w_dioqs := (w_dioqs w)(t := q)\<rparr>"
  have wf: "world_wf ?w" using i(2) by (simp add: world_wf_def)
  obtain h where h: "dkeeps h ?w w'" using postD [OF run_dio_func_keeps [OF wf] r] by auto
  have m: "mine w (w_dioqs w t) \<noteq> []" using q by (simp add: mine_def)
  then have n: "\<not> in_no_queue w" "\<not> in_back_queue w" by (auto simp: in_no_queue_def in_back_queue_def)
  then obtain t' where t': "in_disk_queue t' w" and b: "\<not> b" "\<not> c_event_on (w_conn w)" using i(1) by auto
  have "t' = t" using t' m by (auto simp: in_disk_queue_def)
  then have e: "mine w q = []" "mine w (w_cq w) = []" "\<forall>t'. t' \<noteq> t \<longrightarrow> mine w (w_dioqs w t') = []" using t' q by (auto simp: in_disk_queue_def mine_def)
  have s: "c_sfd (w_conn w') = c_sfd (w_conn w)" "\<not> c_event_on (w_conn w')" "w_dioqs w' = (w_dioqs w)(t := q)" "world_wf w'"
    "w_cq w' = w_cq w @ (if h then [c_sfd (w_conn w)] else [])" using h wf b by (simp_all add: dkeeps_def)
  have "mine w' x = mine w x" for x using s(1) by (simp add: mine_def)
  then have "if h then in_back_queue w' else in_no_queue w'" using e s by (simp add: in_back_queue_def in_no_queue_def) (simp add: mine_def)
  then show ?thesis using b s by (cases h) simp_all
qed

lemma add_conn_event_keeps: "ckeeps c (fst (snd (add_conn_event sy fl c k)))"
  by (simp add: add_conn_event_def event_add_def ckeeps_def conn_wf_def Let_def)

lemma notify_keeps:
  assumes n: "notify_callback sy w = Some w'" and i: "one_owner (b, w)" "world_wf w"
  shows "one_owner (b, w') \<and> world_wf w'"
proof -
  obtain x q where q: "w_cq w = x # q" using n by (cases "w_cq w") (auto simp: notify_callback_def conn_queue_pop_def)
  let ?w = "w\<lparr>w_cq := q, w_pipe := w_pipe w - 1\<rparr>"
  show ?thesis
  proof (cases "x = c_sfd (w_conn w)")
    case False
    then have w: "w' = ?w" using n q by (simp add: notify_callback_def conn_queue_pop_def)
    have "mine w (w_cq w) = mine w q" using q False by (simp add: mine_def)
    then have "in_no_queue ?w = in_no_queue w" "in_back_queue ?w = in_back_queue w" "\<And>t. in_disk_queue t ?w = in_disk_queue t w"
      by (simp_all add: in_no_queue_def in_back_queue_def in_disk_queue_def mine_def)
    moreover have "world_wf ?w = world_wf w" by (simp add: world_wf_def)
    ultimately show ?thesis using i w by simp
  next
    case True
    let ?a = "add_conn_event sy (c_event_flags (w_conn w)) (w_conn w) (w_calls w)"
    have w: "w' = ?w\<lparr>w_conn := fst (snd ?a), w_calls := snd (snd ?a)\<rparr>" using n q True by (simp add: notify_callback_def conn_queue_pop_def case_prod_beta)
    have k: "ckeeps (w_conn w) (fst (snd ?a))" by (rule add_conn_event_keeps)
    have "in_back_queue w" using i(1) q True by (auto simp: in_no_queue_def in_disk_queue_def mine_def)
    then have "in_no_queue w'" using k q True w by (simp add: in_back_queue_def in_no_queue_def mine_def ckeeps_def)
    moreover have "world_wf w'" using i(2) k w by (simp add: world_wf_def ckeeps_def)
    ultimately show ?thesis by simp
  qed
qed

lemma others_keep:
  assumes "mine w q = mine w (w_cq w)" "\<forall>t. mine w (qs t) = mine w (w_dioqs w t)" and i: "one_owner (b, w)" "world_wf w"
  shows "one_owner (b, w\<lparr>w_cq := q, w_dioqs := qs, w_pipe := p\<rparr>) \<and> world_wf (w\<lparr>w_cq := q, w_dioqs := qs, w_pipe := p\<rparr>)"
proof -
  let ?w = "w\<lparr>w_cq := q, w_dioqs := qs, w_pipe := p\<rparr>"
  have "mine ?w = mine w" by (simp add: mine_def fun_eq_iff)
  then have "in_no_queue ?w = in_no_queue w" "in_back_queue ?w = in_back_queue w" "\<And>t. in_disk_queue t ?w = in_disk_queue t w"
    using assms(1,2) by (simp_all add: in_no_queue_def in_back_queue_def in_disk_queue_def)
  moreover have "world_wf ?w = world_wf w" by (simp add: world_wf_def)
  ultimately show ?thesis using i by simp
qed

lemma conn_step_keeps:
  assumes "conn_step sy e s s'" and "one_owner s" "world_wf (snd s)"
  shows "one_owner s' \<and> world_wf (snd s')"
  using assms
proof (induction rule: conn_step.induct)
  case (event w which)
  have "wkeeps w (w\<lparr>w_conn := (w_conn w)\<lparr>c_which := which\<rparr>\<rparr>)" by (rule wkeeps_conn) (simp add: ckeeps_def conn_wf_def)
  moreover have "in_no_queue w" using event by simp
  moreover have "world_wf w" using event by simp
  ultimately show ?case unfolding snd_conv by (rule wkeeps_owner)
next
  case (round w flag w')
  then show ?case using round_keeps [OF round(1)] by simp
next
  case (disk w t q r w' b)
  then show ?case unfolding snd_conv by (intro disk_keeps)
next
  case (notify w w' b)
  then show ?case unfolding snd_conv by (intro notify_keeps)
next
  case (others w q qs b p)
  then show ?case unfolding snd_conv by (intro others_keep)
qed

lemma conn_steps_keep:
  assumes "(conn_step sy e)\<^sup>*\<^sup>* s s'" and "one_owner s" "world_wf (snd s)"
  shows "one_owner s' \<and> world_wf (snd s')"
  using assms by (induction rule: rtranclp_induct) (blast dest: conn_step_keeps)+

subsection \<open>Properties\<close>

lemma one_owner_queues:
  assumes "one_owner (b, w)"
  shows "length (mine w (w_cq w)) \<le> 1 \<and> (\<forall>t. length (mine w (w_dioqs w t)) \<le> 1) \<and>
    (\<forall>t. mine w (w_dioqs w t) \<noteq> [] \<longrightarrow> mine w (w_cq w) = [] \<and> (\<forall>t'. t' \<noteq> t \<longrightarrow> mine w (w_dioqs w t') = [])) \<and>
    (b \<or> c_event_on (w_conn w) \<longrightarrow> mine w (w_cq w) = [] \<and> (\<forall>t. mine w (w_dioqs w t) = []))"
proof -
  consider "in_no_queue w" | "in_back_queue w" "\<not> b" "\<not> c_event_on (w_conn w)" | t where "in_disk_queue t w" "\<not> b" "\<not> c_event_on (w_conn w)"
    using assms by auto
  then show ?thesis
  proof cases
    case 3
    then have "mine w (w_dioqs w t') = (if t' = t then [c_sfd (w_conn w)] else [])" for t' by (simp add: in_disk_queue_def)
    then show ?thesis using 3 by (simp add: in_disk_queue_def)
  qed (simp_all add: in_no_queue_def in_back_queue_def)
qed


text \<open>C16: Every step of every thread keeps the members that describe a buffer true: the buffers for reading and
  writing of a connection and the buffer of its file context have the sizes that the records say, also
  after the buffer for reading has grown, and a context that is read from disk has the function that
  ends downloads.\<close>

theorem buffers_keep_their_sizes:
  assumes "(conn_step sy e)\<^sup>*\<^sup>* (b0, w0) (b, w)" and "in_no_queue w0" and "world_wf w0"
  shows "length (rbuff (w_conn w)) = rsize (w_conn w) \<and> length (wbuff (w_conn w)) = wsize (w_conn w) \<and>
    (\<forall>f. w_slot w = Some f \<longrightarrow> length (f_buff f) = nat (f_buff_size f) \<and>
      (f_dio_func f = Some Dio_read \<longrightarrow> f_op_func f = Some File_download_done))"
proof -
  have "world_wf w" using conn_steps_keep [OF assms(1)] assms(2,3) by simp
  then show ?thesis by (simp add: world_wf_def conn_wf_def fctx_wf_def)
qed

subsection \<open>Witnesses\<close>

definition demo_io :: sys where
  "demo_io = \<lparr>sys_read = (\<lambda>k n. R_data (replicate n 7)), sys_write = (\<lambda>k bs. W_sent (length bs)), sys_event = (\<lambda>k. 0), sys_mem = (\<lambda>k. True)\<rparr>"

definition demo_ds :: ds_env where
  "demo_ds = \<lparr>e_names = demo_names, e_vfs = (\<lambda>_ _. None), e_low = (\<lambda>_ _. False), e_bconfs = demo_block_confs,
     e_dio = \<lparr>dio_read_threads = 1, dio_write_threads = 1\<rparr>, e_max_fds = 64, e_time = (\<lambda>_. 1000), e_rand = (\<lambda>_. 3),
     e_upload_resp = [(''file_b64_id'', 128), (''file_b64_id_len'', 4)]\<rparr>"

text \<open>A connection whose request has been answered and whose file is to be read.\<close>

definition demo_download :: file_ctx where
  "demo_download = (fresh_file_ctx 8 FILE_OP_TYPE_READ)\<lparr>f_size := 12, f_op_flags := O_RDONLY, Ds_File.f_block_map_name := asc ''/b.000'',
     f_dio_func := Some Dio_read, f_op_func := Some File_download_done\<rparr>"

definition demo_world :: "conn_states \<Rightarrow> file_ctx \<Rightarrow> world" where
  "demo_world st f =
     \<lparr>w_conn = (Ds_Conn.fresh_conn 5 16 16)\<lparr>c_state := st, c_event_flags := EV_READ + EV_PERSIST, c_event_on := True, c_fctx := True\<rparr>, w_slot = Some f,
      w_cq = [], w_pipe = 0, w_dioqs = (\<lambda>_. []), w_last_reader_tid = 0, w_fs = demo_fs, w_mounts = demo_mount 2, w_bctx = demo_log, w_rbctx = demo_log,
      w_last_sync_sequence = 0, w_curr_conns = 1, w_calls = 0, w_recv = [], w_sent = []\<rparr>"

lemma demo_world_ok: "in_no_queue (demo_world conn_n2dio demo_download)" "world_wf (demo_world conn_n2dio demo_download)"
  by (simp_all add: demo_world_def demo_download_def in_no_queue_def mine_def world_wf_def conn_wf_def fctx_wf_def Ds_Conn.fresh_conn_def fresh_file_ctx_def)

lemma demo_world_steps:
  "\<exists>w. (conn_step demo_io demo_ds)\<^sup>*\<^sup>* (False, demo_world conn_n2dio demo_download) (False, w) \<and> c_sfd (w_conn w) = 5 \<and> w_dioqs w 0 = [5] \<and>
    rsize (w_conn w) = 16 \<and> w_slot w = Some demo_download"
proof -
  let ?w = "demo_world conn_n2dio demo_download"
  let ?w1 = "?w\<lparr>w_conn := (w_conn ?w)\<lparr>c_which := EV_READ\<rparr>\<rparr>"
  let ?w2 = "push_dioq 0 (?w1\<lparr>w_conn := (w_conn ?w1)\<lparr>c_event_on := False\<rparr>, w_calls := 1\<rparr>)"
  have a: "conn_step demo_io demo_ds (False, ?w) (True, ?w1)" by (rule conn_step.event) (simp add: demo_world_def Ds_Conn.fresh_conn_def)
  have "machine_step demo_io demo_ds ?w1 = Some (True, ?w2)"
    by (simp add: machine_step_def demo_world_def Ds_Conn.fresh_conn_def dio_thread_pool_dispatch_def del_conn_event_def event_del_def demo_io_def demo_ds_def
        dio_thread_pool_polling_def demo_download_def fresh_file_ctx_def push_dioq_def)
  from conn_step.round [OF this] have "conn_step demo_io demo_ds (True, ?w1) (False, ?w2)" by simp
  then have "(conn_step demo_io demo_ds)\<^sup>*\<^sup>* (False, ?w) (False, ?w2)" using a by auto
  then show ?thesis by (intro exI [of _ ?w2] conjI, assumption) (simp_all add: push_dioq_def demo_world_def Ds_Conn.fresh_conn_def conn_queue_push_def)
qed


theorem buffers_keep_their_sizes_witness:
  "\<exists>w. (conn_step demo_io demo_ds)\<^sup>*\<^sup>* (False, demo_world conn_n2dio demo_download) (False, w) \<and> length (rbuff (w_conn w)) = 16 \<and> length (f_buff demo_download) = 8"
proof -
  obtain w where w: "(conn_step demo_io demo_ds)\<^sup>*\<^sup>* (False, demo_world conn_n2dio demo_download) (False, w)" "rsize (w_conn w) = 16" "w_slot w = Some demo_download"
    using demo_world_steps by blast
  have "nat (f_buff_size demo_download) = 8" by (simp add: demo_download_def fresh_file_ctx_def)
  then show ?thesis using buffers_keep_their_sizes [OF w(1) demo_world_ok] w by auto
qed


end
