(* ===== verification/Spec2Isabelle.thy ===== *)
theory Spec2Isabelle
  imports Crc32 Base64 Cfg_File Sched_Timer Hash_Func Ts_Machine Ds_Owner
begin

text \<open>
  Verification of LFS, a distributed file store: the servers under \<open>src/\<close> and the library \<open>src/common\<close>.

  \<^bold>\<open>The program.\<close> A tracker server keeps the data servers, grouped into volumes, and names a data server to
  clients that want to write or to read. A data server stores files in the directories of its blocks, logs
  every operation in a binary log that the other servers of its volume replay, and registers with the
  tracker. Both servers have the same architecture: the main thread accepts connections and hands them to
  worker threads through queues and pipes; a worker drives each connection through a state machine
  (read a request, dispatch it, write the response); on a data server disk threads move the bytes of files.

  \<^bold>\<open>How the code is modelled.\<close> Functions keep the names of the sources. Structures are records, enumerations
  are datatypes, \<open>unsigned\<close> integers whose wrap-around matters are words and the other integers are \<open>int\<close> with
  the conversions written out (\<open>to_s32\<close>, \<open>to_s64\<close>). Buffers are byte lists of their allocated length, so that an
  access outside of a buffer is an error. Linked structures live in explicit stores with an allocator that may
  fail at any call (theory \<open>Heap\<close>); reading a freed or unknown address is an error. Undefined behaviour, a
  failed assertion and a loop without end are \<open>None\<close>; loops that may not end are \<open>partial_function (option)\<close>,
  so no fuel is used, and the claims that a loop ends are proved as such. The answers of the system (sockets,
  libevent, \<open>malloc\<close>, the file system, the clock, random numbers) are functions of the number of the call
  and arguments of the model: the theorems hold for all answers that a stated hypothesis does not exclude.
  A section under a lock is one step; where threads interleave, the theorems quantify over sequences of
  steps or over the reflexive transitive closure of a step relation.

  \<^bold>\<open>The theories.\<close>

  \<^item> Foundations: \<open>Lfs_Prelude\<close> (machine types, conversions, facts on lists and words), \<open>C_Stdlib\<close> (the functions
    of the C library on strings), \<open>Heap\<close> (stores), \<open>Posix_Io\<close> (files), \<open>Net_Io\<close> (sockets and events),
    \<open>Interfaces\<close> (the locales \<open>dict\<close> and \<open>fifo\<close>), \<open>Buckets\<close> (arrays of chains and the locale \<open>link_node\<close>).
    The locales are interpreted on the hash table, the queues, and the nodes of both tables; the configuration
    reader is proved from the contract of the dictionary alone.
  \<^item> \<open>src/common\<close>: \<open>Shared_Func\<close> (\<open>shared_func.c\<close>: codecs are mutually inverse), \<open>Crc32\<close> (\<open>crc32.c\<close>: the table
    computes the bitwise checksum, and bursts are detected), \<open>Hash_Func\<close> (\<open>jenkins_hash.c\<close>, \<open>murmur3_hash.c\<close>, \<open>hash.c\<close>:
    the hash of a key depends on its bytes only), \<open>Base64\<close> (\<open>base64.c\<close>: round trip and exact lengths),
    \<open>Hash_Table\<close> (\<open>hash_table.c\<close>: refinement of a finite map; deletion leaves a dangling node),
    \<open>Cfg_File\<close> (\<open>cfg_file_opt.c\<close>: each name has the value of its line), \<open>List_Head\<close> (\<open>list.h\<close>),
    \<open>Sched_Timer\<close> (\<open>sched_timer.c\<close>: exactly the due timers fire, in order).
  \<^item> \<open>src/include\<close>: \<open>Lfs_Protocol\<close> (the header and the layouts of the bodies).
  \<^item> Tracker: \<open>Ts_Datasevr\<close> (\<open>ts_datasevr.c\<close>: blocks and volumes), \<open>Ts_Wlc\<close> (\<open>ts_wlc.c\<close>: the skip list by load),
    \<open>Ts_Cluster\<close> (\<open>ts_cluster.c\<close>: the table of volumes under concurrent expansion), \<open>Ts_Cluster_Datasevr\<close>
    (\<open>ts_cluster_datasevr.c\<close>: registration and the choice of servers), \<open>Ts_Conn\<close>, \<open>Conn_Queue\<close>, \<open>Ts_Accept\<close>
    (\<open>ts_conn.c\<close>, \<open>ts_queue.c\<close>, first half of \<open>ts_thread.c\<close>: connections reach the workers in turn and none is lost),
    \<open>Ts_Service\<close> (\<open>ts_service.c\<close>: all handlers keep the data base consistent and leave a complete response),
    \<open>Ts_Machine\<close> (second half of \<open>ts_thread.c\<close>: a request is answered; reading ends; failing writes spin).
  \<^item> Data server: \<open>Ds_Binlog\<close> (\<open>ds_binlog.c\<close>: writers, rotation, readers and their marks), \<open>Ds_Block\<close>
    (\<open>ds_block.c\<close>: where a new file goes, snapshot), \<open>Ds_File\<close> (\<open>ds_file.c\<close>: contexts and file names), \<open>Ds_Conn\<close>
    (\<open>ds_conn.c\<close>), \<open>Ds_Disk_Io\<close> (\<open>ds_disk_io.c\<close>: disk threads), \<open>Ds_Service\<close> (\<open>ds_service.c\<close>: handlers and the ends of
    transfers), \<open>Ds_Network_Io\<close> (\<open>ds_network_io.c\<close>: the state machine, and \<open>conn_step\<close>, all threads together),
    \<open>Ds_Keeps\<close> and \<open>Ds_Owner\<close> (what every step keeps; a connection has one owner at every moment).

  \<^bold>\<open>State and operations.\<close> The tracker's data base is the record \<open>cluster\<close> with the stores of volumes, blocks and
  skip list nodes; a worker's state is the record \<open>workers\<close>; a connection is the record \<open>conn\<close> of \<open>Ts_Conn\<close>. The state
  around one connection of the data server is the record \<open>world\<close> of \<open>Ds_Conn\<close>: the connection, the entry of the
  array of file contexts, the queues of the threads that it can be in, the file system, the blocks and the logs.

  \<^bold>\<open>Not modelled.\<close> The main programs and the functions that only read the configuration into global variables
  and start threads (\<open>trackerd.c\<close>, \<open>dataserverd.c\<close>, \<open>ts_func.c\<close>, \<open>ds_func.c\<close>); the logger and the wrappers of socket
  options (\<open>logger.c\<close>, \<open>sock_opt.c\<close>), which are pure input and output; the clients that a data server runs
  (\<open>tracker_client.c\<close>, \<open>ds_sync.c\<close>, \<open>ds_client_conn.c\<close>, \<open>ds_client_network_io.c\<close>) and the snapshot of the tracker
  (\<open>ts_snapshot.c\<close>); the accept loop of the data server, which is the one of the tracker; creating, joining and
  signalling of threads other than the disk threads; the programs under \<open>test/\<close>.
\<close>

end
